(* ===== verification/Raft_Prelude.thy ===== *)
theory Raft_Prelude
  imports Main "HOL-Library.Word"
begin

text \<open>
  The shared vocabulary of the development: machine integers and addresses, the outcome of a
  C++ call (return, exception, blocked, fault), the operations that every component is written
  in, fixed-size character arrays with the C library's \<^verbatim>\<open>strncpy\<close>, and a generic
  transition system with its invariant rule. No definition here models a line of the
  repository; the components do.
\<close>

section \<open>Machine integers\<close>

type_synonym u8 = "8 word"
type_synonym u16 = "16 word"
type_synonym u32 = "32 word"
type_synonym u64 = "64 word"
type_synonym addr = "64 word"

section \<open>Outcomes and operations\<close>

text \<open>
  A call either returns, throws a C++ exception, is still blocked (it waits for a condition
  that no other thread has established), or hits a fault: a failed assertion, a access to
  freed or unmapped memory, a call to \<^verbatim>\<open>abort\<close> or \<^verbatim>\<open>exit\<close>.
\<close>

datatype exn = Queue_closed | Bad_alloc

datatype fault =
    Assert_failed
  | Use_after_free addr
  | Double_free addr
  | Out_of_bounds
  | Aborted
  | Exited int

datatype ('a, 's) outcome =
    Ret 'a 's
  | Throw exn 's
  | Blocked 's
  | Fail fault

text \<open>
  An operation runs on a state and a schedule. The schedule lists what the other threads and
  the Raft process do while this thread is blocked: every time it has to wait, it is resumed
  in the state that the next entry produces. An exhausted schedule leaves it blocked.
\<close>

type_synonym 's sched = "('s \<Rightarrow> 's) list"
type_synonym ('s, 'a) op = "'s \<times> 's sched \<Rightarrow> ('a, 's \<times> 's sched) outcome"

definition ret_op :: "'a \<Rightarrow> ('s, 'a) op" where
  "ret_op a = (\<lambda>s. Ret a s)"

definition bind_op :: "('s, 'a) op \<Rightarrow> ('a \<Rightarrow> ('s, 'b) op) \<Rightarrow> ('s, 'b) op" where
  "bind_op m f = (\<lambda>s. case m s of
       Ret a s' \<Rightarrow> f a s'
     | Throw x s' \<Rightarrow> Throw x s'
     | Blocked s' \<Rightarrow> Blocked s'
     | Fail e \<Rightarrow> Fail e)"

definition then_op :: "('s, 'a) op \<Rightarrow> ('s, 'b) op \<Rightarrow> ('s, 'b) op" where
  "then_op m n = bind_op m (\<lambda>_. n)"

definition gets_op :: "('s \<Rightarrow> 'a) \<Rightarrow> ('s, 'a) op" where
  "gets_op f = (\<lambda>(s, es). Ret (f s) (s, es))"

definition modify_op :: "('s \<Rightarrow> 's) \<Rightarrow> ('s, unit) op" where
  "modify_op f = (\<lambda>(s, es). Ret () (f s, es))"

definition throw_op :: "exn \<Rightarrow> ('s, 'a) op" where
  "throw_op x = (\<lambda>s. Throw x s)"

definition fail_op :: "fault \<Rightarrow> ('s, 'a) op" where
  "fail_op e = (\<lambda>_. Fail e)"

definition assert_op :: "bool \<Rightarrow> ('s, unit) op" where
  "assert_op b = (if b then ret_op () else fail_op Assert_failed)"

text \<open>\<^verbatim>\<open>try { m } catch (queue_closed&) { h }\<close>: other exceptions pass through.\<close>

definition catch_closed_op :: "('s, 'a) op \<Rightarrow> ('s, 'a) op \<Rightarrow> ('s, 'a) op" where
  "catch_closed_op m h = (\<lambda>s. case m s of
       Throw Queue_closed s' \<Rightarrow> h s'
     | r \<Rightarrow> r)"

text \<open>
  \<^verbatim>\<open>while (busy) { cv.wait(lock); chk(); }\<close>: the thread is resumed after each schedule
  entry, runs the check (which may throw), and tests the condition again.
\<close>

fun await_loop :: "('s \<Rightarrow> bool) \<Rightarrow> ('s \<Rightarrow> exn option) \<Rightarrow> 's \<Rightarrow> 's sched \<Rightarrow> (unit, 's \<times> 's sched) outcome" where
  "await_loop busy chk s [] = (if busy s then Blocked (s, []) else Ret () (s, []))"
| "await_loop busy chk s (e # es) =
     (if busy s
      then (case chk (e s) of
              Some x \<Rightarrow> Throw x (e s, es)
            | None \<Rightarrow> await_loop busy chk (e s) es)
      else Ret () (s, e # es))"

definition await_op :: "('s \<Rightarrow> bool) \<Rightarrow> ('s \<Rightarrow> exn option) \<Rightarrow> ('s, unit) op" where
  "await_op busy chk = (\<lambda>(s, es). await_loop busy chk s es)"

named_theorems op_simps \<open>unfolding the operations of a component\<close>

lemmas op_basic_defs =
  ret_op_def bind_op_def then_op_def gets_op_def modify_op_def throw_op_def fail_op_def
  assert_op_def

lemma ret_op_app [simp]: "ret_op a s = Ret a s"
  by (simp add: ret_op_def)

lemma gets_op_app [simp]: "gets_op f (s, es) = Ret (f s) (s, es)"
  by (simp add: gets_op_def)

lemma modify_op_app [simp]: "modify_op f (s, es) = Ret () (f s, es)"
  by (simp add: modify_op_def)

lemma throw_op_app [simp]: "throw_op x s = Throw x s"
  by (simp add: throw_op_def)

lemma fail_op_app [simp]: "fail_op e s = Fail e"
  by (simp add: fail_op_def)

lemma assert_op_app [simp]: "assert_op b s = (if b then Ret () s else Fail Assert_failed)"
  by (simp add: assert_op_def)

lemma bind_op_app:
  "bind_op m f s = (case m s of
       Ret a s' \<Rightarrow> f a s' | Throw x s' \<Rightarrow> Throw x s' | Blocked s' \<Rightarrow> Blocked s' | Fail e \<Rightarrow> Fail e)"
  by (simp add: bind_op_def)

lemma bind_op_Ret [simp]: "m s = Ret a s' \<Longrightarrow> bind_op m f s = f a s'"
  by (simp add: bind_op_def)

lemma bind_op_Throw [simp]: "m s = Throw x s' \<Longrightarrow> bind_op m f s = Throw x s'"
  by (simp add: bind_op_def)

lemma bind_op_Blocked [simp]: "m s = Blocked s' \<Longrightarrow> bind_op m f s = Blocked s'"
  by (simp add: bind_op_def)

lemma bind_op_Fail [simp]: "m s = Fail e \<Longrightarrow> bind_op m f s = Fail e"
  by (simp add: bind_op_def)

lemma then_op_app [simp]: "then_op m n s = bind_op m (\<lambda>_. n) s"
  by (simp add: then_op_def)

lemma bind_op_eq_Ret:
  "bind_op m f s = Ret b s' \<longleftrightarrow> (\<exists>a t. m s = Ret a t \<and> f a t = Ret b s')"
  by (auto simp: bind_op_def split: outcome.splits)

lemma bind_op_assoc: "bind_op (bind_op m f) g = bind_op m (\<lambda>a. bind_op (f a) g)"
  by (rule ext) (auto simp: bind_op_def split: outcome.splits)

lemma await_op_ready: "\<not> busy s \<Longrightarrow> await_op busy chk (s, es) = Ret () (s, es)"
  by (cases es) (simp_all add: await_op_def)

lemma await_op_stuck: "busy s \<Longrightarrow> await_op busy chk (s, []) = Blocked (s, [])"
  by (simp add: await_op_def)

text \<open>What a wait that ended tells: the condition is false, and the state is the result of the
  environment's steps.\<close>

lemma await_loop_Ret:
  "await_loop busy chk s es = Ret u (s', es') \<Longrightarrow>
     \<not> busy s' \<and> (\<exists>done. es = done @ es' \<and> s' = fold (\<lambda>e t. e t) done s)"
proof (induction busy chk s es rule: await_loop.induct)
  case (1 busy chk s)
  then show ?case by (auto split: if_splits)
next
  case (2 busy chk s e es)
  show ?case
  proof (cases "busy s")
    case True
    with "2.prems" have n: "chk (e s) = None" and r: "await_loop busy chk (e s) es = Ret u (s', es')"
      by (auto split: option.splits)
    from "2.IH" [OF True n r] obtain ds where
      "\<not> busy s'" "es = ds @ es'" "s' = fold (\<lambda>e t. e t) ds (e s)" by blast
    then show ?thesis by (intro conjI exI [of _ "e # ds"]) auto
  next
    case False
    with "2.prems" show ?thesis by auto
  qed
qed

section \<open>Invariants of operations\<close>

text \<open>
  \<open>keeps_res I m Q\<close>: from a state with \<open>I\<close>, when every entry of the schedule keeps \<open>I\<close>, the state in
  which the operation returns, throws or blocks has \<open>I\<close>, the rest of the schedule still keeps it,
  and a result that it returns has \<open>Q\<close>. Nothing is said about a fault or a failed allocation.
\<close>

definition rely :: "('s \<Rightarrow> bool) \<Rightarrow> 's sched \<Rightarrow> bool" where
  "rely I es \<longleftrightarrow> (\<forall>e \<in> set es. \<forall>s. I s \<longrightarrow> I (e s))"

lemma rely_simps [simp]:
  "rely I []"
  "rely I (e # es) \<longleftrightarrow> (\<forall>s. I s \<longrightarrow> I (e s)) \<and> rely I es"
  by (auto simp: rely_def)

definition good_end :: "('s \<Rightarrow> bool) \<Rightarrow> ('a \<Rightarrow> bool) \<Rightarrow> ('a, 's \<times> 's sched) outcome \<Rightarrow> bool" where
  "good_end I Q r \<longleftrightarrow> (case r of
      Ret a (s, es) \<Rightarrow> Q a \<and> I s \<and> rely I es
    | Throw x (s, es) \<Rightarrow> x = Bad_alloc \<or> I s \<and> rely I es
    | Blocked (s, es) \<Rightarrow> I s
    | Fail _ \<Rightarrow> True)"

lemma good_end_simps [simp]:
  "good_end I Q (Ret a (s, es)) \<longleftrightarrow> Q a \<and> I s \<and> rely I es"
  "good_end I Q (Throw x (s, es)) \<longleftrightarrow> x = Bad_alloc \<or> I s \<and> rely I es"
  "good_end I Q (Blocked (s, es)) \<longleftrightarrow> I s"
  "good_end I Q (Fail e)"
  by (simp_all add: good_end_def)

definition keeps_res :: "('s \<Rightarrow> bool) \<Rightarrow> ('s, 'a) op \<Rightarrow> ('a \<Rightarrow> bool) \<Rightarrow> bool" where
  "keeps_res I m Q \<longleftrightarrow> (\<forall>s es. I s \<longrightarrow> rely I es \<longrightarrow> good_end I Q (m (s, es)))"

definition keeps :: "('s \<Rightarrow> bool) \<Rightarrow> ('s, 'a) op \<Rightarrow> bool" where
  "keeps I m \<longleftrightarrow> keeps_res I m (\<lambda>_. True)"

named_theorems keeps_rules \<open>which operations keep an invariant\<close>

lemma keeps_resI: "(\<And>s es. I s \<Longrightarrow> rely I es \<Longrightarrow> good_end I Q (m (s, es))) \<Longrightarrow> keeps_res I m Q"
  by (simp add: keeps_res_def)

lemma keepsI: "(\<And>s es. I s \<Longrightarrow> rely I es \<Longrightarrow> good_end I (\<lambda>_. True) (m (s, es))) \<Longrightarrow> keeps I m"
  by (simp add: keeps_def keeps_resI)

lemma keepsD: "keeps I m \<Longrightarrow> I s \<Longrightarrow> rely I es \<Longrightarrow> good_end I (\<lambda>_. True) (m (s, es))"
  by (simp add: keeps_def keeps_res_def)

lemma keeps_resD: "keeps_res I m Q \<Longrightarrow> I s \<Longrightarrow> rely I es \<Longrightarrow> good_end I Q (m (s, es))"
  by (simp add: keeps_res_def)

lemma keeps_bind_res:
  assumes "keeps_res I m Q'" and "\<And>a. Q' a \<Longrightarrow> keeps_res I (f a) Q"
  shows "keeps_res I (bind_op m f) Q"
proof (rule keeps_resI)
  fix s es assume "I s" "rely I es"
  note m = keeps_resD [OF assms(1) this]
  show "good_end I Q (bind_op m f (s, es))"
  proof (cases "m (s, es)")
    case (Ret a t)
    obtain t1 t2 where "t = (t1, t2)" by (cases t)
    with m Ret have "Q' a" "I t1" "rely I t2" by simp_all
    with assms(2) Ret \<open>t = _\<close> show ?thesis by (simp add: keeps_resD)
  qed (use m in \<open>auto simp: good_end_def split: outcome.splits\<close>)
qed

lemma keeps_bind [keeps_rules]: "keeps I m \<Longrightarrow> (\<And>a. keeps I (f a)) \<Longrightarrow> keeps I (bind_op m f)"
  unfolding keeps_def by (rule keeps_bind_res)

lemma keeps_then [keeps_rules]: "keeps I m \<Longrightarrow> keeps I n \<Longrightarrow> keeps I (then_op m n)"
  unfolding then_op_def by (rule keeps_bind)

lemma keeps_basic [keeps_rules]:
  "keeps I (ret_op a)" "keeps I (gets_op f)" "keeps I (throw_op x)" "keeps I (fail_op e)" "keeps I (assert_op b)"
  by (auto intro!: keepsI)

lemma keeps_modify: "(\<And>s. I s \<Longrightarrow> I (f s)) \<Longrightarrow> keeps I (modify_op f)"
  by (auto intro!: keepsI)

lemma keeps_if [keeps_rules]: "(b \<Longrightarrow> keeps I m) \<Longrightarrow> (\<not> b \<Longrightarrow> keeps I n) \<Longrightarrow> keeps I (if b then m else n)"
  by simp

lemma keeps_case_option [keeps_rules]:
  "(x = None \<Longrightarrow> keeps I m) \<Longrightarrow> (\<And>a. x = Some a \<Longrightarrow> keeps I (f a)) \<Longrightarrow> keeps I (case x of None \<Rightarrow> m | Some a \<Rightarrow> f a)"
  by (cases x) auto

lemma keeps_case_prod [keeps_rules]:
  "(\<And>a b. x = (a, b) \<Longrightarrow> keeps I (f a b)) \<Longrightarrow> keeps I (case x of (a, b) \<Rightarrow> f a b)"
  by (cases x) auto

lemma keeps_catch [keeps_rules]:
  assumes "keeps I m" and "keeps I h"
  shows "keeps I (catch_closed_op m h)"
proof (rule keepsI)
  fix s es assume i: "I s" "rely I es"
  note m = keepsD [OF assms(1) i]
  show "good_end I (\<lambda>_. True) (catch_closed_op m h (s, es))"
  proof (cases "m (s, es)")
    case (Throw x t)
    obtain t1 t2 where t: "t = (t1, t2)" by (cases t)
    show ?thesis
    proof (cases x)
      case Queue_closed
      with m Throw t have "I t1" "rely I t2" by simp_all
      with keepsD [OF assms(2)] Throw t Queue_closed show ?thesis by (simp add: catch_closed_op_def)
    next
      case Bad_alloc
      with Throw t show ?thesis by (simp add: catch_closed_op_def)
    qed
  qed (use m in \<open>simp_all add: catch_closed_op_def\<close>)
qed

text \<open>What holds when a wait ends.\<close>

definition await_end :: "('s \<Rightarrow> bool) \<Rightarrow> ('s \<Rightarrow> bool) \<Rightarrow> (unit, 's \<times> 's sched) outcome \<Rightarrow> bool" where
  "await_end I busy r \<longleftrightarrow> (case r of
      Ret _ (s, es) \<Rightarrow> \<not> busy s \<and> I s \<and> rely I es
    | Throw _ (s, es) \<Rightarrow> I s \<and> rely I es
    | Blocked (s, _) \<Rightarrow> I s
    | Fail _ \<Rightarrow> False)"

lemma await_keeps: "I s \<Longrightarrow> rely I es \<Longrightarrow> await_end I busy (await_op busy chk (s, es))"
  unfolding await_op_def prod.case
  by (induction busy chk s es rule: await_loop.induct) (auto simp: await_end_def split: option.splits)

lemma keeps_await [keeps_rules]: "keeps I (await_op busy chk)"
proof (rule keepsI)
  fix s es assume "I s" "rely I es"
  from await_keeps [OF this, of busy chk] show "good_end I (\<lambda>_. True) (await_op busy chk (s, es))"
    by (auto simp: await_end_def good_end_def split: outcome.splits)
qed

section \<open>Transition systems\<close>

text \<open>The reachable states of a step relation, and the contract of an inductive invariant: what
  holds initially and is kept by every step holds in every reachable state.\<close>

inductive reach :: "('s \<Rightarrow> bool) \<Rightarrow> ('s \<Rightarrow> 's \<Rightarrow> bool) \<Rightarrow> 's \<Rightarrow> bool" for init step where
  reach_init: "init s \<Longrightarrow> reach init step s"
| reach_step: "reach init step s \<Longrightarrow> step s t \<Longrightarrow> reach init step t"

locale inductive_invariant =
  fixes init :: "'s \<Rightarrow> bool" and step :: "'s \<Rightarrow> 's \<Rightarrow> bool" and inv :: "'s \<Rightarrow> bool"
  assumes inv_init: "init s \<Longrightarrow> inv s"
    and inv_step: "inv s \<Longrightarrow> step s t \<Longrightarrow> inv t"
begin

lemma reach_inv: "reach init step s \<Longrightarrow> inv s"
  by (induction rule: reach.induct) (auto intro: inv_init inv_step)

end

section \<open>Character arrays\<close>

text \<open>
  A \<^verbatim>\<open>char[n]\<close> member is a list of \<open>n\<close> characters that includes whatever the memory held
  before it was written. A C string argument is the list of its characters before the
  terminator. \<open>cstr\<close> reads an array as the C library does, up to the first NUL; a read that
  finds none runs past the array, which is \<open>None\<close>.
\<close>

definition NUL :: char where
  "NUL = CHR 0x00"

definition strncpy :: "char list \<Rightarrow> string \<Rightarrow> nat \<Rightarrow> char list" where
  "strncpy dst src n = take n (src @ replicate n NUL) @ drop n dst"

definition cstr :: "char list \<Rightarrow> string option" where
  "cstr buf = (if NUL \<in> set buf then Some (takeWhile (\<lambda>c. c \<noteq> NUL) buf) else None)"

definition is_cstring :: "string \<Rightarrow> bool" where
  "is_cstring s \<longleftrightarrow> NUL \<notin> set s"

lemma length_strncpy [simp]: "n \<le> length dst \<Longrightarrow> length (strncpy dst src n) = length dst"
  by (simp add: strncpy_def)

lemma strncpy_tail: "n \<le> i \<Longrightarrow> strncpy dst src n ! i = dst ! i" if "i < length dst"
proof -
  assume "n \<le> i"
  moreover have "length (take n (src @ replicate n NUL)) = n" by simp
  ultimately show ?thesis
    using that unfolding strncpy_def by (simp only: nth_append) simp
qed

lemma takeWhile_no_NUL: "NUL \<notin> set s \<Longrightarrow> takeWhile (\<lambda>c. c \<noteq> NUL) (s @ NUL # t) = s"
  by (induction s) auto

lemma cstr_append_NUL: "is_cstring s \<Longrightarrow> cstr (s @ NUL # t) = Some s"
  by (simp add: cstr_def is_cstring_def takeWhile_no_NUL)

text \<open>A string that leaves room for a terminator inside the copied part reads back unchanged,
  whatever the array held.\<close>

lemma cstr_strncpy_short:
  assumes "is_cstring src" and "length src < n"
  shows "cstr (strncpy dst src n) = Some src"
proof -
  obtain k where k: "n = length src + Suc k"
    using assms(2) less_iff_Suc_add by auto
  have "strncpy dst src n = src @ NUL # (take k (replicate (length src + k) NUL) @ drop n dst)"
    by (simp add: strncpy_def k)
  with assms(1) show ?thesis by (simp add: cstr_append_NUL)
qed

text \<open>A string that fills the copied part is terminated only by what lies behind it.\<close>

lemma strncpy_long: "n \<le> length src \<Longrightarrow> strncpy dst src n = take n src @ drop n dst"
  by (simp add: strncpy_def)

lemma cstr_strncpy_long:
  assumes "is_cstring src" and "n \<le> length src" and "length dst = Suc n"
  shows "cstr (strncpy dst src n) = (if dst ! n = NUL then Some (take n src) else None)"
proof -
  have d: "drop n dst = [dst ! n]"
    using assms(3) by (simp add: Cons_nth_drop_Suc [symmetric])
  have t: "is_cstring (take n src)"
    using assms(1) by (auto simp: is_cstring_def dest: in_set_takeD)
  show ?thesis
  proof (cases "dst ! n = NUL")
    case True
    then show ?thesis
      using cstr_append_NUL [OF t, of "[]"] by (simp add: strncpy_long assms(2) d)
  next
    case False
    with t have "NUL \<notin> set (take n src @ [dst ! n])"
      by (auto simp: is_cstring_def)
    with False show ?thesis by (simp add: strncpy_long assms(2) d cstr_def)
  qed
qed

end
