(* ===== verification/Queue.thy ===== *)
theory Queue
  imports Raft_Prelude
begin

text \<open>
  The two queues of \<^verbatim>\<open>src/queue.h\<close>. \<open>abq\<close> is \<^verbatim>\<open>ArrayBlockingQueue\<close>, a ring buffer of a
  fixed capacity whose array index, head, tail and count are 32-bit words; \<open>deque\<close> is
  \<^verbatim>\<open>Deque\<close>, an unbounded queue that can be polled with a deadline and reset. The operations take a lens (a reader and an
  updater) because the program keeps its queues as members of larger objects; the queue on its
  own is the identity lens. A method body runs from its lock acquisition to its return without
  interference, except where it waits on a condition variable: there the schedule supplies
  what the other threads do. The interleavings that the mutex allows before the lock is taken
  are modelled in \<open>Queue_Threads\<close>. The locale \<open>blocking_queue\<close> is the contract both queues
  satisfy, with an abstract list as their contents.
\<close>

section \<open>ArrayBlockingQueue\<close>

record 'a abq =
  q_array :: "'a list"
  q_head :: u32
  q_tail :: u32
  q_count :: u32
  q_closed :: bool

text \<open>The defaulted constructor writes nothing: the members keep what the memory held. This is
  the queue in zero-filled memory, with \<open>z\<close> the value whose representation is all zeros.\<close>

definition abq_zeroed :: "u32 \<Rightarrow> 'a \<Rightarrow> 'a abq" where
  "abq_zeroed cap z = \<lparr>q_array = replicate (unat cap) z, q_head = 0, q_tail = 0, q_count = 0, q_closed = False\<rparr>"

text \<open>\<^verbatim>\<open>inc\<close> returns the old index and stores its successor.\<close>

definition abq_inc :: "u32 \<Rightarrow> u32 \<Rightarrow> u32 \<times> u32" where
  "abq_inc cap i = (i, if i = cap - 1 then 0 else i + 1)"

definition abq_check_closed :: "('s \<Rightarrow> 'a abq) \<Rightarrow> ('s, unit) op" where
  "abq_check_closed g = bind_op (gets_op (\<lambda>s. q_closed (g s)))
     (\<lambda>c. if c then throw_op Queue_closed else ret_op ())"

text \<open>The part of \<^verbatim>\<open>put\<close> and \<^verbatim>\<open>take\<close> that runs once the wait is over.\<close>

definition abq_insert :: "u32 \<Rightarrow> 'a \<Rightarrow> 'a abq \<Rightarrow> 'a abq" where
  "abq_insert cap v q = (let (i, h) = abq_inc cap (q_head q)
     in q\<lparr>q_array := (q_array q)[unat i := v], q_head := h, q_count := q_count q + 1\<rparr>)"

definition abq_remove :: "u32 \<Rightarrow> 'a abq \<Rightarrow> 'a abq" where
  "abq_remove cap q = (let (i, t) = abq_inc cap (q_tail q)
     in q\<lparr>q_tail := t, q_count := q_count q - 1\<rparr>)"

definition abq_front :: "'a abq \<Rightarrow> 'a" where
  "abq_front q = q_array q ! unat (q_tail q)"

definition abq_put :: "u32 \<Rightarrow> ('s \<Rightarrow> 'a abq) \<Rightarrow> (('a abq \<Rightarrow> 'a abq) \<Rightarrow> 's \<Rightarrow> 's) \<Rightarrow> 'a \<Rightarrow> ('s, unit) op" where
  "abq_put cap g u v =
     then_op (abq_check_closed g)
    (then_op (await_op (\<lambda>s. q_count (g s) = cap) (\<lambda>s. if q_closed (g s) then Some Queue_closed else None))
    (bind_op (gets_op g) (\<lambda>q.
       if unat (q_head q) < length (q_array q) then modify_op (u (abq_insert cap v))
       else fail_op Out_of_bounds)))"

definition abq_take :: "u32 \<Rightarrow> ('s \<Rightarrow> 'a abq) \<Rightarrow> (('a abq \<Rightarrow> 'a abq) \<Rightarrow> 's \<Rightarrow> 's) \<Rightarrow> ('s, 'a) op" where
  "abq_take cap g u =
     then_op (abq_check_closed g)
    (then_op (await_op (\<lambda>s. q_count (g s) = 0) (\<lambda>s. if q_closed (g s) then Some Queue_closed else None))
    (bind_op (gets_op g) (\<lambda>q.
       if unat (q_tail q) < length (q_array q)
       then then_op (modify_op (u (abq_remove cap))) (ret_op (abq_front q))
       else fail_op Out_of_bounds)))"

definition abq_close :: "(('a abq \<Rightarrow> 'a abq) \<Rightarrow> 's \<Rightarrow> 's) \<Rightarrow> ('s, unit) op" where
  "abq_close u = modify_op (u (q_closed_update (\<lambda>_. True)))"

section \<open>Deque\<close>

record 'a deque =
  d_items :: "'a list"
  d_closed :: bool

definition deque_new :: "'a deque" where
  "deque_new = \<lparr>d_items = [], d_closed = False\<rparr>"

definition deque_check_closed :: "('s \<Rightarrow> 'a deque) \<Rightarrow> ('s, unit) op" where
  "deque_check_closed g = bind_op (gets_op (\<lambda>s. d_closed (g s)))
     (\<lambda>c. if c then throw_op Queue_closed else ret_op ())"

definition deque_push :: "'a \<Rightarrow> 'a deque \<Rightarrow> 'a deque" where
  "deque_push v d = d\<lparr>d_items := d_items d @ [v]\<rparr>"

definition deque_pop :: "'a deque \<Rightarrow> 'a deque" where
  "deque_pop d = d\<lparr>d_items := tl (d_items d)\<rparr>"

definition deque_put :: "('s \<Rightarrow> 'a deque) \<Rightarrow> (('a deque \<Rightarrow> 'a deque) \<Rightarrow> 's \<Rightarrow> 's) \<Rightarrow> 'a \<Rightarrow> ('s, unit) op" where
  "deque_put g u v = then_op (deque_check_closed g) (modify_op (u (deque_push v)))"

text \<open>\<^verbatim>\<open>emplace\<close> builds the element from its arguments inside the queue; \<open>mk\<close> is the
  constructor applied to them.\<close>

definition deque_emplace ::
  "('s \<Rightarrow> 'a deque) \<Rightarrow> (('a deque \<Rightarrow> 'a deque) \<Rightarrow> 's \<Rightarrow> 's) \<Rightarrow> ('b \<Rightarrow> 'a) \<Rightarrow> 'b \<Rightarrow> ('s, unit) op" where
  "deque_emplace g u mk args = then_op (deque_check_closed g) (modify_op (u (deque_push (mk args))))"

definition deque_pop_front :: "('s \<Rightarrow> 'a deque) \<Rightarrow> (('a deque \<Rightarrow> 'a deque) \<Rightarrow> 's \<Rightarrow> 's) \<Rightarrow> ('s, 'a) op" where
  "deque_pop_front g u = bind_op (gets_op g) (\<lambda>d.
     then_op (modify_op (u deque_pop)) (ret_op (hd (d_items d))))"

definition deque_take :: "('s \<Rightarrow> 'a deque) \<Rightarrow> (('a deque \<Rightarrow> 'a deque) \<Rightarrow> 's \<Rightarrow> 's) \<Rightarrow> ('s, 'a) op" where
  "deque_take g u =
     then_op (deque_check_closed g)
    (then_op (await_op (\<lambda>s. d_items (g s) = []) (\<lambda>s. if d_closed (g s) then Some Queue_closed else None))
     (deque_pop_front g u))"

text \<open>
  \<^verbatim>\<open>poll_until\<close>: \<open>locked\<close> says whether the timed mutex was acquired before \<open>end_time\<close>;
  \<open>clk\<close> reads the clock, and a wait that is resumed at or after \<open>end_time\<close> reports a timeout
  before it looks at the queue. The value that comes with \<^verbatim>\<open>false\<close> is \<^verbatim>\<open>T()\<close>, here \<open>dflt\<close>.
\<close>

fun deque_poll_loop :: "('s \<Rightarrow> int) \<Rightarrow> int \<Rightarrow> 'a \<Rightarrow> ('s \<Rightarrow> 'a deque) \<Rightarrow> (('a deque \<Rightarrow> 'a deque) \<Rightarrow> 's \<Rightarrow> 's) \<Rightarrow>
    's \<Rightarrow> 's sched \<Rightarrow> (bool \<times> 'a, 's \<times> 's sched) outcome" where
  "deque_poll_loop clk end_time dflt g u s [] =
     (if d_items (g s) = [] then Blocked (s, [])
      else Ret (True, hd (d_items (g s))) (u deque_pop s, []))"
| "deque_poll_loop clk end_time dflt g u s (e # es) =
     (if d_items (g s) = []
      then (if end_time \<le> clk (e s) then Ret (False, dflt) (e s, es)
            else if d_closed (g (e s)) then Throw Queue_closed (e s, es)
            else deque_poll_loop clk end_time dflt g u (e s) es)
      else Ret (True, hd (d_items (g s))) (u deque_pop s, e # es))"

definition deque_poll_until :: "bool \<Rightarrow> ('s \<Rightarrow> int) \<Rightarrow> int \<Rightarrow> 'a \<Rightarrow> ('s \<Rightarrow> 'a deque) \<Rightarrow>
    (('a deque \<Rightarrow> 'a deque) \<Rightarrow> 's \<Rightarrow> 's) \<Rightarrow> ('s, bool \<times> 'a) op" where
  "deque_poll_until locked clk end_time dflt g u =
     (if locked
      then then_op (deque_check_closed g) (\<lambda>(s, es). deque_poll_loop clk end_time dflt g u s es)
      else ret_op (False, dflt))"

definition deque_close :: "(('a deque \<Rightarrow> 'a deque) \<Rightarrow> 's \<Rightarrow> 's) \<Rightarrow> ('s, unit) op" where
  "deque_close u = modify_op (u (d_closed_update (\<lambda>_. True)))"

definition deque_reset :: "(('a deque \<Rightarrow> 'a deque) \<Rightarrow> 's \<Rightarrow> 's) \<Rightarrow> ('s, unit) op" where
  "deque_reset u = modify_op (u (\<lambda>d. d\<lparr>d_closed := False, d_items := []\<rparr>))"

section \<open>The ring buffer as a list\<close>

definition abq_wf :: "u32 \<Rightarrow> 'a abq \<Rightarrow> bool" where
  "abq_wf cap q \<longleftrightarrow> 0 < unat cap \<and> length (q_array q) = unat cap \<and>
     unat (q_tail q) < unat cap \<and> unat (q_count q) \<le> unat cap \<and>
     unat (q_head q) = (unat (q_tail q) + unat (q_count q)) mod unat cap"

definition abq_list :: "'a abq \<Rightarrow> 'a list" where
  "abq_list q = map (\<lambda>i. q_array q ! ((unat (q_tail q) + i) mod length (q_array q))) [0..<unat (q_count q)]"

lemma length_abq_list [simp]: "length (abq_list q) = unat (q_count q)"
  by (simp add: abq_list_def)

lemma abq_list_Nil_iff: "abq_list q = [] \<longleftrightarrow> q_count q = 0"
  by (simp add: abq_list_def unat_eq_0)

lemma unat_plus_one:
  assumes "unat (x :: 'a::len word) < unat (y :: 'a word)"
  shows "unat (x + 1) = unat x + 1"
proof -
  have "unat x + 1 < 2 ^ LENGTH('a)"
    using assms unsigned_less [of y] by (metis Suc_eq_plus1 Suc_leI le_less_trans)
  then show ?thesis using unat_add_lem [of x 1] by simp
qed

lemma unat_abq_inc:
  assumes "unat i < unat cap"
  shows "unat (snd (abq_inc cap i)) = (unat i + 1) mod unat cap"
proof -
  have "cap \<noteq> 0" using assms by auto
  then have c: "unat (cap - 1) = unat cap - 1" by (rule unat_minus_one)
  show ?thesis
  proof (cases "i = cap - 1")
    case True
    with c assms show ?thesis by (simp add: abq_inc_def)
  next
    case False
    then have "unat i \<noteq> unat cap - 1" using c by (metis word_unat_eq_iff)
    with assms have "unat i + 1 < unat cap" by simp
    with False show ?thesis using unat_plus_one [OF assms] by (simp add: abq_inc_def)
  qed
qed

lemma abq_wf_head: "abq_wf cap q \<Longrightarrow> unat (q_head q) < length (q_array q)"
  by (simp add: abq_wf_def)

lemma abq_zeroed_wf: "0 < cap \<Longrightarrow> abq_wf cap (abq_zeroed cap z) \<and> abq_list (abq_zeroed cap z) = []"
  by (simp add: abq_wf_def abq_zeroed_def abq_list_def word_less_nat_alt)

lemma ring_index_neq:
  "(i::nat) < c \<Longrightarrow> c < n \<Longrightarrow> (t + i) mod n \<noteq> (t + c) mod n"
proof
  assume "i < c" "c < n" "(t + i) mod n = (t + c) mod n"
  then have "n dvd (t + c) - (t + i)"
    by (metis mod_eq_dvd_iff_nat add_le_cancel_left less_imp_le_nat)
  with \<open>i < c\<close> \<open>c < n\<close> show False by (auto dest: dvd_imp_le)
qed

lemma abq_insert_wf:
  assumes wf: "abq_wf cap q" and room: "q_count q \<noteq> cap"
  shows "abq_wf cap (abq_insert cap v q)" and "abq_list (abq_insert cap v q) = abq_list q @ [v]"
proof -
  let ?n = "unat cap" and ?t = "unat (q_tail q)" and ?c = "unat (q_count q)"
  from wf room have c: "?c < ?n"
    by (metis abq_wf_def le_neq_implies_less word_unat_eq_iff)
  from wf have h: "unat (q_head q) < ?n" and hd: "unat (q_head q) = (?t + ?c) mod ?n"
    and len: "length (q_array q) = ?n"
    by (auto simp: abq_wf_def)
  have c': "unat (q_count q + 1) = ?c + 1" by (rule unat_plus_one [OF c])
  have h': "unat (snd (abq_inc cap (q_head q))) = (?t + (?c + 1)) mod ?n"
    using unat_abq_inc [OF h] hd by (simp add: mod_Suc_eq)
  show "abq_wf cap (abq_insert cap v q)"
    using wf c h' c' by (simp add: abq_wf_def abq_insert_def Let_def split_beta)
  have "(q_array q)[(?t + ?c) mod ?n := v] ! ((?t + i) mod ?n) = q_array q ! ((?t + i) mod ?n)"
    if "i < ?c" for i
    using ring_index_neq [OF that c, of ?t] by (simp add: nth_list_update_neq)
  then have "map (\<lambda>i. (q_array q)[(?t + ?c) mod ?n := v] ! ((?t + i) mod ?n)) [0..<?c]
      = map (\<lambda>i. q_array q ! ((?t + i) mod ?n)) [0..<?c]"
    by simp
  then show "abq_list (abq_insert cap v q) = abq_list q @ [v]"
    using h len c' by (simp add: abq_list_def abq_insert_def Let_def split_beta abq_inc_def hd)
qed

lemma abq_remove_wf:
  assumes wf: "abq_wf cap q" and ne: "q_count q \<noteq> 0"
  shows "abq_wf cap (abq_remove cap q)" and "abq_list q = abq_front q # abq_list (abq_remove cap q)"
proof -
  let ?n = "unat cap" and ?t = "unat (q_tail q)" and ?c = "unat (q_count q)"
  from wf have t: "?t < ?n" and len: "length (q_array q) = ?n" and c: "?c \<le> ?n"
    and hd: "unat (q_head q) = (?t + ?c) mod ?n"
    by (auto simp: abq_wf_def)
  from ne have c0: "0 < ?c" by (simp add: unat_gt_0)
  have c': "unat (q_count q - 1) = ?c - 1" by (rule unat_minus_one [OF ne])
  have t': "unat (snd (abq_inc cap (q_tail q))) = (?t + 1) mod ?n" by (rule unat_abq_inc [OF t])
  have sh: "(Suc ?t mod ?n + i) mod ?n = Suc (?t + i) mod ?n" for i
    by (metis add_Suc mod_add_left_eq)
  show "abq_wf cap (abq_remove cap q)"
    using wf c0 c c' t' sh [of "?c - 1"] by (simp add: abq_wf_def abq_remove_def Let_def split_beta)
  have "[0..<?c] = 0 # map Suc [0..<?c - 1]"
    using c0 by (simp add: map_Suc_upt upt_conv_Cons)
  then show "abq_list q = abq_front q # abq_list (abq_remove cap q)"
    using t len by (simp add: abq_list_def abq_remove_def abq_front_def Let_def split_beta c' t' sh comp_def)
qed

section \<open>Queues inside larger states\<close>

text \<open>The operations on a queue keep an invariant of the state it is a member of, if the invariant
  includes the queue's own and does not depend on its contents.\<close>

lemma keeps_abq_put:
  assumes wf: "\<And>s. I s \<Longrightarrow> abq_wf cap (g s)" and upd: "\<And>s f. I s \<Longrightarrow> abq_wf cap (f (g s)) \<Longrightarrow> I (u f s)"
  shows "keeps I (abq_put cap g u v)"
proof (rule keepsI)
  fix s es assume i: "I s" "rely I es"
  let ?aw = "await_op (\<lambda>s. q_count (g s) = cap) (\<lambda>s. if q_closed (g s) then Some Queue_closed else None) (s, es)"
  note aw = await_keeps [OF i, of "\<lambda>s. q_count (g s) = cap" "\<lambda>s. if q_closed (g s) then Some Queue_closed else None"]
  show "good_end I (\<lambda>_. True) (abq_put cap g u v (s, es))"
  proof (cases "q_closed (g s)")
    case True
    with i show ?thesis by (simp add: abq_put_def abq_check_closed_def)
  next
    case False
    show ?thesis
    proof (cases ?aw)
      case (Ret a t)
      obtain t1 t2 where t: "t = (t1, t2)" by (cases t)
      with Ret aw have n: "q_count (g t1) \<noteq> cap" "I t1" "rely I t2" by (simp_all add: await_end_def)
      with upd [of t1 "abq_insert cap v"] abq_insert_wf(1) [OF wf [OF n(2)] n(1), of v] False Ret t show ?thesis
        by (simp add: abq_put_def abq_check_closed_def)
    qed (use False aw in \<open>auto simp: abq_put_def abq_check_closed_def await_end_def\<close>)
  qed
qed

lemma keeps_abq_take:
  assumes wf: "\<And>s. I s \<Longrightarrow> abq_wf cap (g s)" and upd: "\<And>s f. I s \<Longrightarrow> abq_wf cap (f (g s)) \<Longrightarrow> I (u f s)"
  shows "keeps I (abq_take cap g u)"
proof (rule keepsI)
  fix s es assume i: "I s" "rely I es"
  let ?aw = "await_op (\<lambda>s. q_count (g s) = 0) (\<lambda>s. if q_closed (g s) then Some Queue_closed else None) (s, es)"
  note aw = await_keeps [OF i, of "\<lambda>s. q_count (g s) = 0" "\<lambda>s. if q_closed (g s) then Some Queue_closed else None"]
  show "good_end I (\<lambda>_. True) (abq_take cap g u (s, es))"
  proof (cases "q_closed (g s)")
    case True
    with i show ?thesis by (simp add: abq_take_def abq_check_closed_def)
  next
    case False
    show ?thesis
    proof (cases ?aw)
      case (Ret a t)
      obtain t1 t2 where t: "t = (t1, t2)" by (cases t)
      with Ret aw have n: "q_count (g t1) \<noteq> 0" "I t1" "rely I t2" by (simp_all add: await_end_def)
      with upd [of t1 "abq_remove cap"] abq_remove_wf(1) [OF wf [OF n(2)] n(1)] False Ret t show ?thesis
        by (simp add: abq_take_def abq_check_closed_def)
    qed (use False aw in \<open>auto simp: abq_take_def abq_check_closed_def await_end_def\<close>)
  qed
qed

lemma keeps_abq_close:
  assumes wf: "\<And>s. I s \<Longrightarrow> abq_wf cap (g s)" and upd: "\<And>s f. I s \<Longrightarrow> abq_wf cap (f (g s)) \<Longrightarrow> I (u f s)"
  shows "keeps I (abq_close u)"
proof -
  have "abq_wf cap q \<Longrightarrow> abq_wf cap (q_closed_update (\<lambda>_. True) q)" for q :: "'b abq"
    by (simp add: abq_wf_def)
  with wf show ?thesis
    unfolding abq_close_def by (intro keeps_modify upd) auto
qed

lemma keeps_deque:
  assumes upd: "\<And>s f. I s \<Longrightarrow> I (u f s)"
  shows "keeps I (deque_put g u v)" and "keeps I (deque_emplace g u mk args)" and "keeps I (deque_take g u)"
    and "keeps I (deque_close u)" and "keeps I (deque_reset u)" and "keeps I (deque_poll_until locked clk end_time dflt g u)"
proof -
  have c: "keeps I (deque_check_closed g)" unfolding deque_check_closed_def by (intro keeps_rules)
  have m: "keeps I (modify_op (u f))" for f by (intro keeps_modify upd)
  show "keeps I (deque_put g u v)" "keeps I (deque_emplace g u mk args)" "keeps I (deque_close u)" "keeps I (deque_reset u)"
    unfolding deque_put_def deque_emplace_def deque_close_def deque_reset_def by (intro keeps_rules c m)+
  show "keeps I (deque_take g u)"
    unfolding deque_take_def deque_pop_front_def by (intro keeps_rules c m)
  have "good_end I (\<lambda>_. True) (deque_poll_loop clk end_time dflt g u s es)" if "I s" "rely I es" for s es
    using that by (induction es arbitrary: s) (auto simp: upd)
  then have "keeps I (\<lambda>(s, es). deque_poll_loop clk end_time dflt g u s es)" by (intro keepsI) simp
  then show "keeps I (deque_poll_until locked clk end_time dflt g u)"
    unfolding deque_poll_until_def by (intro keeps_rules c)
qed

section \<open>What a queue promises\<close>

text \<open>
  The contract of a blocking queue, with \<open>contents\<close> the abstract list: an open queue with room
  appends, an open non-empty queue gives its oldest element, a full or empty queue blocks a
  thread that nobody resumes, and a closed queue refuses both operations and keeps its state.
\<close>

locale blocking_queue =
  fixes inv :: "'q \<Rightarrow> bool"
    and contents :: "'q \<Rightarrow> 'a list"
    and room :: "'q \<Rightarrow> bool"
    and shut :: "'q \<Rightarrow> bool"
    and qput :: "'a \<Rightarrow> ('q, unit) op"
    and qtake :: "('q, 'a) op"
    and qclose :: "('q, unit) op"
  assumes put_open: "inv q \<Longrightarrow> \<not> shut q \<Longrightarrow> room q \<Longrightarrow>
      \<exists>q'. qput v (q, es) = Ret () (q', es) \<and> inv q' \<and> \<not> shut q' \<and> contents q' = contents q @ [v]"
    and put_full: "inv q \<Longrightarrow> \<not> shut q \<Longrightarrow> \<not> room q \<Longrightarrow> qput v (q, []) = Blocked (q, [])"
    and put_shut: "shut q \<Longrightarrow> qput v (q, es) = Throw Queue_closed (q, es)"
    and take_open: "inv q \<Longrightarrow> \<not> shut q \<Longrightarrow> contents q = x # xs \<Longrightarrow>
      \<exists>q'. qtake (q, es) = Ret x (q', es) \<and> inv q' \<and> \<not> shut q' \<and> contents q' = xs"
    and take_empty: "inv q \<Longrightarrow> \<not> shut q \<Longrightarrow> contents q = [] \<Longrightarrow> qtake (q, []) = Blocked (q, [])"
    and take_shut: "shut q \<Longrightarrow> qtake (q, es) = Throw Queue_closed (q, es)"
    and close_shut: "\<exists>q'. qclose (q, es) = Ret () (q', es) \<and> shut q' \<and> contents q' = contents q \<and> (inv q \<longrightarrow> inv q')"

text \<open>A program over a queue: each step is one call, and its effect is what the call returned.
  A call that blocks or throws changes nothing.\<close>

datatype 'a qcall = Call_put 'a | Call_take | Call_close

datatype 'a qevent = Was_put 'a | Was_taken 'a | Refused | Waiting | Was_closed

fun qcall_step :: "('a \<Rightarrow> ('q, unit) op) \<Rightarrow> ('q, 'a) op \<Rightarrow> ('q, unit) op \<Rightarrow> 'a qcall \<Rightarrow> 'q \<Rightarrow> ('a qevent \<times> 'q) option" where
  "qcall_step pt tk cl (Call_put v) q = (case pt v (q, []) of
      Ret _ (q', _) \<Rightarrow> Some (Was_put v, q') | Throw _ (q', _) \<Rightarrow> Some (Refused, q')
    | Blocked (q', _) \<Rightarrow> Some (Waiting, q') | Fail _ \<Rightarrow> None)"
| "qcall_step pt tk cl Call_take q = (case tk (q, []) of
      Ret x (q', _) \<Rightarrow> Some (Was_taken x, q') | Throw _ (q', _) \<Rightarrow> Some (Refused, q')
    | Blocked (q', _) \<Rightarrow> Some (Waiting, q') | Fail _ \<Rightarrow> None)"
| "qcall_step pt tk cl Call_close q = (case cl (q, []) of
      Ret _ (q', _) \<Rightarrow> Some (Was_closed, q') | Throw _ (q', _) \<Rightarrow> Some (Refused, q')
    | Blocked (q', _) \<Rightarrow> Some (Waiting, q') | Fail _ \<Rightarrow> None)"

fun qcall_run :: "('a \<Rightarrow> ('q, unit) op) \<Rightarrow> ('q, 'a) op \<Rightarrow> ('q, unit) op \<Rightarrow> 'a qcall list \<Rightarrow> 'q \<Rightarrow> ('a qevent list \<times> 'q) option" where
  "qcall_run pt tk cl [] q = Some ([], q)"
| "qcall_run pt tk cl (c # cs) q = (case qcall_step pt tk cl c q of
      None \<Rightarrow> None
    | Some (e, q') \<Rightarrow> map_option (\<lambda>(es, q''). (e # es, q'')) (qcall_run pt tk cl cs q'))"

fun puts_of :: "'a qevent list \<Rightarrow> 'a list" where
  "puts_of [] = []"
| "puts_of (Was_put v # es) = v # puts_of es"
| "puts_of (e # es) = puts_of es"

fun takes_of :: "'a qevent list \<Rightarrow> 'a list" where
  "takes_of [] = []"
| "takes_of (Was_taken v # es) = v # takes_of es"
| "takes_of (e # es) = takes_of es"

context blocking_queue begin

lemma qcall_step_fifo:
  assumes "inv q"
  shows "\<exists>e q'. qcall_step qput qtake qclose c q = Some (e, q') \<and> inv q' \<and>
    contents q @ puts_of [e] = takes_of [e] @ contents q' \<and> (shut q \<longrightarrow> shut q')"
proof (cases c)
  case (Call_put v)
  consider "shut q" | "\<not> shut q" "room q" | "\<not> shut q" "\<not> room q" by blast
  then show ?thesis
  proof cases
    case 1
    with assms show ?thesis by (simp add: Call_put put_shut)
  next
    case 2
    with put_open [OF assms 2, of v "[]"] show ?thesis by (auto simp: Call_put)
  next
    case 3
    with assms show ?thesis by (simp add: Call_put put_full)
  qed
next
  case Call_take
  consider "shut q" | x xs where "\<not> shut q" "contents q = x # xs" | "\<not> shut q" "contents q = []"
    by (cases "contents q") auto
  then show ?thesis
  proof cases
    case 1
    with assms show ?thesis by (simp add: Call_take take_shut)
  next
    case (2 x xs)
    with take_open [OF assms this, of "[]"] show ?thesis by (auto simp: Call_take)
  next
    case 3
    with assms show ?thesis by (simp add: Call_take take_empty)
  qed
next
  case Call_close
  with close_shut [of q "[]"] assms show ?thesis by auto
qed

lemma puts_of_Cons: "puts_of (e # es) = puts_of [e] @ puts_of es"
  by (cases e) auto

lemma takes_of_Cons: "takes_of (e # es) = takes_of [e] @ takes_of es"
  by (cases e) auto

lemma qcall_run_fifo:
  "inv q \<Longrightarrow> \<exists>es q'. qcall_run qput qtake qclose cs q = Some (es, q') \<and> inv q' \<and>
     contents q @ puts_of es = takes_of es @ contents q' \<and> (shut q \<longrightarrow> shut q')"
proof (induction cs arbitrary: q)
  case Nil
  then show ?case by simp
next
  case (Cons c cs)
  from qcall_step_fifo [OF Cons.prems, of c] obtain e q1 where
    s: "qcall_step qput qtake qclose c q = Some (e, q1)" "inv q1"
       "contents q @ puts_of [e] = takes_of [e] @ contents q1" "shut q \<longrightarrow> shut q1" by blast
  from Cons.IH [OF s(2)] obtain es q2 where
    r: "qcall_run qput qtake qclose cs q1 = Some (es, q2)" "inv q2"
       "contents q1 @ puts_of es = takes_of es @ contents q2" "shut q1 \<longrightarrow> shut q2" by blast
  have "contents q @ puts_of (e # es) = takes_of (e # es) @ contents q2"
    using s(3) r(3) by (subst puts_of_Cons, subst takes_of_Cons) (metis append.assoc)
  with s r show ?case by simp
qed

end

abbreviation abq_id_put :: "u32 \<Rightarrow> 'a \<Rightarrow> ('a abq, unit) op" where
  "abq_id_put cap \<equiv> abq_put cap id id"

abbreviation abq_id_take :: "u32 \<Rightarrow> ('a abq, 'a) op" where
  "abq_id_take cap \<equiv> abq_take cap id id"

lemmas abq_op_defs = abq_put_def abq_take_def abq_close_def abq_check_closed_def

lemma abq_put_open:
  "abq_wf cap (g s) \<Longrightarrow> \<not> q_closed (g s) \<Longrightarrow> q_count (g s) \<noteq> cap \<Longrightarrow>
   abq_put cap g u v (s, es) = Ret () (u (abq_insert cap v) s, es)"
  by (simp add: abq_op_defs bind_op_app await_op_ready abq_wf_head)

lemma abq_put_shut: "q_closed (g s) \<Longrightarrow> abq_put cap g u v (s, es) = Throw Queue_closed (s, es)"
  by (simp add: abq_op_defs bind_op_app)

lemma abq_put_full:
  "\<not> q_closed (g s) \<Longrightarrow> q_count (g s) = cap \<Longrightarrow> abq_put cap g u v (s, []) = Blocked (s, [])"
  by (simp add: abq_op_defs bind_op_app await_op_stuck)

lemma abq_take_open:
  "abq_wf cap (g s) \<Longrightarrow> \<not> q_closed (g s) \<Longrightarrow> q_count (g s) \<noteq> 0 \<Longrightarrow>
   abq_take cap g u (s, es) = Ret (abq_front (g s)) (u (abq_remove cap) s, es)"
  by (simp add: abq_op_defs bind_op_app await_op_ready abq_wf_def)

lemma abq_take_shut: "q_closed (g s) \<Longrightarrow> abq_take cap g u (s, es) = Throw Queue_closed (s, es)"
  by (simp add: abq_op_defs bind_op_app)

lemma abq_take_empty:
  "\<not> q_closed (g s) \<Longrightarrow> q_count (g s) = 0 \<Longrightarrow> abq_take cap g u (s, []) = Blocked (s, [])"
  by (simp add: abq_op_defs bind_op_app await_op_stuck)

lemma abq_frame [simp]:
  "q_closed (abq_insert cap v q) = q_closed q"
  "q_closed (abq_remove cap q) = q_closed q"
  by (simp_all add: abq_insert_def abq_remove_def Let_def split_beta)

interpretation abq_fifo: blocking_queue "abq_wf cap" abq_list "\<lambda>q. q_count q \<noteq> cap" q_closed
  "abq_id_put cap" "abq_id_take cap" "abq_close id" for cap
proof unfold_locales
  fix q :: "'a abq" and v es
  assume "abq_wf cap q" "\<not> q_closed q" "q_count q \<noteq> cap"
  then show "\<exists>q'. abq_id_put cap v (q, es) = Ret () (q', es) \<and> abq_wf cap q' \<and> \<not> q_closed q' \<and> abq_list q' = abq_list q @ [v]"
    using abq_put_open [of cap id q id v es] by (simp add: abq_insert_wf)
next
  fix q :: "'a abq" and x xs es
  assume q: "abq_wf cap q" "\<not> q_closed q" and l: "abq_list q = x # xs"
  then have "q_count q \<noteq> 0" by (metis abq_list_Nil_iff list.distinct(1))
  with q l abq_remove_wf [OF q(1)] abq_take_open [of cap id q id es]
  show "\<exists>q'. abq_id_take cap (q, es) = Ret x (q', es) \<and> abq_wf cap q' \<and> \<not> q_closed q' \<and> abq_list q' = xs"
    by simp
next
  fix q :: "'a abq" and es
  show "\<exists>q'. abq_close id (q, es) = Ret () (q', es) \<and> q_closed q' \<and> abq_list q' = abq_list q \<and> (abq_wf cap q \<longrightarrow> abq_wf cap q')"
    by (simp add: abq_close_def abq_list_def abq_wf_def)
qed (simp_all add: abq_put_full abq_put_shut abq_take_empty abq_take_shut abq_list_Nil_iff)

lemmas deque_op_defs = deque_put_def deque_take_def deque_close_def deque_check_closed_def
  deque_pop_front_def deque_push_def deque_pop_def deque_emplace_def

interpretation deque_fifo: blocking_queue "\<lambda>_. True" d_items "\<lambda>_. True" d_closed
  "deque_put id id" "deque_take id id" "deque_close id"
  by unfold_locales (auto simp: deque_op_defs bind_op_app await_op_ready await_op_stuck)

end
