(* ===== verification/Queue_Threads.thy ===== *)
theory Queue_Threads
  imports Queue
begin

text \<open>
  The queues of \<^verbatim>\<open>src/queue.h\<close> under any number of threads. A thread is a program counter: it
  stands between calls, between the unlocked \<^verbatim>\<open>check_closed\<close> and the lock, inside
  \<^verbatim>\<open>wait\<close>, or woken and about to take the mutex again. What a thread does while it holds the
  mutex is one step, since no other thread can then read or write the members (the one unlocked
  read is \<^verbatim>\<open>closed\<close>, which is written under the mutex only). \<^verbatim>\<open>notify_one\<close> resumes some waiting
  thread, if there is one; a thread may also wake up spuriously. The fields \<open>put_log\<close> and
  \<open>take_log\<close> are a history of the values that were put and taken, which no step reads.
\<close>

section \<open>Threads on an ArrayBlockingQueue\<close>

datatype 'a pc =
    Idle
  | Put_lock 'a
  | Put_wait 'a
  | Put_woken 'a
  | Take_lock
  | Take_wait
  | Take_woken
  | Raised

record 'a qsys =
  shared_q :: "'a abq"
  pcs :: "'a pc list"
  put_log :: "'a list"
  take_log :: "'a list"

fun wake_putter :: "'a pc \<Rightarrow> 'a pc option" where
  "wake_putter (Put_wait v) = Some (Put_woken v)"
| "wake_putter _ = None"

fun wake_taker :: "'a pc \<Rightarrow> 'a pc option" where
  "wake_taker Take_wait = Some Take_woken"
| "wake_taker _ = None"

definition notify_one :: "('a pc \<Rightarrow> 'a pc option) \<Rightarrow> 'a pc list \<Rightarrow> 'a pc list \<Rightarrow> bool" where
  "notify_one wk ps ps' \<longleftrightarrow>
     (\<exists>i < length ps. \<exists>p. wk (ps ! i) = Some p \<and> ps' = ps[i := p]) \<or>
     ((\<forall>i < length ps. wk (ps ! i) = None) \<and> ps' = ps)"

fun notify_both :: "'a pc \<Rightarrow> 'a pc" where
  "notify_both (Put_wait v) = Put_woken v"
| "notify_both Take_wait = Take_woken"
| "notify_both p = p"

text \<open>A thread at the loop test of \<^verbatim>\<open>put\<close> (of \<^verbatim>\<open>take\<close>), mutex held: it has just locked it, or it
  came back from \<^verbatim>\<open>wait\<close> and passed \<^verbatim>\<open>check_closed\<close>.\<close>

definition at_put :: "'a qsys \<Rightarrow> nat \<Rightarrow> 'a \<Rightarrow> bool" where
  "at_put s i v \<longleftrightarrow> i < length (pcs s) \<and>
     (pcs s ! i = Put_lock v \<or> pcs s ! i = Put_woken v \<and> \<not> q_closed (shared_q s))"

definition at_take :: "'a qsys \<Rightarrow> nat \<Rightarrow> bool" where
  "at_take s i \<longleftrightarrow> i < length (pcs s) \<and>
     (pcs s ! i = Take_lock \<or> pcs s ! i = Take_woken \<and> \<not> q_closed (shared_q s))"

definition set_pc :: "nat \<Rightarrow> 'a pc \<Rightarrow> 'a qsys \<Rightarrow> 'a qsys" where
  "set_pc i p s = s\<lparr>pcs := (pcs s)[i := p]\<rparr>"

inductive abq_step :: "u32 \<Rightarrow> 'a qsys \<Rightarrow> 'a qsys \<Rightarrow> bool" for cap where
  put_check: "i < length (pcs s) \<Longrightarrow> pcs s ! i = Idle \<Longrightarrow> \<not> q_closed (shared_q s) \<Longrightarrow>
     abq_step cap s (set_pc i (Put_lock v) s)"
| put_refused: "i < length (pcs s) \<Longrightarrow> pcs s ! i = Idle \<Longrightarrow> q_closed (shared_q s) \<Longrightarrow>
     abq_step cap s (set_pc i Raised s)"
| put_waits: "at_put s i v \<Longrightarrow> q_count (shared_q s) = cap \<Longrightarrow>
     abq_step cap s (set_pc i (Put_wait v) s)"
| put_goes: "at_put s i v \<Longrightarrow> q_count (shared_q s) \<noteq> cap \<Longrightarrow> notify_one wake_taker (pcs s) ps \<Longrightarrow>
     abq_step cap s (s\<lparr>shared_q := abq_insert cap v (shared_q s), pcs := ps[i := Idle],
                       put_log := put_log s @ [v]\<rparr>)"
| put_raises: "i < length (pcs s) \<Longrightarrow> pcs s ! i = Put_woken v \<Longrightarrow> q_closed (shared_q s) \<Longrightarrow>
     abq_step cap s (set_pc i Raised s)"
| take_check: "i < length (pcs s) \<Longrightarrow> pcs s ! i = Idle \<Longrightarrow> \<not> q_closed (shared_q s) \<Longrightarrow>
     abq_step cap s (set_pc i Take_lock s)"
| take_refused: "i < length (pcs s) \<Longrightarrow> pcs s ! i = Idle \<Longrightarrow> q_closed (shared_q s) \<Longrightarrow>
     abq_step cap s (set_pc i Raised s)"
| take_waits: "at_take s i \<Longrightarrow> q_count (shared_q s) = 0 \<Longrightarrow>
     abq_step cap s (set_pc i Take_wait s)"
| take_goes: "at_take s i \<Longrightarrow> q_count (shared_q s) \<noteq> 0 \<Longrightarrow> notify_one wake_putter (pcs s) ps \<Longrightarrow>
     abq_step cap s (s\<lparr>shared_q := abq_remove cap (shared_q s), pcs := ps[i := Idle],
                       take_log := take_log s @ [abq_front (shared_q s)]\<rparr>)"
| take_raises: "i < length (pcs s) \<Longrightarrow> pcs s ! i = Take_woken \<Longrightarrow> q_closed (shared_q s) \<Longrightarrow>
     abq_step cap s (set_pc i Raised s)"
| close: "i < length (pcs s) \<Longrightarrow> pcs s ! i = Idle \<Longrightarrow>
     abq_step cap s (s\<lparr>shared_q := (shared_q s)\<lparr>q_closed := True\<rparr>, pcs := map notify_both (pcs s)\<rparr>)"
| spurious: "i < length (pcs s) \<Longrightarrow> pcs s ! i = Put_wait v \<or> pcs s ! i = Take_wait \<Longrightarrow>
     abq_step cap s (set_pc i (notify_both (pcs s ! i)) s)"

text \<open>Any number of threads, all between calls, on a queue in zero-filled memory.\<close>

definition abq_start :: "u32 \<Rightarrow> 'a \<Rightarrow> 'a qsys \<Rightarrow> bool" where
  "abq_start cap z s \<longleftrightarrow> 0 < cap \<and> (\<exists>n. s = \<lparr>shared_q = abq_zeroed cap z, pcs = replicate n Idle, put_log = [], take_log = []\<rparr>)"

section \<open>Counting threads\<close>

definition pcount :: "('a \<Rightarrow> bool) \<Rightarrow> 'a list \<Rightarrow> nat" where
  "pcount P ps = length (filter P ps)"

lemma pcount_Nil [simp]: "pcount P [] = 0"
  by (simp add: pcount_def)

lemma pcount_Cons [simp]: "pcount P (p # ps) = (if P p then Suc (pcount P ps) else pcount P ps)"
  by (simp add: pcount_def)

lemma pcount_pos: "i < length ps \<Longrightarrow> P (ps ! i) \<Longrightarrow> 0 < pcount P ps"
  by (metis filter_empty_conv length_greater_0_conv nth_mem pcount_def)

lemma pcount_0_iff: "pcount P ps = 0 \<longleftrightarrow> (\<forall>i < length ps. \<not> P (ps ! i))"
  by (simp add: pcount_def filter_empty_conv all_set_conv_all_nth)

lemma pcount_replicate [simp]: "pcount P (replicate n x) = (if P x then n else 0)"
  by (simp add: pcount_def)

lemma pcount_update:
  "i < length ps \<Longrightarrow>
   int (pcount P (ps[i := x])) = int (pcount P ps) - of_bool (P (ps ! i)) + of_bool (P x)"
proof (induction ps arbitrary: i)
  case Nil
  then show ?case by simp
next
  case (Cons p ps)
  show ?case
  proof (cases i)
    case 0
    then show ?thesis by simp
  next
    case (Suc j)
    with Cons.prems have "j < length ps" by simp
    from Cons.IH [OF this] Suc show ?thesis by simp
  qed
qed

definition is_tw :: "'a pc \<Rightarrow> bool" where "is_tw p \<longleftrightarrow> p = Take_wait"
definition is_tk :: "'a pc \<Rightarrow> bool" where "is_tk p \<longleftrightarrow> p = Take_woken"
definition is_pw :: "'a pc \<Rightarrow> bool" where "is_pw p \<longleftrightarrow> (\<exists>v. p = Put_wait v)"
definition is_pk :: "'a pc \<Rightarrow> bool" where "is_pk p \<longleftrightarrow> (\<exists>v. p = Put_woken v)"

lemmas pc_kind_defs = is_tw_def is_tk_def is_pw_def is_pk_def

lemma wake_taker_Some: "wake_taker p = Some p' \<longleftrightarrow> p = Take_wait \<and> p' = Take_woken"
  by (cases p) auto

lemma wake_taker_None: "wake_taker p = None \<longleftrightarrow> \<not> is_tw p"
  by (cases p) (auto simp: pc_kind_defs)

lemma wake_putter_Some: "wake_putter p = Some p' \<longleftrightarrow> (\<exists>v. p = Put_wait v \<and> p' = Put_woken v)"
  by (cases p) auto

lemma wake_putter_None: "wake_putter p = None \<longleftrightarrow> \<not> is_pw p"
  by (cases p) (auto simp: pc_kind_defs)

lemma notify_one_taker:
  assumes "notify_one wake_taker ps ps'"
  obtains (none) "pcount is_tw ps = 0" "ps' = ps"
    | (one) j where "j < length ps" "ps ! j = Take_wait" "ps' = ps[j := Take_woken]"
  using assms by (auto simp: notify_one_def pcount_0_iff wake_taker_None wake_taker_Some)

lemma notify_one_putter:
  assumes "notify_one wake_putter ps ps'"
  obtains (none) "pcount is_pw ps = 0" "ps' = ps"
    | (one) j v where "j < length ps" "ps ! j = Put_wait v" "ps' = ps[j := Put_woken v]"
  using assms by (auto simp: notify_one_def pcount_0_iff wake_putter_None wake_putter_Some)

section \<open>What every interleaving keeps\<close>

text \<open>
  The queue is well formed, its contents are what was put and not yet taken, in order, and
  while it is open no wake-up is lost: if a taker waits there are at least as many woken takers
  as elements, and if a putter waits at least as many woken putters as free places.
\<close>

definition wakeups_ok :: "u32 \<Rightarrow> 'a qsys \<Rightarrow> bool" where
  "wakeups_ok cap s \<longleftrightarrow>
     (0 < pcount is_tw (pcs s) \<longrightarrow> unat (q_count (shared_q s)) \<le> pcount is_tk (pcs s)) \<and>
     (0 < pcount is_pw (pcs s) \<longrightarrow> unat cap \<le> unat (q_count (shared_q s)) + pcount is_pk (pcs s))"

definition abq_sys_inv :: "u32 \<Rightarrow> 'a qsys \<Rightarrow> bool" where
  "abq_sys_inv cap s \<longleftrightarrow> abq_wf cap (shared_q s) \<and>
     put_log s = take_log s @ abq_list (shared_q s) \<and>
     (\<not> q_closed (shared_q s) \<longrightarrow> wakeups_ok cap s)"

lemma abq_start_inv: "abq_start cap z s \<Longrightarrow> abq_sys_inv cap s"
  by (auto simp: abq_start_def abq_sys_inv_def abq_zeroed_wf wakeups_ok_def pc_kind_defs)

lemma pcount_update_nat:
  assumes "i < length ps"
  shows "pcount P (ps[i := x]) + of_bool (P (ps ! i)) = pcount P ps + of_bool (P x)"
  using pcount_update [OF assms, of P x] pcount_pos [OF assms, of P] by (auto split: if_splits)

lemma unat_abq_counts:
  assumes "abq_wf cap q"
  shows "q_count q \<noteq> cap \<Longrightarrow> unat (q_count (abq_insert cap v q)) = unat (q_count q) + 1"
    and "q_count q \<noteq> 0 \<Longrightarrow> unat (q_count (abq_remove cap q)) = unat (q_count q) - 1"
proof -
  show "unat (q_count (abq_insert cap v q)) = unat (q_count q) + 1" if "q_count q \<noteq> cap"
    using abq_insert_wf(2) [OF assms that, of v] by (metis length_abq_list length_append_singleton Suc_eq_plus1)
  show "unat (q_count (abq_remove cap q)) = unat (q_count q) - 1" if "q_count q \<noteq> 0"
    using abq_remove_wf(2) [OF assms that] by (metis length_abq_list length_Cons diff_Suc_1)
qed

lemma put_goes_wakeups:
  assumes wf: "abq_wf cap (shared_q s)" and ok: "wakeups_ok cap s" and at: "at_put s i v"
    and room: "q_count (shared_q s) \<noteq> cap" and n: "notify_one wake_taker (pcs s) ps"
  shows "wakeups_ok cap (s\<lparr>shared_q := abq_insert cap v (shared_q s), pcs := ps[i := Idle], put_log := l\<rparr>)"
  using n
proof (cases rule: notify_one_taker)
  case none
  have i: "i < length (pcs s)" using at by (simp add: at_put_def)
  show ?thesis
    using ok at none unat_abq_counts(1) [OF wf room, of v]
      pcount_update_nat [OF i, of is_tw Idle] pcount_update_nat [OF i, of is_pw Idle]
      pcount_update_nat [OF i, of is_pk Idle]
    by (auto simp: wakeups_ok_def at_put_def pc_kind_defs)
next
  case (one j)
  have i: "i < length (pcs s)" "i < length ps" using at one by (simp_all add: at_put_def)
  have "ps ! i = pcs s ! i" using at one by (auto simp: at_put_def nth_list_update)
  then show ?thesis
    using ok at one unat_abq_counts(1) [OF wf room, of v]
      pcount_update_nat [OF i(2), of is_tw Idle] pcount_update_nat [OF i(2), of is_tk Idle]
      pcount_update_nat [OF i(2), of is_pw Idle] pcount_update_nat [OF i(2), of is_pk Idle]
      pcount_update_nat [OF one(1), of is_tw Take_woken] pcount_update_nat [OF one(1), of is_tk Take_woken]
      pcount_update_nat [OF one(1), of is_pw Take_woken] pcount_update_nat [OF one(1), of is_pk Take_woken]
    by (auto simp: wakeups_ok_def at_put_def pc_kind_defs)
qed

lemma take_goes_wakeups:
  assumes wf: "abq_wf cap (shared_q s)" and ok: "wakeups_ok cap s" and at: "at_take s i"
    and ne: "q_count (shared_q s) \<noteq> 0" and n: "notify_one wake_putter (pcs s) ps"
  shows "wakeups_ok cap (s\<lparr>shared_q := abq_remove cap (shared_q s), pcs := ps[i := Idle], take_log := l\<rparr>)"
  using n
proof (cases rule: notify_one_putter)
  case none
  have i: "i < length (pcs s)" using at by (simp add: at_take_def)
  show ?thesis
    using ok at none unat_abq_counts(2) [OF wf ne]
      pcount_update_nat [OF i, of is_tw Idle] pcount_update_nat [OF i, of is_pw Idle]
      pcount_update_nat [OF i, of is_tk Idle]
    by (auto simp: wakeups_ok_def at_take_def pc_kind_defs)
next
  case (one j v)
  have i: "i < length (pcs s)" "i < length ps" using at one by (simp_all add: at_take_def)
  have "ps ! i = pcs s ! i" using at one by (auto simp: at_take_def nth_list_update)
  then show ?thesis
    using ok at one unat_abq_counts(2) [OF wf ne]
      pcount_update_nat [OF i(2), of is_tw Idle] pcount_update_nat [OF i(2), of is_tk Idle]
      pcount_update_nat [OF i(2), of is_pw Idle] pcount_update_nat [OF i(2), of is_pk Idle]
      pcount_update_nat [OF one(1), of is_tw "Put_woken v"] pcount_update_nat [OF one(1), of is_tk "Put_woken v"]
      pcount_update_nat [OF one(1), of is_pw "Put_woken v"] pcount_update_nat [OF one(1), of is_pk "Put_woken v"]
    by (auto simp: wakeups_ok_def at_take_def pc_kind_defs)
qed

lemma wakeups_ok_set_pc:
  assumes "wakeups_ok cap s" and "i < length (pcs s)"
    and "is_tk (pcs s ! i) \<Longrightarrow> is_tk p \<or> q_count (shared_q s) = 0"
    and "is_tw p \<Longrightarrow> is_tw (pcs s ! i) \<or> q_count (shared_q s) = 0"
    and "is_pk (pcs s ! i) \<Longrightarrow> is_pk p \<or> q_count (shared_q s) = cap"
    and "is_pw p \<Longrightarrow> is_pw (pcs s ! i) \<or> q_count (shared_q s) = cap"
  shows "wakeups_ok cap (set_pc i p s)"
proof -
  let ?ps = "(pcs s)[i := p]"
  have tw: "0 < pcount is_tw ?ps \<Longrightarrow> q_count (shared_q s) = 0 \<or> 0 < pcount is_tw (pcs s)"
    using assms(4) pcount_pos [OF assms(2), of is_tw] pcount_update_nat [OF assms(2), of is_tw p]
    by (cases "is_tw p") auto
  have tk: "q_count (shared_q s) = 0 \<or> pcount is_tk (pcs s) \<le> pcount is_tk ?ps"
    using assms(3) pcount_update_nat [OF assms(2), of is_tk p]
    by (cases "is_tk (pcs s ! i)") auto
  have pw: "0 < pcount is_pw ?ps \<Longrightarrow> q_count (shared_q s) = cap \<or> 0 < pcount is_pw (pcs s)"
    using assms(6) pcount_pos [OF assms(2), of is_pw] pcount_update_nat [OF assms(2), of is_pw p]
    by (cases "is_pw p") auto
  have pk: "q_count (shared_q s) = cap \<or> pcount is_pk (pcs s) \<le> pcount is_pk ?ps"
    using assms(5) pcount_update_nat [OF assms(2), of is_pk p]
    by (cases "is_pk (pcs s ! i)") auto
  show ?thesis
    using assms(1) tw tk pw pk by (force simp: wakeups_ok_def set_pc_def)
qed

lemma set_pc_frame [simp]:
  "shared_q (set_pc i p s) = shared_q s" "put_log (set_pc i p s) = put_log s"
  "take_log (set_pc i p s) = take_log s" "pcs (set_pc i p s) = (pcs s)[i := p]"
  by (simp_all add: set_pc_def)

lemma abq_sys_inv_set_pc:
  "abq_sys_inv cap s \<Longrightarrow> (\<not> q_closed (shared_q s) \<Longrightarrow> wakeups_ok cap s \<Longrightarrow> wakeups_ok cap (set_pc i p s)) \<Longrightarrow>
   abq_sys_inv cap (set_pc i p s)"
  by (simp add: abq_sys_inv_def)

lemma abq_step_inv:
  assumes step: "abq_step cap s t" and inv: "abq_sys_inv cap s"
  shows "abq_sys_inv cap t"
  using step
proof cases
  case (put_goes i v ps)
  with inv show ?thesis
    using put_goes_wakeups [of cap s i v ps]
    by (auto simp: abq_sys_inv_def abq_insert_wf)
next
  case (take_goes i ps)
  with inv abq_remove_wf [of cap "shared_q s"] show ?thesis
    using take_goes_wakeups [of cap s i ps]
    by (auto simp: abq_sys_inv_def)
next
  case (close i)
  with inv show ?thesis by (simp add: abq_sys_inv_def abq_wf_def abq_list_def)
next
  case (put_waits i v)
  have "abq_sys_inv cap (set_pc i (Put_wait v) s)"
    by (rule abq_sys_inv_set_pc [OF inv], rule wakeups_ok_set_pc)
      (use put_waits in \<open>auto simp: pc_kind_defs at_put_def\<close>)
  with put_waits(1) show ?thesis by simp
next
  case (spurious i v)
  then show ?thesis
    by (auto intro!: abq_sys_inv_set_pc [OF inv] wakeups_ok_set_pc simp: pc_kind_defs)
qed (auto intro!: abq_sys_inv_set_pc [OF inv] wakeups_ok_set_pc simp: pc_kind_defs at_put_def at_take_def)

interpretation abq_sys: inductive_invariant "abq_start cap z" "abq_step cap" "abq_sys_inv cap" for cap z
  by unfold_locales (auto intro: abq_start_inv abq_step_inv)

text \<open>
  C1. In every state that any number of threads can reach by calling put, take and close on an
  ArrayBlockingQueue, in any interleaving, the values taken so far followed by the values
  stored in the ring buffer are exactly the values put so far, in the order of the puts: no
  element is lost, duplicated or reordered, and at most \<open>cap\<close> elements are stored.
\<close>

theorem abq_threads_fifo:
  assumes "reach (abq_start cap z) (abq_step cap) s"
  shows "put_log s = take_log s @ abq_list (shared_q s) \<and> length (abq_list (shared_q s)) \<le> unat cap"
  using abq_sys.reach_inv [OF assms] by (simp add: abq_sys_inv_def abq_wf_def)

text \<open>A run of three threads on the program's queue of capacity 8: two wait in \<open>take\<close>, the third
  puts one value and wakes one of them.\<close>

definition demo_start :: "nat qsys" where
  "demo_start = \<lparr>shared_q = abq_zeroed 8 0, pcs = [Idle, Idle, Idle], put_log = [], take_log = []\<rparr>"

definition demo_woken :: "nat qsys" where
  "demo_woken = \<lparr>shared_q = abq_insert 8 7 (abq_zeroed 8 0), pcs = [Take_woken, Take_wait, Idle],
                 put_log = [7], take_log = []\<rparr>"

lemma demo_start_start: "abq_start 8 0 demo_start"
  by (auto simp: abq_start_def demo_start_def numeral_3_eq_3 intro: exI [of _ 3])

lemma demo_woken_reach: "reach (abq_start 8 0) (abq_step 8) demo_woken"
proof -
  let ?R = "reach (abq_start 8 0) (abq_step 8)"
  let ?s1 = "set_pc 0 Take_lock demo_start" and ?s2 = "set_pc 0 Take_wait demo_start"
  let ?s3 = "set_pc 1 Take_lock ?s2" and ?s4 = "set_pc 1 Take_wait ?s2"
  let ?s5 = "set_pc 2 (Put_lock 7) ?s4"
  have e: "q_count (abq_zeroed 8 (0::nat)) = 0" "\<not> q_closed (abq_zeroed 8 (0::nat))"
    by (simp_all add: abq_zeroed_def)
  have 0: "?R demo_start" by (rule reach_init [of "abq_start 8 0", OF demo_start_start])
  have 1: "?R ?s1"
    by (rule reach_step [OF 0]) (rule abq_step.take_check; simp add: demo_start_def e)
  have 2: "?R (set_pc 0 Take_wait ?s1)"
    by (rule reach_step [OF 1]) (rule abq_step.take_waits; simp add: demo_start_def e at_take_def)
  have two: "set_pc 0 Take_wait ?s1 = ?s2" by (simp add: set_pc_def demo_start_def)
  have 3: "?R ?s3"
    by (rule reach_step [OF 2 [unfolded two]]) (rule abq_step.take_check; simp add: demo_start_def e)
  have 4: "?R (set_pc 1 Take_wait ?s3)"
    by (rule reach_step [OF 3]) (rule abq_step.take_waits; simp add: demo_start_def e at_take_def)
  have four: "set_pc 1 Take_wait ?s3 = ?s4" by (simp add: set_pc_def demo_start_def)
  have 5: "?R ?s5"
    by (rule reach_step [OF 4 [unfolded four]]) (rule abq_step.put_check; simp add: demo_start_def e)
  have n: "notify_one wake_taker (pcs ?s5) [Take_woken, Take_wait, Put_lock 7]"
    by (auto simp: notify_one_def demo_start_def intro!: exI [of _ 0])
  have "abq_step 8 ?s5 (?s5\<lparr>shared_q := abq_insert 8 7 (shared_q ?s5),
      pcs := [Take_woken, Take_wait, Put_lock 7][2 := Idle], put_log := put_log ?s5 @ [7]\<rparr>)"
    by (rule abq_step.put_goes [OF _ _ n]) (simp_all add: demo_start_def at_put_def e)
  then have "abq_step 8 ?s5 demo_woken"
    by (simp add: demo_woken_def demo_start_def set_pc_def)
  with 5 show ?thesis by (rule reach_step)
qed

theorem abq_threads_fifo_witness:
  "put_log demo_woken = take_log demo_woken @ abq_list (shared_q demo_woken) \<and>
   length (abq_list (shared_q demo_woken)) \<le> unat (8 :: u32)"
  by (rule abq_threads_fifo [OF demo_woken_reach])

text \<open>
  C7. No wake-up is lost while the queue is open: in every reachable state of an open queue, if
  a thread waits in take although the queue holds an element, some other taker has been woken
  and will come back for it, and if a thread waits in put although there is room, some other
  putter has been woken.
\<close>

theorem abq_no_lost_wakeup:
  assumes "reach (abq_start cap z) (abq_step cap) s" and "\<not> q_closed (shared_q s)" and "i < length (pcs s)"
  shows "(pcs s ! i = Take_wait \<and> abq_list (shared_q s) \<noteq> [] \<longrightarrow> Take_woken \<in> set (pcs s)) \<and>
    (pcs s ! i = Put_wait v \<and> length (abq_list (shared_q s)) < unat cap \<longrightarrow> (\<exists>w. Put_woken w \<in> set (pcs s)))"
proof -
  have ok: "wakeups_ok cap s"
    using abq_sys.reach_inv [OF assms(1)] assms(2) by (simp add: abq_sys_inv_def)
  have *: "0 < pcount P (pcs s) \<Longrightarrow> \<exists>p \<in> set (pcs s). P p" for P
    by (auto simp: pcount_def filter_empty_conv)
  show ?thesis
  proof (intro conjI impI; elim conjE)
    assume "pcs s ! i = Take_wait" "abq_list (shared_q s) \<noteq> []"
    then have "0 < pcount is_tw (pcs s)" "0 < unat (q_count (shared_q s))"
      using pcount_pos [OF assms(3), of is_tw] by (simp_all add: is_tw_def abq_list_Nil_iff unat_gt_0)
    with ok have "0 < pcount is_tk (pcs s)" by (simp add: wakeups_ok_def)
    from * [OF this] show "Take_woken \<in> set (pcs s)" by (simp add: is_tk_def)
  next
    assume "pcs s ! i = Put_wait v" "length (abq_list (shared_q s)) < unat cap"
    with ok pcount_pos [OF assms(3), of is_pw] have "0 < pcount is_pk (pcs s)"
      by (simp add: wakeups_ok_def is_pw_def)
    from * [OF this] show "\<exists>w. Put_woken w \<in> set (pcs s)" by (auto simp: is_pk_def)
  qed
qed

theorem abq_no_lost_wakeup_witness:
  "pcs demo_woken ! 1 = Take_wait \<and> abq_list (shared_q demo_woken) \<noteq> [] \<and> Take_woken \<in> set (pcs demo_woken)"
proof -
  have "\<not> q_closed (shared_q demo_woken)" "1 < length (pcs demo_woken)" "pcs demo_woken ! 1 = Take_wait"
    by (simp_all add: demo_woken_def abq_zeroed_def)
  moreover have "abq_list (shared_q demo_woken) \<noteq> []"
    using abq_insert_wf(2) [of 8 "abq_zeroed 8 (0::nat)" 7] abq_zeroed_wf [of 8 "0::nat"]
    by (simp add: demo_woken_def abq_zeroed_def)
  ultimately show ?thesis
    using abq_no_lost_wakeup [OF demo_woken_reach, of 1 0] by blast
qed

section \<open>Closing an ArrayBlockingQueue can miss a taker\<close>

text \<open>The state after the following run of two threads. Thread 0 calls \<^verbatim>\<open>take\<close> and passes the
  unlocked \<^verbatim>\<open>check_closed\<close>; thread 1 closes the queue, which notifies nobody, and a later call of
  its own is refused; thread 0 then locks the mutex, finds the queue empty and waits without
  looking at \<^verbatim>\<open>closed\<close> again.\<close>

definition missed_close :: "'a \<Rightarrow> 'a qsys" where
  "missed_close z = \<lparr>shared_q = (abq_zeroed 8 z)\<lparr>q_closed := True\<rparr>, pcs = [Take_wait, Raised],
                     put_log = [], take_log = []\<rparr>"

lemma missed_close_reach: "reach (abq_start 8 z) (abq_step 8) (missed_close z)"
proof -
  let ?R = "reach (abq_start 8 z) (abq_step 8)"
  let ?st = "\<lambda>c ps. \<lparr>shared_q = (abq_zeroed 8 z)\<lparr>q_closed := c\<rparr>, pcs = ps, put_log = [], take_log = []\<rparr>"
  have z: "(abq_zeroed 8 z)\<lparr>q_closed := False\<rparr> = abq_zeroed 8 z" "q_count (abq_zeroed 8 z) = 0"
    by (simp_all add: abq_zeroed_def)
  have "?R (?st False [Idle, Idle])"
    by (rule reach_init, simp only: abq_start_def z, rule conjI, simp, rule exI [of _ 2])
      (simp add: numeral_2_eq_2)
  then have "?R (?st False [Take_lock, Idle])"
    by (rule reach_step) (use abq_step.take_check [of 0 "?st False [Idle, Idle]"] in \<open>simp add: set_pc_def\<close>)
  then have "?R (?st True [Take_lock, Idle])"
    by (rule reach_step) (use abq_step.close [of 1 "?st False [Take_lock, Idle]"] in simp)
  then have "?R (?st True [Take_wait, Idle])"
    by (rule reach_step)
      (use abq_step.take_waits [of "?st True [Take_lock, Idle]" 0] in \<open>simp add: set_pc_def at_take_def z\<close>)
  then have "?R (?st True [Take_wait, Raised])"
    by (rule reach_step)
      (use abq_step.put_refused [of 1 "?st True [Take_wait, Idle]"] in \<open>simp add: set_pc_def\<close>)
  then show ?thesis by (simp add: missed_close_def)
qed

lemma less_2_cases: "i < Suc (Suc 0) \<Longrightarrow> i = 0 \<or> i = 1"
  by auto

lemma missed_close_step:
  assumes "abq_step 8 (missed_close z) t"
  shows "t = set_pc 0 Take_woken (missed_close z)"
  using assms
  by cases (auto simp: missed_close_def at_put_def at_take_def dest!: less_2_cases)

text \<open>
  C39. Closing an ArrayBlockingQueue does not always wake a thread that is taking from it:
  a state is reachable in which the queue is closed and empty, a thread waits in take, the
  closing thread has finished, and the only step left to the whole system is a spurious
  wake-up of the waiting thread. A worker in this state is never joined.
\<close>

theorem abq_close_misses_taker:
  "\<exists>s. reach (abq_start 8 z) (abq_step 8) s \<and> q_closed (shared_q s) \<and> pcs s ! 0 = Take_wait \<and>
     {t. abq_step 8 s t} = {set_pc 0 Take_woken s}"
proof (intro exI conjI)
  show "reach (abq_start 8 z) (abq_step 8) (missed_close z)" by (rule missed_close_reach)
  show "q_closed (shared_q (missed_close z))" "pcs (missed_close z) ! 0 = Take_wait"
    by (simp_all add: missed_close_def)
  have "abq_step 8 (missed_close z) (set_pc 0 Take_woken (missed_close z))"
    using abq_step.spurious [of 0 "missed_close z" z 8] by (simp add: missed_close_def)
  then show "{t. abq_step 8 (missed_close z) t} = {set_pc 0 Take_woken (missed_close z)}"
    by (auto dest: missed_close_step)
qed

section \<open>Threads on a Deque\<close>

text \<open>Here every test of \<^verbatim>\<open>closed\<close> is made under the mutex, so a call is one step up to its first
  wait. A poller whose deadline has passed returns without looking at the queue.\<close>

datatype dpc = D_idle | D_take_wait | D_take_woken | D_poll_wait | D_poll_woken | D_raised

record 'a dsys =
  shared_d :: "'a deque"
  dpcs :: "dpc list"
  dput_log :: "'a list"
  dtake_log :: "'a list"

fun wake_ready :: "dpc \<Rightarrow> dpc" where
  "wake_ready D_take_wait = D_take_woken"
| "wake_ready D_poll_wait = D_poll_woken"
| "wake_ready p = p"

definition d_waiting :: "dpc \<Rightarrow> bool" where
  "d_waiting p \<longleftrightarrow> p = D_take_wait \<or> p = D_poll_wait"

definition d_notify_one :: "dpc list \<Rightarrow> dpc list \<Rightarrow> bool" where
  "d_notify_one ps ps' \<longleftrightarrow>
     (\<exists>i < length ps. d_waiting (ps ! i) \<and> ps' = ps[i := wake_ready (ps ! i)]) \<or>
     ((\<forall>i < length ps. \<not> d_waiting (ps ! i)) \<and> ps' = ps)"

definition set_dpc :: "nat \<Rightarrow> dpc \<Rightarrow> 'a dsys \<Rightarrow> 'a dsys" where
  "set_dpc i p s = s\<lparr>dpcs := (dpcs s)[i := p]\<rparr>"

definition d_at :: "'a dsys \<Rightarrow> nat \<Rightarrow> dpc set \<Rightarrow> bool" where
  "d_at s i P \<longleftrightarrow> i < length (dpcs s) \<and> dpcs s ! i \<in> P"

inductive deque_step :: "'a dsys \<Rightarrow> 'a dsys \<Rightarrow> bool" where
  d_put: "d_at s i {D_idle} \<Longrightarrow> \<not> d_closed (shared_d s) \<Longrightarrow> d_notify_one (dpcs s) ps \<Longrightarrow>
     deque_step s (s\<lparr>shared_d := deque_push v (shared_d s), dpcs := ps, dput_log := dput_log s @ [v]\<rparr>)"
| d_raises: "d_at s i {D_idle, D_take_woken, D_poll_woken} \<Longrightarrow> d_closed (shared_d s) \<Longrightarrow>
     deque_step s (set_dpc i D_raised s)"
| d_take_waits: "d_at s i {D_idle, D_take_woken} \<Longrightarrow> \<not> d_closed (shared_d s) \<Longrightarrow> d_items (shared_d s) = [] \<Longrightarrow>
     deque_step s (set_dpc i D_take_wait s)"
| d_poll_waits: "d_at s i {D_idle, D_poll_woken} \<Longrightarrow> \<not> d_closed (shared_d s) \<Longrightarrow> d_items (shared_d s) = [] \<Longrightarrow>
     deque_step s (set_dpc i D_poll_wait s)"
| d_goes: "d_at s i {D_idle, D_take_woken, D_poll_woken} \<Longrightarrow> \<not> d_closed (shared_d s) \<Longrightarrow>
     d_items (shared_d s) = x # xs \<Longrightarrow>
     deque_step s (set_dpc i D_idle (s\<lparr>shared_d := deque_pop (shared_d s), dtake_log := dtake_log s @ [x]\<rparr>))"
| d_timeout: "d_at s i {D_poll_wait, D_poll_woken} \<Longrightarrow> deque_step s (set_dpc i D_idle s)"
| d_close: "d_at s i {D_idle} \<Longrightarrow>
     deque_step s (s\<lparr>shared_d := (shared_d s)\<lparr>d_closed := True\<rparr>, dpcs := map wake_ready (dpcs s)\<rparr>)"
| d_reset: "d_at s i {D_idle} \<Longrightarrow>
     deque_step s (s\<lparr>shared_d := (shared_d s)\<lparr>d_closed := False, d_items := []\<rparr>,
       dpcs := map wake_ready (dpcs s), dput_log := [], dtake_log := []\<rparr>)"
| d_spurious: "d_at s i {D_take_wait, D_poll_wait} \<Longrightarrow>
     deque_step s (set_dpc i (wake_ready (dpcs s ! i)) s)"

definition deque_start :: "'a dsys \<Rightarrow> bool" where
  "deque_start s \<longleftrightarrow> (\<exists>n. s = \<lparr>shared_d = deque_new, dpcs = replicate n D_idle, dput_log = [], dtake_log = []\<rparr>)"

definition deque_sys_inv :: "'a dsys \<Rightarrow> bool" where
  "deque_sys_inv s \<longleftrightarrow> dput_log s = dtake_log s @ d_items (shared_d s) \<and>
     (d_closed (shared_d s) \<longrightarrow> list_all (\<lambda>p. \<not> d_waiting p) (dpcs s))"

lemma wake_ready_not_waiting [simp]: "\<not> d_waiting (wake_ready p)"
  by (cases p) (simp_all add: d_waiting_def)

lemma not_waiting [simp]:
  "\<not> d_waiting D_idle" "\<not> d_waiting D_raised" "\<not> d_waiting D_take_woken" "\<not> d_waiting D_poll_woken"
  by (simp_all add: d_waiting_def)

lemma list_all_update: "list_all P xs \<Longrightarrow> P x \<Longrightarrow> list_all P (xs[i := x])"
  by (auto simp: list_all_iff dest!: set_update_subset_insert [THEN subsetD])

lemma deque_step_inv: "deque_step s t \<Longrightarrow> deque_sys_inv s \<Longrightarrow> deque_sys_inv t"
  by (induction rule: deque_step.induct)
    (auto simp: deque_sys_inv_def set_dpc_def deque_push_def deque_pop_def
       list.pred_map comp_def list_all_update list.pred_True)

lemma deque_start_inv: "deque_start s \<Longrightarrow> deque_sys_inv s"
  by (auto simp: deque_start_def deque_sys_inv_def deque_new_def)

interpretation deque_sys: inductive_invariant deque_start deque_step deque_sys_inv
  by unfold_locales (auto intro: deque_step_inv deque_start_inv)

text \<open>
  C9. In every state that any number of threads can reach on a Deque, the values taken since the
  last reset followed by the stored values are the values put, in order; and once the Deque is
  closed no thread waits on it: every waiting thread has been woken and will leave with
  \<^verbatim>\<open>queue_closed\<close> (or with its timeout).
\<close>

theorem deque_threads_fifo_and_close:
  assumes "reach deque_start deque_step s"
  shows "dput_log s = dtake_log s @ d_items (shared_d s) \<and>
    (d_closed (shared_d s) \<longrightarrow> (\<forall>p \<in> set (dpcs s). p \<noteq> D_take_wait \<and> p \<noteq> D_poll_wait))"
  using deque_sys.reach_inv [OF assms]
  by (auto simp: deque_sys_inv_def list_all_iff d_waiting_def)

text \<open>Two threads: one waits in \<^verbatim>\<open>take\<close>, the other closes the queue.\<close>

definition demo_dclosed :: "nat dsys" where
  "demo_dclosed = \<lparr>shared_d = \<lparr>d_items = [], d_closed = True\<rparr>, dpcs = [D_take_woken, D_idle],
                   dput_log = [], dtake_log = []\<rparr>"

lemma demo_dclosed_reach: "reach deque_start deque_step demo_dclosed"
proof -
  let ?st = "\<lambda>c ps. \<lparr>shared_d = \<lparr>d_items = [] :: nat list, d_closed = c\<rparr>, dpcs = ps, dput_log = [], dtake_log = []\<rparr>"
  have "reach deque_start deque_step (?st False [D_idle, D_idle])"
    by (rule reach_init) (auto simp: deque_start_def deque_new_def numeral_2_eq_2 intro: exI [of _ 2])
  then have "reach deque_start deque_step (?st False [D_take_wait, D_idle])"
    by (rule reach_step)
      (use deque_step.d_take_waits [of "?st False [D_idle, D_idle]" 0] in \<open>simp add: d_at_def set_dpc_def\<close>)
  then have "reach deque_start deque_step (?st True [D_take_woken, D_idle])"
    by (rule reach_step)
      (use deque_step.d_close [of "?st False [D_take_wait, D_idle]" 1] in \<open>simp add: d_at_def\<close>)
  then show ?thesis by (simp add: demo_dclosed_def)
qed

theorem deque_threads_fifo_and_close_witness:
  "d_closed (shared_d demo_dclosed) \<and> D_take_wait \<notin> set (dpcs demo_dclosed) \<and>
   dput_log demo_dclosed = dtake_log demo_dclosed @ d_items (shared_d demo_dclosed)"
proof -
  have "d_closed (shared_d demo_dclosed)" by (simp add: demo_dclosed_def)
  with deque_threads_fifo_and_close [OF demo_dclosed_reach] show ?thesis by blast
qed

end
