(* ===== verification/Calls.thy ===== *)
theory Calls
  imports Raft_Prelude
begin

text \<open>
  The enumerations of \<^verbatim>\<open>src/raft_defs.h\<close> and \<^verbatim>\<open>src/raft_shm.h\<close>, the tables of calls that
  \<^verbatim>\<open>raft_api_calls.h\<close> and \<^verbatim>\<open>raft_fsm_calls.h\<close> declare, the argument structures of a call with
  their constructors, the names of call tags, and the error messages of the C interface.
\<close>

section \<open>Enumerations\<close>

datatype RaftLogType =
  RAFT_LOG_COMMAND | RAFT_LOG_NOOP | RAFT_LOG_ADD_PEER | RAFT_LOG_REMOVE_PEER | RAFT_LOG_BARRIER

datatype RaftState =
  RAFT_INVALID_STATE | RAFT_FOLLOWER | RAFT_CANDIDATE | RAFT_LEADER | RAFT_SHUTDOWN

datatype RaftError =
    RAFT_SUCCESS | RAFT_E_LEADER | RAFT_E_NOT_LEADER | RAFT_E_LEADERSHIP_LOST | RAFT_E_SHUTDOWN
  | RAFT_E_ENQUEUE_TIMEOUT | RAFT_E_KNOWN_PEER | RAFT_E_UNKNOWN_PEER | RAFT_E_LOG_NOT_FOUND
  | RAFT_E_PIPELINE_REPLICATION_NOT_SUPP | RAFT_E_TRANSPORT_SHUTDOWN | RAFT_E_PIPELINE_SHUTDOWN
  | RAFT_E_OTHER | RAFT_E_INVALID_OP | RAFT_E_INVALID_ADDRESS | RAFT_E_RESOLVE | RAFT_E_IN_SHUTDOWN

definition N_RAFT_ERRORS :: nat where
  "N_RAFT_ERRORS = 17"

fun error_value :: "RaftError \<Rightarrow> nat" where
  "error_value RAFT_SUCCESS = 0"
| "error_value RAFT_E_LEADER = 1"
| "error_value RAFT_E_NOT_LEADER = 2"
| "error_value RAFT_E_LEADERSHIP_LOST = 3"
| "error_value RAFT_E_SHUTDOWN = 4"
| "error_value RAFT_E_ENQUEUE_TIMEOUT = 5"
| "error_value RAFT_E_KNOWN_PEER = 6"
| "error_value RAFT_E_UNKNOWN_PEER = 7"
| "error_value RAFT_E_LOG_NOT_FOUND = 8"
| "error_value RAFT_E_PIPELINE_REPLICATION_NOT_SUPP = 9"
| "error_value RAFT_E_TRANSPORT_SHUTDOWN = 10"
| "error_value RAFT_E_PIPELINE_SHUTDOWN = 11"
| "error_value RAFT_E_OTHER = 12"
| "error_value RAFT_E_INVALID_OP = 13"
| "error_value RAFT_E_INVALID_ADDRESS = 14"
| "error_value RAFT_E_RESOLVE = 15"
| "error_value RAFT_E_IN_SHUTDOWN = 16"

fun state_value :: "RaftState \<Rightarrow> nat" where
  "state_value RAFT_INVALID_STATE = 0"
| "state_value RAFT_FOLLOWER = 1"
| "state_value RAFT_CANDIDATE = 2"
| "state_value RAFT_LEADER = 3"
| "state_value RAFT_SHUTDOWN = 4"

text \<open>\<^verbatim>\<open>enum class CallTag : uint8_t\<close>; the FSM calls start at 100.\<close>

datatype CallTag =
    Tag_Invalid | Tag_Apply | Tag_Barrier | Tag_VerifyLeader | Tag_GetState | Tag_LastContact
  | Tag_LastIndex | Tag_GetLeader | Tag_AddPeer | Tag_RemovePeer | Tag_SetPeers | Tag_Shutdown
  | Tag_Snapshot | Tag_Stats | Tag_FSMApply | Tag_FSMSnapshot | Tag_FSMRestore

fun tag_value :: "CallTag \<Rightarrow> u8" where
  "tag_value Tag_Invalid = 0"
| "tag_value Tag_Apply = 1"
| "tag_value Tag_Barrier = 2"
| "tag_value Tag_VerifyLeader = 3"
| "tag_value Tag_GetState = 4"
| "tag_value Tag_LastContact = 5"
| "tag_value Tag_LastIndex = 6"
| "tag_value Tag_GetLeader = 7"
| "tag_value Tag_AddPeer = 8"
| "tag_value Tag_RemovePeer = 9"
| "tag_value Tag_SetPeers = 10"
| "tag_value Tag_Shutdown = 11"
| "tag_value Tag_Snapshot = 12"
| "tag_value Tag_Stats = 13"
| "tag_value Tag_FSMApply = 100"
| "tag_value Tag_FSMSnapshot = 101"
| "tag_value Tag_FSMRestore = 102"

datatype CallState = Pending | Dispatched | Success | Error

datatype ClientState = Issued | Observed | Abandoned

fun is_terminal :: "CallState \<Rightarrow> bool" where
  "is_terminal Pending = False"
| "is_terminal Dispatched = False"
| "is_terminal Success = True"
| "is_terminal Error = True"

section \<open>Call arguments\<close>

record ApplyArgs =
  cmd_buf :: addr
  cmd_len :: u64
  timeout_ns :: u64

record LogEntry =
  log_index :: u64
  log_term :: u64
  log_type :: RaftLogType
  data_buf :: addr
  data_len :: u64

text \<open>\<^verbatim>\<open>Filename\<close> and \<^verbatim>\<open>NetworkAddr\<close> hold 256-byte arrays. Their constructors run in memory that
  is not cleared: \<open>mem\<close> is what the array held.\<close>

record Filename =
  fn_path :: "char list"

record NetworkAddr =
  na_host :: "char list"
  na_port :: u16

definition Filename_MAXLEN :: nat where
  "Filename_MAXLEN = 255"

definition mk_Filename :: "char list \<Rightarrow> string \<Rightarrow> Filename" where
  "mk_Filename mem p = \<lparr>fn_path = strncpy mem p Filename_MAXLEN\<rparr>"

definition mk_NetworkAddr :: "char list \<Rightarrow> string \<Rightarrow> u16 \<Rightarrow> NetworkAddr" where
  "mk_NetworkAddr mem h p = \<lparr>na_host = strncpy mem h 255, na_port = p\<rparr>"

definition mk_ApplyArgs :: "addr \<Rightarrow> u64 \<Rightarrow> u64 \<Rightarrow> ApplyArgs" where
  "mk_ApplyArgs b l t = \<lparr>cmd_buf = b, cmd_len = l, timeout_ns = t\<rparr>"

definition mk_LogEntry :: "u64 \<Rightarrow> u64 \<Rightarrow> RaftLogType \<Rightarrow> addr \<Rightarrow> u64 \<Rightarrow> LogEntry" where
  "mk_LogEntry i t ty b l = \<lparr>log_index = i, log_term = t, log_type = ty, data_buf = b, data_len = l\<rparr>"

datatype call_args =
    NoArgs
  | Args_Apply ApplyArgs
  | Args_Barrier u64
  | Args_Log LogEntry
  | Args_File Filename
  | Args_Addr NetworkAddr

section \<open>The call tables\<close>

datatype arg_type = T_ApplyArgs | T_BarrierArgs | T_NoArgs | T_NetworkAddr | T_LogEntry | T_Filename

type_synonym call_row = "string \<times> CallTag \<times> arg_type \<times> bool"

definition raft_api_calls :: "call_row list" where
  "raft_api_calls =
    [(''Apply'', Tag_Apply, T_ApplyArgs, True),
     (''Barrier'', Tag_Barrier, T_BarrierArgs, True),
     (''VerifyLeader'', Tag_VerifyLeader, T_NoArgs, False),
     (''GetState'', Tag_GetState, T_NoArgs, True),
     (''LastContact'', Tag_LastContact, T_NoArgs, True),
     (''LastIndex'', Tag_LastIndex, T_NoArgs, True),
     (''GetLeader'', Tag_GetLeader, T_NoArgs, True),
     (''Snapshot'', Tag_Snapshot, T_NoArgs, False),
     (''Stats'', Tag_Stats, T_NoArgs, True),
     (''AddPeer'', Tag_AddPeer, T_NetworkAddr, False),
     (''RemovePeer'', Tag_RemovePeer, T_NetworkAddr, False),
     (''Shutdown'', Tag_Shutdown, T_NoArgs, False)]"

definition raft_fsm_calls :: "call_row list" where
  "raft_fsm_calls =
    [(''FSMApply'', Tag_FSMApply, T_LogEntry, True),
     (''FSMSnapshot'', Tag_FSMSnapshot, T_Filename, False),
     (''FSMRestore'', Tag_FSMRestore, T_Filename, False)]"

text \<open>\<^verbatim>\<open>Call::has_ret\<close> of the struct that the macro \<^verbatim>\<open>api_call\<close> defines for a row.\<close>

definition has_ret :: "CallTag \<Rightarrow> bool" where
  "has_ret t = (case find (\<lambda>(_, t', _). t' = t) (raft_api_calls @ raft_fsm_calls) of
      Some (_, _, _, h) \<Rightarrow> h | None \<Rightarrow> False)"

lemma has_ret_simps [simp]:
  "has_ret Tag_Apply" "has_ret Tag_Barrier" "\<not> has_ret Tag_VerifyLeader" "has_ret Tag_GetState"
  "has_ret Tag_LastContact" "has_ret Tag_LastIndex" "has_ret Tag_GetLeader" "\<not> has_ret Tag_Snapshot"
  "has_ret Tag_Stats" "\<not> has_ret Tag_AddPeer" "\<not> has_ret Tag_RemovePeer" "\<not> has_ret Tag_Shutdown"
  "has_ret Tag_FSMApply" "\<not> has_ret Tag_FSMSnapshot" "\<not> has_ret Tag_FSMRestore"
  by (simp_all add: has_ret_def raft_api_calls_def raft_fsm_calls_def)

section \<open>Tag names\<close>

definition make_tag_names :: "string list" where
  "make_tag_names = fold (\<lambda>(n, t, _) names. names[unat (tag_value t) := n])
     (raft_api_calls @ raft_fsm_calls) (replicate 256 ''*invalid*'')"

definition tag_name :: "u8 \<Rightarrow> string" where
  "tag_name t = make_tag_names ! unat t"

lemma fold_update_nth:
  assumes "distinct (map f xs)" and "\<forall>x \<in> set xs. f x < length ns" and "k < length ns"
  shows "fold (\<lambda>x names. names[f x := g x]) xs ns ! k =
     (case find (\<lambda>x. f x = k) xs of Some x \<Rightarrow> g x | None \<Rightarrow> ns ! k)"
  using assms
proof (induction xs arbitrary: ns)
  case Nil
  then show ?case by simp
next
  case (Cons x xs)
  show ?case
  proof (cases "f x = k")
    case True
    then have "find (\<lambda>x. f x = k) xs = None"
      using Cons.prems(1) unfolding find_None_iff by (metis distinct.simps(2) image_eqI list.set_map list.simps(9))
    with True Cons show ?thesis by simp
  next
    case False
    with Cons show ?thesis by (simp split: option.split)
  qed
qed

text \<open>
  The table behind \<^verbatim>\<open>tag_name\<close> gives each tag of the call tables its own name, and every
  other 8-bit value (a tag with no call, or no tag at all) the text \<^verbatim>\<open>*invalid*\<close>; the lookup is
  in range for every value.
\<close>

lemma tag_name_table:
  "unat t < length make_tag_names \<and>
   tag_name t = (case find (\<lambda>(_, c, _). tag_value c = t) (raft_api_calls @ raft_fsm_calls) of
      Some (n, _) \<Rightarrow> n | None \<Rightarrow> ''*invalid*'')"
proof
  let ?cs = "raft_api_calls @ raft_fsm_calls"
  have ut: "unat t < 2 ^ LENGTH(8)" by (rule unsigned_less)
  have len: "length (fold (\<lambda>(n, t, _) names. names[unat (tag_value t) := n]) cs ns) = length ns"
    for cs :: "call_row list" and ns
    by (induction cs arbitrary: ns) auto
  show "unat t < length make_tag_names"
    using ut by (simp add: make_tag_names_def len)
  have "tag_name t = fold (\<lambda>x names. names[unat (tag_value (fst (snd x))) := fst x]) ?cs (replicate 256 ''*invalid*'') ! unat t"
    by (simp only: tag_name_def make_tag_names_def case_prod_unfold)
  also have "\<dots> = (case find (\<lambda>x. unat (tag_value (fst (snd x))) = unat t) ?cs of
      Some x \<Rightarrow> fst x | None \<Rightarrow> replicate 256 ''*invalid*'' ! unat t)"
    by (rule fold_update_nth)
      (use ut in \<open>auto simp: raft_api_calls_def raft_fsm_calls_def\<close>)
  also have "\<dots> = (case find (\<lambda>(_, c, _). tag_value c = t) ?cs of Some (n, _) \<Rightarrow> n | None \<Rightarrow> ''*invalid*'')"
    using ut by (simp add: word_unat_eq_iff case_prod_unfold split: option.split)
  finally show "tag_name t = (case find (\<lambda>(_, c, _). tag_value c = t) ?cs of Some (n, _) \<Rightarrow> n | None \<Rightarrow> ''*invalid*'')" .
qed

section \<open>Error messages\<close>

text \<open>\<^verbatim>\<open>err_msgs\<close> is a vector of C string pointers; \<open>None\<close> is the null pointer that the vector is
  filled with first.\<close>

definition init_err_msgs :: "string option list" where
  "init_err_msgs = fold (\<lambda>(e, m) ms. ms[error_value e := Some m])
    [(RAFT_SUCCESS, ''success''),
     (RAFT_E_LEADER, ''node is the leader''),
     (RAFT_E_NOT_LEADER, ''node is not the leader''),
     (RAFT_E_LEADERSHIP_LOST, ''leadership lost while committing log''),
     (RAFT_E_SHUTDOWN, ''raft is already shutdown''),
     (RAFT_E_ENQUEUE_TIMEOUT, ''timed out enqueuing operation''),
     (RAFT_E_KNOWN_PEER, ''peer already known''),
     (RAFT_E_UNKNOWN_PEER, ''peer is unknown''),
     (RAFT_E_LOG_NOT_FOUND, ''log not found''),
     (RAFT_E_PIPELINE_REPLICATION_NOT_SUPP, ''pipeline replication not supported''),
     (RAFT_E_TRANSPORT_SHUTDOWN, ''transport shutdown''),
     (RAFT_E_PIPELINE_SHUTDOWN, ''append pipeline closed''),
     (RAFT_E_OTHER, ''undetermined error''),
     (RAFT_E_INVALID_OP, ''invalid operation for call''),
     (RAFT_E_INVALID_ADDRESS, ''invalid address'')]
    (replicate N_RAFT_ERRORS None)"

definition raft_err_msg :: "string option list \<Rightarrow> nat \<Rightarrow> string option" where
  "raft_err_msg err_msgs err = (if err < length err_msgs then err_msgs ! err else Some ''Unknown error'')"

text \<open>
  After \<^verbatim>\<open>init_err_msgs\<close>, \<^verbatim>\<open>raft_err_msg\<close> returns a message for every error of the
  enumeration except \<^verbatim>\<open>RAFT_E_RESOLVE\<close> and \<^verbatim>\<open>RAFT_E_IN_SHUTDOWN\<close>, for which it returns a null
  pointer; a value past the enumeration gets the text for an unknown error.
\<close>

lemma raft_err_msg_null:
  "(raft_err_msg init_err_msgs (error_value e) = None \<longleftrightarrow> e = RAFT_E_RESOLVE \<or> e = RAFT_E_IN_SHUTDOWN) \<and>
   raft_err_msg init_err_msgs (N_RAFT_ERRORS + k) = Some ''Unknown error''"
proof
  have l: "length init_err_msgs = 17"
    by (simp add: init_err_msgs_def N_RAFT_ERRORS_def)
  then show "raft_err_msg init_err_msgs (N_RAFT_ERRORS + k) = Some ''Unknown error''"
    by (simp add: raft_err_msg_def N_RAFT_ERRORS_def)
  show "raft_err_msg init_err_msgs (error_value e) = None \<longleftrightarrow> e = RAFT_E_RESOLVE \<or> e = RAFT_E_IN_SHUTDOWN"
    by (cases e) (simp_all add: raft_err_msg_def l, simp_all add: init_err_msgs_def N_RAFT_ERRORS_def)
qed

end
