(* ===== verification/Timing.thy ===== *)
theory Timing
  imports Raft_Prelude
begin

text \<open>
  The class \<^verbatim>\<open>Timings\<close> of \<^verbatim>\<open>src/raft_shm.h\<close> and \<^verbatim>\<open>src/raft_shm.cc\<close>: a fixed array of 32 tagged
  time stamps that every call slot carries. Time points are nanoseconds. The constructor that
  takes a time point leaves the array as the memory was; \<open>mem\<close> is what it held.
\<close>

section \<open>State and operations\<close>

record timing_entry =
  te_tag :: "char list"
  te_ts :: int

record Timings =
  n_entries :: u32
  t_entries :: "timing_entry list"

definition MAX_ENT :: u32 where
  "MAX_ENT = 32"

text \<open>Value initialisation, as in the member initialiser \<^verbatim>\<open>timings()\<close>, zeroes the object.\<close>

definition timings_zero :: Timings where
  "timings_zero = \<lparr>n_entries = 0, t_entries = replicate 32 \<lparr>te_tag = replicate 20 NUL, te_ts = 0\<rparr>\<rparr>"

definition timings_record :: "string \<Rightarrow> int \<Rightarrow> Timings \<Rightarrow> Timings" where
  "timings_record tag t T =
     (if n_entries T < MAX_ENT
      then let i = unat (n_entries T); ent = t_entries T ! i
           in T\<lparr>n_entries := n_entries T + 1,
                t_entries := (t_entries T)[i := ent\<lparr>te_ts := t, te_tag := strncpy (te_tag ent) tag 19\<rparr>]\<rparr>
      else T)"

definition timings_at :: "timing_entry list \<Rightarrow> int \<Rightarrow> Timings" where
  "timings_at mem t = timings_record ''start'' t \<lparr>n_entries = 0, t_entries = mem\<rparr>"

text \<open>\<^verbatim>\<open>duration_cast\<close> to microseconds truncates towards zero.\<close>

definition to_us :: "int \<Rightarrow> int" where
  "to_us d = sgn d * (\<bar>d\<bar> div 1000)"

datatype timing_out =
    Quiet
  | No_timing_data
  | Timing_lines "(char list \<times> int \<times> int) list"

fun timing_lines :: "int \<Rightarrow> int \<Rightarrow> timing_entry list \<Rightarrow> (char list \<times> int \<times> int) list" where
  "timing_lines start prev [] = []"
| "timing_lines start prev (e # es) =
     (te_tag e, to_us (te_ts e - start), to_us (te_ts e - prev)) # timing_lines start (te_ts e) es"

definition timings_print :: "bool \<Rightarrow> Timings \<Rightarrow> timing_out" where
  "timings_print msg_timing T =
     (if \<not> msg_timing then Quiet
      else if n_entries T \<le> 1 then No_timing_data
      else let start = te_ts (t_entries T ! 0)
           in Timing_lines (timing_lines start start (drop 1 (take (unat (n_entries T)) (t_entries T)))))"

section \<open>What the array records\<close>

definition timings_wf :: "Timings \<Rightarrow> bool" where
  "timings_wf T \<longleftrightarrow> unat (n_entries T) \<le> 32 \<and> length (t_entries T) = 32"

definition timings_log :: "Timings \<Rightarrow> (char list \<times> int) list" where
  "timings_log T = map (\<lambda>e. (te_tag e, te_ts e)) (take (unat (n_entries T)) (t_entries T))"

lemma MAX_ENT_less: "n < MAX_ENT \<longleftrightarrow> unat n < 32"
  by (simp add: MAX_ENT_def word_less_nat_alt)

lemma timings_record_wf: "timings_wf T \<Longrightarrow> timings_wf (timings_record tag t T)"
proof (cases "n_entries T < MAX_ENT")
  case True
  then have "unat (n_entries T + 1) = unat (n_entries T) + 1" "unat (n_entries T) < 32"
    by (simp_all add: MAX_ENT_less unat_word_ariths)
  with True show "timings_wf T \<Longrightarrow> timings_wf (timings_record tag t T)"
    by (simp add: timings_record_def timings_wf_def Let_def)
qed (simp add: timings_record_def)

lemma timings_record_log:
  assumes "timings_wf T"
  shows "timings_log (timings_record tag t T) =
    (if unat (n_entries T) < 32
     then timings_log T @ [(strncpy (te_tag (t_entries T ! unat (n_entries T))) tag 19, t)]
     else timings_log T)"
proof (cases "unat (n_entries T) < 32")
  case True
  then have "unat (n_entries T + 1) = Suc (unat (n_entries T))"
    by (simp add: unat_word_ariths)
  with True assms show ?thesis
    by (simp add: timings_record_def timings_log_def timings_wf_def Let_def MAX_ENT_less take_Suc_conv_app_nth)
next
  case False
  then show ?thesis by (simp add: timings_record_def MAX_ENT_less)
qed

lemma length_timings_log: "timings_wf T \<Longrightarrow> length (timings_log T) = unat (n_entries T)"
  by (simp add: timings_log_def timings_wf_def)

lemma timings_run_log:
  "timings_wf T \<Longrightarrow> timings_wf (fold (\<lambda>(tag, t). timings_record tag t) rs T) \<and>
     map snd (timings_log (fold (\<lambda>(tag, t). timings_record tag t) rs T)) =
     take 32 (map snd (timings_log T) @ map snd rs)"
proof (induction rs arbitrary: T)
  case Nil
  then show ?case by (simp add: length_timings_log timings_wf_def)
next
  case (Cons r rs)
  obtain tag t where r: "r = (tag, t)" by (cases r)
  show ?case
  proof (cases "unat (n_entries T) < 32")
    case True
    then obtain m where m: "32 - unat (n_entries T) = Suc m" "31 - unat (n_entries T) = m"
      by (intro that [of "31 - unat (n_entries T)"]) auto
    with True Cons show ?thesis
      by (simp add: r timings_record_wf timings_record_log length_timings_log [OF Cons.prems])
  next
    case False
    with Cons.prems have "length (timings_log T) = 32"
      by (simp add: length_timings_log timings_wf_def)
    moreover have "timings_record tag t T = T"
      using False by (simp add: timings_record_def MAX_ENT_less)
    ultimately show ?thesis using Cons by (simp add: r)
  qed
qed

lemma timings_at_wf: "length mem = 32 \<Longrightarrow> timings_wf (timings_at mem t)"
  unfolding timings_at_def by (rule timings_record_wf) (simp add: timings_wf_def)

text \<open>
  C35. A slot's timing log is bounded and faithful: after the constructor and any sequence of
  \<^verbatim>\<open>record\<close> calls the array still has 32 entries, at most 32 are in use, and the stamps in use
  are the start time followed by the recorded times in order, cut off after the first 32.
\<close>

theorem timings_keep_first_32:
  assumes "length mem = 32"
  shows "timings_wf (fold (\<lambda>(tag, t). timings_record tag t) rs (timings_at mem t0)) \<and>
    map snd (timings_log (fold (\<lambda>(tag, t). timings_record tag t) rs (timings_at mem t0))) =
    take 32 (t0 # map snd rs)"
proof -
  have "map snd (timings_log (timings_at mem t0)) = [t0]"
    unfolding timings_at_def
    by (subst timings_record_log) (simp_all add: timings_wf_def assms timings_log_def)
  with timings_run_log [OF timings_at_wf [OF assms], of rs t0] show ?thesis by simp
qed

definition demo_mem :: "timing_entry list" where
  "demo_mem = replicate 32 \<lparr>te_tag = replicate 20 CHR ''x'', te_ts = 0\<rparr>"

theorem timings_keep_first_32_witness:
  "map snd (timings_log (fold (\<lambda>(tag, t). timings_record tag t) [(''constructed'', 7), (''reply sent'', 9)] (timings_at demo_mem 5))) = [5, 7, 9]"
  using timings_keep_first_32 [of demo_mem "[(''constructed'', 7), (''reply sent'', 9)]" 5]
  by (simp add: demo_mem_def)

text \<open>
  A tag of 19 or more characters is stored without a terminator unless the memory already
  held one: the tag array of the entry that \<^verbatim>\<open>record\<close> writes reads back as a C string of the
  first 19 characters if byte 19 of the array was NUL, and runs past the array otherwise.
\<close>

lemma timings_tag_terminator:
  assumes "timings_wf T" and "unat (n_entries T) < 32"
    and "length (te_tag (t_entries T ! unat (n_entries T))) = 20"
    and "is_cstring tag" and "19 \<le> length tag"
  shows "cstr (fst (last (timings_log (timings_record tag t T)))) =
    (if te_tag (t_entries T ! unat (n_entries T)) ! 19 = NUL then Some (take 19 tag) else None)"
  using assms cstr_strncpy_long [OF assms(4,5)] by (simp add: timings_record_log)

lemma timings_tag_terminator_witness:
  "cstr (fst (last (timings_log (timings_record ''FSM command applied'' 9 (timings_at demo_mem 5))))) = None"
proof -
  let ?T = "timings_at demo_mem 5"
  have d: "length demo_mem = 32" by (simp add: demo_mem_def)
  have T: "n_entries ?T = 1" "t_entries ?T ! Suc 0 = \<lparr>te_tag = replicate 20 CHR ''x'', te_ts = 0\<rparr>"
    by (simp_all add: timings_at_def timings_record_def MAX_ENT_def Let_def demo_mem_def)
  have "replicate 20 CHR ''x'' ! 19 = CHR ''x''" by simp
  then show ?thesis
    using timings_tag_terminator [OF timings_at_wf [OF d], of 5 "''FSM command applied''" 9]
    by (simp add: T is_cstring_def NUL_def)
qed

end
