(* ===== verification/CLib.thy ===== *)
theory CLib
  imports Raft_Prelude
begin

text \<open>
  What the program uses of the C library's text functions, in the C locale: character classes,
  decimal output, \<^verbatim>\<open>strtoul\<close> and \<^verbatim>\<open>atoi\<close> with their overflow behaviour, and the conversion \<^verbatim>\<open>%u\<close> of
  \<^verbatim>\<open>fscanf\<close>. Strings are lists of the characters before the terminator.
\<close>

section \<open>Characters\<close>

definition code :: "char \<Rightarrow> nat" where
  "code c = of_char c"

definition isdigit :: "char \<Rightarrow> bool" where
  "isdigit c \<longleftrightarrow> 48 \<le> code c \<and> code c \<le> 57"

definition isalpha :: "char \<Rightarrow> bool" where
  "isalpha c \<longleftrightarrow> 65 \<le> code c \<and> code c \<le> 90 \<or> 97 \<le> code c \<and> code c \<le> 122"

definition isspace :: "char \<Rightarrow> bool" where
  "isspace c \<longleftrightarrow> 9 \<le> code c \<and> code c \<le> 13 \<or> code c = 32"

definition digit_char :: "nat \<Rightarrow> char" where
  "digit_char d = char_of (48 + d)"

section \<open>Numbers\<close>

fun dec_digits :: "nat \<Rightarrow> string" where
  "dec_digits n = (if n < 10 then [digit_char n] else dec_digits (n div 10) @ [digit_char (n mod 10)])"

declare dec_digits.simps [simp del]

definition dec_value :: "string \<Rightarrow> nat" where
  "dec_value ds = foldl (\<lambda>v c. 10 * v + (code c - 48)) 0 ds"

definition scan_sign :: "string \<Rightarrow> bool \<times> string" where
  "scan_sign s = (case s of
      [] \<Rightarrow> (False, [])
    | c # cs \<Rightarrow> if c = CHR ''-'' then (True, cs) else if c = CHR ''+'' then (False, cs) else (False, s))"

text \<open>Sign, digits and rest of a decimal number after white space; no number if there is no digit.\<close>

definition scan_dec :: "string \<Rightarrow> (bool \<times> nat \<times> string) option" where
  "scan_dec s = (let (neg, u) = scan_sign (dropWhile isspace s); ds = takeWhile isdigit u
     in if ds = [] then None else Some (neg, dec_value ds, dropWhile isdigit u))"

text \<open>\<^verbatim>\<open>strtoul(s, &endp, 10)\<close>: the value and the text at \<^verbatim>\<open>endp\<close>.\<close>

definition strtoul :: "string \<Rightarrow> u64 \<times> string" where
  "strtoul s = (case scan_dec s of
      None \<Rightarrow> (0, s)
    | Some (neg, v, rest) \<Rightarrow> (if 2 ^ 64 \<le> v then - 1 else if neg then - of_nat v else of_nat v, rest))"

text \<open>\<^verbatim>\<open>atoi\<close> is \<^verbatim>\<open>strtol\<close>, which saturates, converted to \<^verbatim>\<open>int\<close>.\<close>

definition strtol :: "string \<Rightarrow> int" where
  "strtol s = (case scan_dec s of
      None \<Rightarrow> 0
    | Some (neg, v, rest) \<Rightarrow> max (- (2 ^ 63)) (min (2 ^ 63 - 1) (if neg then - int v else int v)))"

definition atoi :: "string \<Rightarrow> u32" where
  "atoi s = word_of_int (strtol s)"

text \<open>\<^verbatim>\<open>fscanf(f, "%u", &v)\<close>: the number is read as an unsigned long and stored in 32 bits.\<close>

definition fscanf_u :: "string \<Rightarrow> u32 option" where
  "fscanf_u s = (case scan_dec s of None \<Rightarrow> None | Some _ \<Rightarrow> Some (ucast (fst (strtoul s))))"

section \<open>Reading back what was printed\<close>

lemma code_digit_char: "d < 10 \<Longrightarrow> code (digit_char d) = 48 + d"
  by (simp add: code_def digit_char_def)

lemma isdigit_digit_char: "d < 10 \<Longrightarrow> isdigit (digit_char d)"
  by (simp add: isdigit_def code_digit_char)

lemma dec_digits_isdigit: "list_all isdigit (dec_digits n)"
  by (induction n rule: dec_digits.induct) (simp add: dec_digits.simps isdigit_digit_char)

lemma dec_digits_ne: "dec_digits n \<noteq> []"
  by (simp add: dec_digits.simps)

lemma dec_value_snoc: "dec_value (ds @ [c]) = 10 * dec_value ds + (code c - 48)"
  by (simp add: dec_value_def)

lemma dec_value_digits [simp]: "dec_value (dec_digits n) = n"
proof (induction n rule: dec_digits.induct)
  case (1 n)
  show ?case
  proof (cases "n < 10")
    case True
    then show ?thesis by (simp add: dec_digits.simps dec_value_def code_digit_char)
  next
    case False
    with 1 show ?thesis by (simp add: dec_digits.simps [of n] dec_value_snoc code_digit_char)
  qed
qed

lemma digit_not_space_sign:
  assumes "isdigit c"
  shows "\<not> isspace c" "c \<noteq> CHR ''-''" "c \<noteq> CHR ''+''"
  using assms by (auto simp: isdigit_def isspace_def code_def)

definition no_digit :: "string \<Rightarrow> bool" where
  "no_digit s \<longleftrightarrow> (case s of [] \<Rightarrow> True | c # _ \<Rightarrow> \<not> isdigit c)"

lemma takeWhile_digits:
  "list_all isdigit ds \<Longrightarrow> no_digit rest \<Longrightarrow> takeWhile isdigit (ds @ rest) = ds \<and> dropWhile isdigit (ds @ rest) = rest"
  by (induction ds) (auto simp: no_digit_def split: list.splits)

lemma scan_dec_print: "no_digit rest \<Longrightarrow> scan_dec (dec_digits n @ rest) = Some (False, n, rest)"
proof -
  assume r: "no_digit rest"
  obtain c cs where c: "dec_digits n = c # cs" using dec_digits_ne by (cases "dec_digits n") auto
  with dec_digits_isdigit [of n] have "isdigit c" by simp
  note digit_not_space_sign [OF this]
  then have "scan_sign (dropWhile isspace (dec_digits n @ rest)) = (False, dec_digits n @ rest)"
    by (simp add: c scan_sign_def)
  with takeWhile_digits [OF dec_digits_isdigit r] show ?thesis
    by (simp add: scan_dec_def dec_digits_ne)
qed

lemma strtoul_print:
  "no_digit rest \<Longrightarrow> strtoul (dec_digits n @ rest) = (if 2 ^ 64 \<le> n then - 1 else of_nat n, rest)"
  by (simp add: strtoul_def scan_dec_print)

lemma fscanf_u_print: "no_digit rest \<Longrightarrow> fscanf_u (dec_digits (unat v) @ rest) = Some v"
proof -
  assume r: "no_digit rest"
  have u: "unat v < 2 ^ LENGTH(32)" by (rule unsigned_less)
  then have "\<not> 2 ^ 64 \<le> unat v" by simp
  with r u show ?thesis
    by (simp add: fscanf_u_def scan_dec_print strtoul_print word_unat_eq_iff unsigned_ucast_eq take_bit_nat_eq_self unat_of_nat
        take_bit_word_eq_self)
qed

end
