(* ===== verification/Config.thy ===== *)
theory Config
  imports CLib
begin

text \<open>
  The configuration of \<^verbatim>\<open>src/raft_defs.h\<close> and \<^verbatim>\<open>src/config.cc\<close>: the defaults, the long options that
  change them, and the option functions of the C interface. A null pointer argument is \<open>None\<close>, a
  failed assertion the left value \<open>Inl\<close>. The defaults are written into an object that the code
  does not clear; \<open>mem\<close> is what it held.
\<close>

section \<open>The structure\<close>

record RaftConfig =
  cfg_shm_path :: "char list"
  cfg_shm_size :: u64
  cfg_backend_type :: "char list"
  cfg_base_dir :: "char list"
  cfg_api_workers :: u32
  cfg_verbose :: bool
  cfg_listen_port :: u16
  cfg_peers :: "char list"
  HeartbeatTimeout :: u64
  ElectionTimeout :: u64
  CommitTimeout :: u64
  MaxAppendEntries :: u32
  ShutdownOnRemove :: bool
  DisableBootstrapAfterElect :: bool
  TrailingLogs :: u64
  SnapshotInterval :: u64
  SnapshotThreshold :: u64
  EnableSingleNode :: bool
  LeaderLeaseTimeout :: u64
  LogOutput :: "char list"
  RetainSnapshots :: u32

definition SHM_PATH :: string where
  "SHM_PATH = ''/tmp/raft_shm''"

definition SHM_SIZE :: u64 where
  "SHM_SIZE = 64 * 1024 * 1024"

definition default_config :: "RaftConfig \<Rightarrow> RaftConfig" where
  "default_config mem =
     (let US = 1000; MS = 1000 * US; S = 1000 * MS; M = 60 * S
      in mem\<lparr>cfg_shm_path := strncpy (cfg_shm_path mem) SHM_PATH 255,
             cfg_shm_size := SHM_SIZE,
             cfg_backend_type := strncpy (cfg_backend_type mem) ''boltdb'' 15,
             cfg_base_dir := (cfg_base_dir mem)[0 := NUL],
             cfg_api_workers := 4,
             cfg_verbose := False,
             cfg_peers := (cfg_peers mem)[0 := NUL],
             cfg_listen_port := 9001,
             HeartbeatTimeout := 1 * S,
             ElectionTimeout := 1 * S,
             CommitTimeout := 50 * MS,
             MaxAppendEntries := 64,
             ShutdownOnRemove := True,
             DisableBootstrapAfterElect := True,
             TrailingLogs := 10240,
             SnapshotInterval := 2 * M,
             SnapshotThreshold := 8192,
             EnableSingleNode := False,
             LeaderLeaseTimeout := 500 * MS,
             RetainSnapshots := 8\<rparr>)"

section \<open>Options\<close>

datatype Getopt = ShmPath | ShmSize | Dir | Port | Single | Peers | Verbose | Backend | END_OPTS

fun getopt_value :: "Getopt \<Rightarrow> int" where
  "getopt_value ShmPath = 0xb0000"
| "getopt_value ShmSize = 0xb0001"
| "getopt_value Dir = 0xb0002"
| "getopt_value Port = 0xb0003"
| "getopt_value Single = 0xb0004"
| "getopt_value Peers = 0xb0005"
| "getopt_value Verbose = 0xb0006"
| "getopt_value Backend = 0xb0007"
| "getopt_value END_OPTS = 0xb0008"

datatype has_arg = no_argument | required_argument | optional_argument

record option_row =
  opt_name :: string
  opt_has_arg :: has_arg
  opt_val :: int

definition raft_LONG_OPTS :: "option_row list" where
  "raft_LONG_OPTS =
    [\<lparr>opt_name = ''shm-path'', opt_has_arg = required_argument, opt_val = getopt_value ShmPath\<rparr>,
     \<lparr>opt_name = ''shm-size'', opt_has_arg = required_argument, opt_val = getopt_value ShmSize\<rparr>,
     \<lparr>opt_name = ''backend-type'', opt_has_arg = required_argument, opt_val = getopt_value Backend\<rparr>,
     \<lparr>opt_name = ''dir'', opt_has_arg = required_argument, opt_val = getopt_value Dir\<rparr>,
     \<lparr>opt_name = ''port'', opt_has_arg = required_argument, opt_val = getopt_value Port\<rparr>,
     \<lparr>opt_name = ''single'', opt_has_arg = no_argument, opt_val = getopt_value Single\<rparr>,
     \<lparr>opt_name = ''peers'', opt_has_arg = required_argument, opt_val = getopt_value Peers\<rparr>,
     \<lparr>opt_name = ''verbose'', opt_has_arg = no_argument, opt_val = getopt_value Verbose\<rparr>,
     \<lparr>opt_name = [], opt_has_arg = no_argument, opt_val = 0\<rparr>]"

definition is_valid :: "int \<Rightarrow> bool" where
  "is_valid opt \<longleftrightarrow> getopt_value ShmPath \<le> opt \<and> opt < getopt_value END_OPTS"

definition parse_size :: "string \<Rightarrow> u64" where
  "parse_size spec = (case strtoul spec of (coeff, endp) \<Rightarrow>
     (case endp of
        [] \<Rightarrow> coeff
      | c # _ \<Rightarrow>
          if c = CHR ''k'' \<or> c = CHR ''K'' then coeff * 1024
          else if c = CHR ''m'' \<or> c = CHR ''M'' then coeff * 1024 * 1024
          else if c = CHR ''g'' \<or> c = CHR ''G'' then coeff * 1024 * 1024 * 1024
          else coeff))"

definition need_arg :: "string option \<Rightarrow> (string \<Rightarrow> RaftConfig) \<Rightarrow> fault + int \<times> RaftConfig" where
  "need_arg arg f = (case arg of None \<Rightarrow> Inl Assert_failed | Some a \<Rightarrow> Inr (0, f a))"

definition arg_apply :: "RaftConfig \<Rightarrow> int \<Rightarrow> string option \<Rightarrow> fault + int \<times> RaftConfig" where
  "arg_apply cfg opt arg =
     (if opt = getopt_value ShmPath then
        need_arg arg (\<lambda>a. cfg\<lparr>cfg_shm_path := strncpy (cfg_shm_path cfg) a 255\<rparr>)
      else if opt = getopt_value ShmSize then
        need_arg arg (\<lambda>a. cfg\<lparr>cfg_shm_size := parse_size a\<rparr>)
      else if opt = getopt_value Backend then
        need_arg arg (\<lambda>a. cfg\<lparr>cfg_backend_type := strncpy (cfg_backend_type cfg) a (16 - 1)\<rparr>)
      else if opt = getopt_value Dir then
        need_arg arg (\<lambda>a. cfg\<lparr>cfg_base_dir := strncpy (cfg_base_dir cfg) a 255\<rparr>)
      else if opt = getopt_value Port then
        need_arg arg (\<lambda>a. cfg\<lparr>cfg_listen_port := ucast (atoi a)\<rparr>)
      else if opt = getopt_value Single then Inr (0, cfg\<lparr>EnableSingleNode := True\<rparr>)
      else if opt = getopt_value Peers then
        need_arg arg (\<lambda>a. cfg\<lparr>cfg_peers := strncpy (cfg_peers cfg) a 255\<rparr>)
      else if opt = getopt_value Verbose then Inr (0, cfg\<lparr>cfg_verbose := True\<rparr>)
      else Inl Assert_failed)"

section \<open>The option functions of the C interface\<close>

definition raft_default_config :: "RaftConfig \<Rightarrow> RaftConfig" where
  "raft_default_config mem = default_config mem"

definition raft_getopt_long_opts :: "option_row list" where
  "raft_getopt_long_opts = raft_LONG_OPTS"

definition is_raft_option :: "int \<Rightarrow> bool" where
  "is_raft_option optkey = is_valid optkey"

definition raft_apply_option :: "RaftConfig option \<Rightarrow> int \<Rightarrow> string option \<Rightarrow> fault + int \<times> RaftConfig option" where
  "raft_apply_option cfg opt arg = (case cfg of
      None \<Rightarrow> Inr (1, None)
    | Some c \<Rightarrow>
        if \<not> is_valid opt then Inr (1, Some c)
        else (case arg_apply c opt arg of Inl e \<Rightarrow> Inl e | Inr (r, c') \<Rightarrow> Inr (r, Some c')))"

section \<open>Properties\<close>

text \<open>The sizes of the character arrays.\<close>

definition config_wf :: "RaftConfig \<Rightarrow> bool" where
  "config_wf c \<longleftrightarrow> length (cfg_shm_path c) = 256 \<and> length (cfg_backend_type c) = 16 \<and> length (cfg_base_dir c) = 256 \<and>
     length (cfg_peers c) = 256 \<and> length (LogOutput c) = 256"

lemma is_valid_cases:
  assumes "is_valid opt"
  obtains g where "opt = getopt_value g" "g \<noteq> END_OPTS"
proof -
  from assms have "opt \<in> {0xb0000, 0xb0001, 0xb0002, 0xb0003, 0xb0004, 0xb0005, 0xb0006, 0xb0007}"
    by (auto simp: is_valid_def)
  then show thesis
    using that [of ShmPath] that [of ShmSize] that [of Dir] that [of Port] that [of Single] that [of Peers]
      that [of Verbose] that [of Backend] by auto
qed


definition demo_config :: RaftConfig where
  "demo_config = \<lparr>cfg_shm_path = replicate 256 (CHR ''?''), cfg_shm_size = 0, cfg_backend_type = replicate 16 (CHR ''?''),
     cfg_base_dir = replicate 256 (CHR ''?''), cfg_api_workers = 0, cfg_verbose = False, cfg_listen_port = 0,
     cfg_peers = replicate 256 (CHR ''?''), HeartbeatTimeout = 0, ElectionTimeout = 0, CommitTimeout = 0,
     MaxAppendEntries = 0, ShutdownOnRemove = False, DisableBootstrapAfterElect = False, TrailingLogs = 0,
     SnapshotInterval = 0, SnapshotThreshold = 0, EnableSingleNode = False, LeaderLeaseTimeout = 0,
     LogOutput = replicate 256 (CHR ''?''), RetainSnapshots = 0\<rparr>"

lemma demo_config_wf: "config_wf demo_config"
  by (simp add: config_wf_def demo_config_def)


text \<open>What a configuration string reads as after an option wrote it.\<close>

definition copied_string :: "char list \<Rightarrow> nat \<Rightarrow> string \<Rightarrow> string option" where
  "copied_string old n a = (if length a < n then Some a else if old ! n = NUL then Some (take n a) else None)"

lemma cstr_strncpy_copied:
  assumes "is_cstring a" "length old = Suc n"
  shows "cstr (strncpy old a n) = copied_string old n a"
proof (cases "length a < n")
  case True
  with assms show ?thesis by (simp add: copied_string_def cstr_strncpy_short)
next
  case False
  with cstr_strncpy_long [of a n old] assms show ?thesis by (simp add: copied_string_def)
qed



text \<open>
  A size is the printed number times its unit, modulo 2 to the 64: plain, or followed by k, M
  or G in either case. The product wraps around without notice, so a size is exact only if it
  fits; a number that does not fit itself is read as the largest 64-bit value.
\<close>

lemma parse_size_units:
  "parse_size (dec_digits n) = (if 2 ^ 64 \<le> n then - 1 else of_nat n) \<and>
   (\<forall>(c, k) \<in> {(CHR ''k'', 2 ^ 10), (CHR ''K'', 2 ^ 10), (CHR ''m'', 2 ^ 20), (CHR ''M'', 2 ^ 20),
       (CHR ''g'', 2 ^ 30), (CHR ''G'', 2 ^ 30)}.
      n < 2 ^ 64 \<longrightarrow> unat (parse_size (dec_digits n @ [c])) = n * k mod 2 ^ 64)"
proof -
  have nd: "no_digit []" "no_digit [CHR ''k'']" "no_digit [CHR ''K'']" "no_digit [CHR ''m'']" "no_digit [CHR ''M'']"
    "no_digit [CHR ''g'']" "no_digit [CHR ''G'']"
    by (simp_all add: no_digit_def isdigit_def code_def)
  have "unat (of_nat n * of_nat k :: u64) = n * k mod 2 ^ 64" for k :: nat
    using unat_of_nat [where 'a = 64, of "n * k"] by simp
  from this [of "2 ^ 10"] this [of "2 ^ 20"] this [of "2 ^ 30"] strtoul_print [OF nd(1), of n] nd(2-) show ?thesis
    by (simp add: parse_size_def strtoul_print mult.assoc)
qed

lemma parse_size_units_witness:
  "unat (parse_size (dec_digits 64 @ [CHR ''M''])) = 67108864 \<and>
   parse_size (dec_digits (2 ^ 54) @ [CHR ''k'']) = 0"
proof -
  have "unat (parse_size (dec_digits (2 ^ 54) @ [CHR ''k''])) = 2 ^ 54 * 2 ^ 10 mod 2 ^ 64"
    using parse_size_units [of "2 ^ 54"] by simp
  then have "unat (parse_size (dec_digits (2 ^ 54) @ [CHR ''k''])) = 0" by simp
  with parse_size_units [of 64] show ?thesis by (simp add: unat_eq_0)
qed

text \<open>
  The port option keeps only the low 16 bits of its argument: a port number beyond 65535 is
  accepted and becomes its remainder modulo 65536.
\<close>

lemma port_option_truncates:
  assumes "n < 2 ^ 63"
  shows "\<exists>c'. raft_apply_option (Some c) (getopt_value Port) (Some (dec_digits n)) = Inr (0, Some c') \<and>
    unat (cfg_listen_port c') = n mod 2 ^ 16 \<and> c'\<lparr>cfg_listen_port := cfg_listen_port c\<rparr> = c"
proof -
  have "scan_dec (dec_digits n) = Some (False, n, [])"
    using scan_dec_print [of "[]" n] by (simp add: no_digit_def)
  moreover have "int n < 2 ^ 63" using assms by simp
  ultimately have "atoi (dec_digits n) = of_nat n"
    by (simp add: atoi_def strtol_def)
  then have "unat (ucast (atoi (dec_digits n)) :: u16) = n mod 2 ^ 16"
    by (simp add: unsigned_ucast_eq unat_of_nat take_bit_eq_mod mod_mod_cancel)
  then show ?thesis
    by (simp add: raft_apply_option_def is_valid_def arg_apply_def need_arg_def)
qed

lemma port_option_truncates_witness:
  "\<exists>c'. raft_apply_option (Some demo_config) (getopt_value Port) (Some (dec_digits 74537)) = Inr (0, Some c') \<and>
    unat (cfg_listen_port c') = 9001"
  using port_option_truncates [of 74537 demo_config] by auto

end
