(* ===== verification/World.thy ===== *)
theory World
  imports Queue Calls Timing Config
begin

text \<open>
  The state the client process and the Raft process share, and the shared-memory buffers:
  \<^verbatim>\<open>src/stats.h\<close>, the data members of \<^verbatim>\<open>BaseSlot\<close>, \<^verbatim>\<open>CallSlot\<close> and \<^verbatim>\<open>Scoreboard\<close> in
  \<^verbatim>\<open>src/raft_shm.h\<close>, the file-scope variables of \<^verbatim>\<open>src/raft_shm.cc\<close> and \<^verbatim>\<open>src/raft_c_if.cc\<close>, and
  \<^verbatim>\<open>in_shm_bounds\<close>, \<^verbatim>\<open>allocate_buf\<close> and \<^verbatim>\<open>free_buf\<close>. The Boost memory segment is not part of the
  repository: its allocation functions are the parameter \<open>boost\<close>, and what is used of them is
  the predicate \<open>boost_ok\<close>.
\<close>

section \<open>Statistics\<close>

record Stats =
  buffer_alloc :: u64
  buffer_free :: u64
  call_alloc :: u64
  call_free :: u64

text \<open>\<^verbatim>\<open>Counter::inc\<close>, a wrapping increment.\<close>

definition counter_inc :: "u64 \<Rightarrow> u64" where
  "counter_inc c = c + 1"

section \<open>Call slots\<close>

text \<open>\<open>sl_owned\<close> says that some thread holds the slot's mutex \<^verbatim>\<open>owned\<close>.\<close>

record slot =
  sl_tag :: CallTag
  sl_args :: call_args
  sl_state :: CallState
  sl_client_state :: ClientState
  sl_retval :: u64
  sl_error :: RaftError
  sl_timings :: Timings
  sl_owned :: bool

definition mk_slot :: "CallTag \<Rightarrow> call_args \<Rightarrow> slot" where
  "mk_slot t a = \<lparr>sl_tag = t, sl_args = a, sl_state = Pending, sl_client_state = Issued,
     sl_retval = 0, sl_error = RAFT_SUCCESS, sl_timings = timings_zero, sl_owned = False\<rparr>"

section \<open>The world\<close>

record SnapshotJob =
  job_slot :: addr
  job_handle :: addr
  job_func :: addr

text \<open>What happens to a slot's mutex and memory, as a history that no operation reads.\<close>

datatype slot_event = Ev_lock addr | Ev_unlock addr | Ev_free addr

text \<open>The threads of the client process.\<close>

datatype thread = T_fsm_worker | T_snapshot_worker | T_raft_watcher | T_orphan_gc

text \<open>
  The members of the scoreboard, the statistics, the slots and buffers in the shared segment,
  the queues and threads of the client process. \<open>w_mem\<close> is what uninitialised memory reads
  as, \<open>w_clock\<close> the clock, \<open>w_fsm\<close> the memory of the client's state machine, and \<open>w_printed\<close>
  what \<^verbatim>\<open>Timings::print\<close> wrote; \<open>w_files\<close> holds the contents of the snapshot files by path. \<open>w_fsm_worker\<close> and the three flags
  after it say that the thread object is joinable, \<open>w_finished\<close> which threads have returned;
  \<open>w_config\<close> is the configuration in the segment, \<open>w_mapped\<close> says that the segment is mapped, and
  \<open>w_log_cats\<close> names the log categories that have been looked up.
\<close>

record 'm world =
  w_slots :: "addr \<Rightarrow> slot option"
  w_bufs :: "addr \<Rightarrow> string option"
  w_is_raft_running :: bool
  w_is_leader :: bool
  w_shutdown_requested :: bool
  w_raft_killed :: bool
  w_msg_timing :: bool
  w_api_queue :: "(CallTag \<times> addr) abq"
  w_fsm_queue :: "(CallTag \<times> addr) abq"
  w_orphaned_calls :: "addr deque"
  w_orphan_backlog :: "addr list"
  w_snapshot_queue :: "SnapshotJob deque"
  w_stats :: Stats
  w_shm_base :: u64
  w_shm_size :: u64
  w_fsm_worker :: bool
  w_snapshot_worker :: bool
  w_raft_watcher :: bool
  w_orphan_gc_thread :: bool
  w_err_msgs :: "string option list"
  w_mem :: "nat \<Rightarrow> char"
  w_clock :: int
  w_fsm :: 'm
  w_trace :: "slot_event list"
  w_printed :: "timing_out list"
  w_files :: "string \<Rightarrow> string option"
  w_config :: "RaftConfig option"
  w_mapped :: bool
  w_raft_pid :: int
  w_log_cats :: "string list"
  w_finished :: "thread set"

type_synonym ('m, 'a) wop = "('m world, 'a) op"

definition garbage :: "nat \<Rightarrow> 'm world \<Rightarrow> char list" where
  "garbage n w = map (w_mem w) [0..<n]"

definition garbage_entries :: "'m world \<Rightarrow> timing_entry list" where
  "garbage_entries w = replicate 32 \<lparr>te_tag = garbage 20 w, te_ts = 0\<rparr>"

section \<open>The Boost memory segment\<close>

record 'm boost =
  bo_allocate_one :: "'m world \<Rightarrow> addr option"
  bo_allocate :: "'m world \<Rightarrow> u64 \<Rightarrow> addr option"
  bo_get_address_from_handle :: "'m world \<Rightarrow> u64 \<Rightarrow> addr"

definition in_shm_bounds :: "'m world \<Rightarrow> addr \<Rightarrow> bool" where
  "in_shm_bounds w p \<longleftrightarrow> w_shm_base w \<le> p \<and> p < w_shm_base w + w_shm_size w"

definition fresh_addr :: "'m world \<Rightarrow> addr \<Rightarrow> bool" where
  "fresh_addr w a \<longleftrightarrow> a \<noteq> 0 \<and> in_shm_bounds w a \<and> w_slots w a = None \<and> w_bufs w a = None"

text \<open>An allocation gives a non-null address inside the segment that is not in use, or fails with
  \<^verbatim>\<open>bad_alloc\<close> (\<open>None\<close>). The address behind a handle depends only on where the segment is mapped.\<close>

definition boost_ok :: "'m boost \<Rightarrow> bool" where
  "boost_ok B \<longleftrightarrow> (\<forall>w a. bo_allocate_one B w = Some a \<longrightarrow> fresh_addr w a) \<and>
     (\<forall>w n a. bo_allocate B w n = Some a \<longrightarrow> fresh_addr w a) \<and>
     (\<forall>w w' h. w_shm_base w = w_shm_base w' \<longrightarrow> bo_get_address_from_handle B w h = bo_get_address_from_handle B w' h)"

lemma boost_handle:
  "boost_ok B \<Longrightarrow> w_shm_base w = w_shm_base w' \<Longrightarrow>
   bo_get_address_from_handle B w h = bo_get_address_from_handle B w' h"
  unfolding boost_ok_def by blast

text \<open>An allocator that hands out the first free address of a list.\<close>

definition first_fit :: "addr list \<Rightarrow> 'm boost" where
  "first_fit as = \<lparr>bo_allocate_one = (\<lambda>w. find (fresh_addr w) as), bo_allocate = (\<lambda>w n. find (fresh_addr w) as),
     bo_get_address_from_handle = (\<lambda>w h. w_shm_base w + h)\<rparr>"

lemma first_fit_ok: "boost_ok (first_fit as)"
  by (auto simp: boost_ok_def first_fit_def find_Some_iff)

section \<open>Buffers\<close>

definition stats_op :: "(Stats \<Rightarrow> Stats) \<Rightarrow> ('m, unit) wop" where
  "stats_op f = modify_op (w_stats_update f)"

definition allocate_buf :: "'m boost \<Rightarrow> u64 \<Rightarrow> ('m, addr) wop" where
  "allocate_buf B len = bind_op (gets_op (\<lambda>w. bo_allocate B w len)) (\<lambda>r. case r of
       None \<Rightarrow> throw_op Bad_alloc
     | Some buf \<Rightarrow>
         then_op (modify_op (\<lambda>w. w\<lparr>w_bufs := (w_bufs w)(buf \<mapsto> garbage (unat len) w)\<rparr>))
        (then_op (stats_op (buffer_alloc_update counter_inc))
         (ret_op buf)))"

text \<open>Boost ignores a null pointer; any other address must be an allocated buffer.\<close>

definition shm_deallocate :: "addr \<Rightarrow> ('m, unit) wop" where
  "shm_deallocate buf = bind_op (gets_op (\<lambda>w. w_bufs w buf)) (\<lambda>b.
     if buf = 0 then ret_op ()
     else case b of
       None \<Rightarrow> fail_op (Double_free buf)
     | Some _ \<Rightarrow> modify_op (\<lambda>w. w\<lparr>w_bufs := (w_bufs w)(buf := None)\<rparr>))"

definition free_buf :: "addr \<Rightarrow> ('m, unit) wop" where
  "free_buf buf = then_op (stats_op (buffer_free_update counter_inc)) (shm_deallocate buf)"

definition alloc_raft_buffer :: "'m boost \<Rightarrow> u64 \<Rightarrow> ('m, addr) wop" where
  "alloc_raft_buffer B len = allocate_buf B len"

definition free_raft_buffer :: "addr \<Rightarrow> ('m, unit) wop" where
  "free_raft_buffer buf = free_buf buf"

section \<open>Buffer properties\<close>

lemma allocate_buf_Some:
  "bo_allocate B w len = Some buf \<Longrightarrow>
   allocate_buf B len (w, es) =
     Ret buf (w\<lparr>w_bufs := (w_bufs w)(buf \<mapsto> garbage (unat len) w),
                w_stats := (w_stats w)\<lparr>buffer_alloc := buffer_alloc (w_stats w) + 1\<rparr>\<rparr>, es)"
  by (simp add: allocate_buf_def stats_op_def counter_inc_def bind_op_app)

lemma free_buf_Some:
  "w_bufs w buf = Some b \<Longrightarrow> buf \<noteq> 0 \<Longrightarrow>
   free_buf buf (w, es) =
     Ret () (w\<lparr>w_bufs := (w_bufs w)(buf := None),
               w_stats := (w_stats w)\<lparr>buffer_free := buffer_free (w_stats w) + 1\<rparr>\<rparr>, es)"
  by (simp add: free_buf_def shm_deallocate_def stats_op_def counter_inc_def bind_op_app)

lemma free_buf_None:
  "w_bufs w buf = None \<Longrightarrow> buf \<noteq> 0 \<Longrightarrow> free_buf buf (w, es) = Fail (Double_free buf)"
  by (simp add: free_buf_def shm_deallocate_def stats_op_def bind_op_app)

text \<open>
  Allocating a buffer and freeing it again restores the set of allocated buffers and counts
  one allocation and one free, so that the two counters, which the test suite compares, move
  together; the buffer is non-null, lies in the segment, has the requested size, and was not in
  use.
\<close>

lemma alloc_free_buffer:
  assumes "boost_ok B" and "bo_allocate B w len = Some buf"
  shows "\<exists>w1 w2. alloc_raft_buffer B len (w, es) = Ret buf (w1, es) \<and>
    buf \<noteq> 0 \<and> in_shm_bounds w buf \<and> w_bufs w buf = None \<and>
    map_option length (w_bufs w1 buf) = Some (unat len) \<and>
    free_raft_buffer buf (w1, es) = Ret () (w2, es) \<and> w_bufs w2 = w_bufs w \<and>
    buffer_alloc (w_stats w2) - buffer_free (w_stats w2) = buffer_alloc (w_stats w) - buffer_free (w_stats w)"
proof -
  have f: "fresh_addr w buf" using assms by (auto simp: boost_ok_def)
  then have n: "(w_bufs w)(buf := None) = w_bufs w" by (auto simp: fresh_addr_def)
  show ?thesis
    using f n
    by (simp add: alloc_raft_buffer_def free_raft_buffer_def allocate_buf_Some [OF assms(2)]
        free_buf_Some fresh_addr_def garbage_def)
qed

section \<open>An empty world\<close>

text \<open>The state of the shared segment and the client process right after start-up, for the
  examples: a segment of 64 MiB, empty queues, no call and no buffer.\<close>

definition start_world :: "'m \<Rightarrow> 'm world" where
  "start_world m = \<lparr>w_slots = Map.empty, w_bufs = Map.empty,
     w_is_raft_running = True, w_is_leader = True, w_shutdown_requested = False, w_raft_killed = False,
     w_msg_timing = False,
     w_api_queue = abq_zeroed 8 (Tag_Invalid, 0), w_fsm_queue = abq_zeroed 8 (Tag_Invalid, 0),
     w_orphaned_calls = deque_new, w_orphan_backlog = [], w_snapshot_queue = deque_new,
     w_stats = \<lparr>buffer_alloc = 0, buffer_free = 0, call_alloc = 0, call_free = 0\<rparr>,
     w_shm_base = 0x10000000, w_shm_size = 0x4000000,
     w_fsm_worker = True, w_snapshot_worker = False, w_raft_watcher = True, w_orphan_gc_thread = True,
     w_err_msgs = init_err_msgs, w_mem = (\<lambda>_. CHR ''?''), w_clock = 0, w_fsm = m, w_trace = [],
     w_printed = [], w_files = Map.empty, w_config = None, w_mapped = True, w_raft_pid = 100,
     w_log_cats = [''msg_cat'', ''fsm_cat'', ''shm_cat''], w_finished = {}\<rparr>"

lemma alloc_free_buffer_witness:
  "\<exists>w1 w2. alloc_raft_buffer (first_fit [0x10001000]) 256 (start_world (), []) = Ret 0x10001000 (w1, []) \<and>
    free_raft_buffer 0x10001000 (w1, []) = Ret () (w2, []) \<and> w_bufs w2 = Map.empty"
proof -
  have a: "bo_allocate (first_fit [0x10001000]) (start_world ()) 256 = Some 0x10001000"
    by (simp add: first_fit_def fresh_addr_def in_shm_bounds_def start_world_def)
  show ?thesis
    using alloc_free_buffer [OF first_fit_ok a, of "[]"] by (auto simp: start_world_def)
qed

end
