(* ===== verification/Slots.thy ===== *)
theory Slots
  imports World
begin

text \<open>
  \<^verbatim>\<open>BaseSlot\<close> and \<^verbatim>\<open>CallSlot\<close> of \<^verbatim>\<open>src/raft_shm.h\<close> and \<^verbatim>\<open>src/raft_shm.cc\<close>: building a request and
  putting it on a queue, replying to it, waiting for it, reading its result and disposing of it.
  A slot that has been deallocated is absent from \<open>w_slots\<close>, and an operation on it faults.
  A pointer result parameter is passed as a flag that says whether it is non-null, and what the
  code stores through it is returned as an option.
\<close>

section \<open>Access to a slot\<close>

definition get_slot :: "addr \<Rightarrow> ('m, slot) wop" where
  "get_slot a = bind_op (gets_op (\<lambda>w. w_slots w a)) (\<lambda>r. case r of
     None \<Rightarrow> fail_op (Use_after_free a) | Some s \<Rightarrow> ret_op s)"

definition put_slot :: "addr \<Rightarrow> slot \<Rightarrow> ('m, unit) wop" where
  "put_slot a s = modify_op (\<lambda>w. w\<lparr>w_slots := (w_slots w)(a \<mapsto> s)\<rparr>)"

definition mod_slot :: "addr \<Rightarrow> (slot \<Rightarrow> slot) \<Rightarrow> ('m, unit) wop" where
  "mod_slot a f = bind_op (get_slot a) (\<lambda>s. put_slot a (f s))"

text \<open>\<^verbatim>\<open>slot->timings.record(tag)\<close>, at the current time.\<close>

definition record_op :: "addr \<Rightarrow> string \<Rightarrow> ('m, unit) wop" where
  "record_op a tag = bind_op (gets_op w_clock) (\<lambda>t.
     mod_slot a (\<lambda>s. s\<lparr>sl_timings := timings_record tag t (sl_timings s)\<rparr>))"

definition trace_op :: "slot_event \<Rightarrow> ('m, unit) wop" where
  "trace_op e = modify_op (\<lambda>w. w\<lparr>w_trace := w_trace w @ [e]\<rparr>)"

definition slot_busy :: "addr \<Rightarrow> 'm world \<Rightarrow> bool" where
  "slot_busy a w \<longleftrightarrow> (case w_slots w a of None \<Rightarrow> False | Some s \<Rightarrow> sl_owned s)"

definition lock_op :: "addr \<Rightarrow> ('m, unit) wop" where
  "lock_op a = then_op (await_op (slot_busy a) (\<lambda>_. None))
    (then_op (mod_slot a (\<lambda>s. s\<lparr>sl_owned := True\<rparr>)) (trace_op (Ev_lock a)))"

text \<open>Releasing the mutex of a slot that is gone writes into freed memory; the event records it.\<close>

definition unlock_op :: "addr \<Rightarrow> ('m, unit) wop" where
  "unlock_op a = then_op
     (modify_op (\<lambda>w. case w_slots w a of
         None \<Rightarrow> w | Some s \<Rightarrow> w\<lparr>w_slots := (w_slots w)(a \<mapsto> s\<lparr>sl_owned := False\<rparr>)\<rparr>))
     (trace_op (Ev_unlock a))"

section \<open>Replying and waiting\<close>

definition slot_reply_err :: "addr \<Rightarrow> RaftError \<Rightarrow> ('m, unit) wop" where
  "slot_reply_err a err =
     then_op (mod_slot a (\<lambda>s. s\<lparr>sl_error := err\<rparr>))
    (bind_op (get_slot a) (\<lambda>s.
     then_op (assert_op (\<not> is_terminal (sl_state s)))
    (then_op (mod_slot a (\<lambda>s. s\<lparr>sl_state := (if err = RAFT_SUCCESS then Success else Error)\<rparr>))
     (record_op a ''reply sent''))))"

definition slot_reply_val :: "addr \<Rightarrow> u64 \<Rightarrow> ('m, unit) wop" where
  "slot_reply_val a v = then_op (mod_slot a (\<lambda>s. s\<lparr>sl_retval := v\<rparr>)) (slot_reply_err a RAFT_SUCCESS)"

text \<open>\<^verbatim>\<open>wait\<close> goes on when it holds the mutex and the state is terminal.\<close>

definition slot_pending :: "addr \<Rightarrow> 'm world \<Rightarrow> bool" where
  "slot_pending a w \<longleftrightarrow> (case w_slots w a of
     None \<Rightarrow> False | Some s \<Rightarrow> sl_owned s \<or> \<not> is_terminal (sl_state s))"

definition slot_wait :: "addr \<Rightarrow> ('m, unit) wop" where
  "slot_wait a =
     then_op (await_op (slot_pending a) (\<lambda>_. None))
    (then_op (mod_slot a (\<lambda>s. s\<lparr>sl_client_state := Observed\<rparr>))
     (record_op a ''result received''))"

definition slot_poll :: "addr \<Rightarrow> ('m, bool) wop" where
  "slot_poll a = bind_op (get_slot a) (\<lambda>s. ret_op (\<not> sl_owned s \<and> is_terminal (sl_state s)))"

text \<open>The time, in microseconds, that lies \<open>rel_time\<close> milliseconds after the clock, which counts nanoseconds. The
  conversion to \<^verbatim>\<open>std::chrono::milliseconds\<close> reads the argument as a signed number; the product does not
  overflow for times below 292 thousand years.\<close>

definition make_ptime :: "int \<Rightarrow> u64 \<Rightarrow> int" where
  "make_ptime now rel_time = now div 1000 + sint rel_time * 1000"

text \<open>The timed lock takes the mutex when it is free, and gives up when it is held and the time has come.\<close>

fun timed_lock_loop :: "addr \<Rightarrow> int \<Rightarrow> 'm world \<Rightarrow> 'm world sched \<Rightarrow> (bool, 'm world \<times> 'm world sched) outcome" where
  "timed_lock_loop a abs_time w [] =
     (if \<not> slot_busy a w then Ret True (w, [])
      else if abs_time \<le> w_clock w div 1000 then Ret False (w, [])
      else Blocked (w, []))"
| "timed_lock_loop a abs_time w (e # es) =
     (if \<not> slot_busy a w then Ret True (w, e # es)
      else if abs_time \<le> w_clock w div 1000 then Ret False (w, e # es)
      else timed_lock_loop a abs_time (e w) es)"

text \<open>\<^verbatim>\<open>wait_for\<close>: a time of zero polls.\<close>

definition slot_wait_for :: "addr \<Rightarrow> u64 \<Rightarrow> ('m, bool) wop" where
  "slot_wait_for a rel_time =
     (if rel_time = 0 then slot_poll a
      else bind_op (\<lambda>(w, es). timed_lock_loop a (make_ptime (w_clock w) rel_time) w es) (\<lambda>locked.
        if locked then bind_op (get_slot a) (\<lambda>s. ret_op (is_terminal (sl_state s)))
        else ret_op False))"

section \<open>Results\<close>

definition slot_get_ptr :: "addr \<Rightarrow> bool \<Rightarrow> ('m, RaftError \<times> u64 option) wop" where
  "slot_get_ptr a res =
     bind_op (get_slot a) (\<lambda>s.
     then_op (if \<not> is_terminal (sl_state s) then slot_wait a else ret_op ())
    (bind_op (get_slot a) (\<lambda>s.
       ret_op (if has_ret (sl_tag s)
         then (if res
               then (sl_error s, if sl_error s = RAFT_SUCCESS then Some (sl_retval s) else None)
               else (RAFT_E_INVALID_ADDRESS, None))
         else (RAFT_E_INVALID_OP, None)))))"

definition slot_value :: "addr \<Rightarrow> ('m, u64) wop" where
  "slot_value a = bind_op (get_slot a) (\<lambda>s.
     then_op (assert_op (has_ret (sl_tag s))) (ret_op (sl_retval s)))"

section \<open>Disposal\<close>

definition track_orphan :: "addr \<Rightarrow> ('m, unit) wop" where
  "track_orphan a = deque_put w_orphaned_calls w_orphaned_calls_update a"

text \<open>The overload of \<^verbatim>\<open>orphan_cleanup\<close> for \<^verbatim>\<open>ApplyArgs\<close> frees the command buffer if it lies in the
  segment; the template does nothing for every other argument type.\<close>

definition orphan_cleanup :: "call_args \<Rightarrow> ('m, unit) wop" where
  "orphan_cleanup args = (case args of
     Args_Apply aa \<Rightarrow> bind_op (gets_op (\<lambda>w. in_shm_bounds w (cmd_buf aa))) (\<lambda>b.
        if b then free_raft_buffer (cmd_buf aa) else ret_op ())
   | _ \<Rightarrow> ret_op ())"

definition deallocate_one :: "addr \<Rightarrow> ('m, unit) wop" where
  "deallocate_one a = then_op (modify_op (\<lambda>w. w\<lparr>w_slots := (w_slots w)(a := None)\<rparr>)) (trace_op (Ev_free a))"

definition slot_dispose :: "addr \<Rightarrow> ('m, unit) wop" where
  "slot_dispose a = bind_op (get_slot a) (\<lambda>s. case sl_client_state s of
     Issued \<Rightarrow>
       then_op (mod_slot a (\<lambda>s. s\<lparr>sl_client_state := Abandoned\<rparr>)) (track_orphan a)
   | Observed \<Rightarrow>
       then_op (deallocate_one a) (stats_op (call_free_update counter_inc))
   | Abandoned \<Rightarrow>
       then_op (orphan_cleanup (sl_args s))
      (then_op (deallocate_one a) (stats_op (call_free_update counter_inc))))"

section \<open>Requests\<close>

definition alloc_request :: "'m boost \<Rightarrow> CallTag \<Rightarrow> call_args \<Rightarrow> ('m, addr) wop" where
  "alloc_request B t args =
     then_op (stats_op (call_alloc_update counter_inc))
    (bind_op (gets_op (bo_allocate_one B)) (\<lambda>r. case r of
       None \<Rightarrow> throw_op Bad_alloc
     | Some a \<Rightarrow> then_op (put_slot a (mk_slot t args)) (ret_op a)))"

definition slot_rec :: "addr \<Rightarrow> ('m, CallTag \<times> addr) wop" where
  "slot_rec a = bind_op (get_slot a) (\<lambda>s. ret_op (sl_tag s, a))"

type_synonym 'm queue_lens =
  "('m world \<Rightarrow> (CallTag \<times> addr) abq) \<times> (((CallTag \<times> addr) abq \<Rightarrow> (CallTag \<times> addr) abq) \<Rightarrow> 'm world \<Rightarrow> 'm world)"

definition CALLQUEUE_CAPACITY :: u32 where
  "CALLQUEUE_CAPACITY = 8"

definition send_request :: "'m boost \<Rightarrow> 'm queue_lens \<Rightarrow> bool \<Rightarrow> CallTag \<Rightarrow> call_args \<Rightarrow> ('m, addr) wop" where
  "send_request B queue throw_ok t args =
     bind_op (gets_op w_clock) (\<lambda>start_t.
     bind_op (alloc_request B t args) (\<lambda>a.
     bind_op (gets_op w_clock) (\<lambda>built_t.
     then_op (bind_op (gets_op garbage_entries) (\<lambda>mem.
        mod_slot a (\<lambda>s. s\<lparr>sl_timings := timings_at mem start_t\<rparr>)))
    (then_op (mod_slot a (\<lambda>s. s\<lparr>sl_timings := timings_record ''constructed'' built_t (sl_timings s)\<rparr>))
    (then_op (catch_closed_op
        (bind_op (slot_rec a) (abq_put CALLQUEUE_CAPACITY (fst queue) (snd queue)))
        (if throw_ok then throw_op Queue_closed
         else mod_slot a (\<lambda>s. s\<lparr>sl_error := RAFT_E_IN_SHUTDOWN, sl_state := Error\<rparr>)))
     (ret_op a))))))"

definition send_api_request :: "'m boost \<Rightarrow> CallTag \<Rightarrow> call_args \<Rightarrow> ('m, addr) wop" where
  "send_api_request B t args = send_request B (w_api_queue, w_api_queue_update) False t args"

definition send_fsm_request :: "'m boost \<Rightarrow> CallTag \<Rightarrow> call_args \<Rightarrow> ('m, addr) wop" where
  "send_fsm_request B t args = send_request B (w_fsm_queue, w_fsm_queue_update) True t args"

definition make_error_request :: "'m boost \<Rightarrow> RaftError \<Rightarrow> CallTag \<Rightarrow> call_args \<Rightarrow> ('m, addr) wop" where
  "make_error_request B err t args =
     then_op (assert_op (err \<noteq> RAFT_SUCCESS))
    (bind_op (alloc_request B t args) (\<lambda>a.
     then_op (mod_slot a (\<lambda>s. s\<lparr>sl_error := err, sl_state := Error\<rparr>))
     (ret_op a)))"

section \<open>Results of single operations\<close>

lemma get_slot_Some [simp]: "w_slots w a = Some s \<Longrightarrow> get_slot a (w, es) = Ret s (w, es)"
  by (simp add: get_slot_def)

lemma get_slot_None [simp]: "w_slots w a = None \<Longrightarrow> get_slot a (w, es) = Fail (Use_after_free a)"
  by (simp add: get_slot_def)

lemma put_slot_app [simp]: "put_slot a s (w, es) = Ret () (w\<lparr>w_slots := (w_slots w)(a \<mapsto> s)\<rparr>, es)"
  by (simp add: put_slot_def)

lemma mod_slot_Some [simp]:
  "w_slots w a = Some s \<Longrightarrow> mod_slot a f (w, es) = Ret () (w\<lparr>w_slots := (w_slots w)(a \<mapsto> f s)\<rparr>, es)"
  by (simp add: mod_slot_def)

lemma mod_slot_None [simp]: "w_slots w a = None \<Longrightarrow> mod_slot a f (w, es) = Fail (Use_after_free a)"
  by (simp add: mod_slot_def)

lemma record_op_Some [simp]:
  "w_slots w a = Some s \<Longrightarrow>
   record_op a tag (w, es) =
     Ret () (w\<lparr>w_slots := (w_slots w)(a \<mapsto> s\<lparr>sl_timings := timings_record tag (w_clock w) (sl_timings s)\<rparr>)\<rparr>, es)"
  by (simp add: record_op_def)

lemma record_op_None [simp]: "w_slots w a = None \<Longrightarrow> record_op a tag (w, es) = Fail (Use_after_free a)"
  by (simp add: record_op_def)

lemma trace_op_app [simp]: "trace_op e (w, es) = Ret () (w\<lparr>w_trace := w_trace w @ [e]\<rparr>, es)"
  by (simp add: trace_op_def)

lemma stats_op_app [simp]: "stats_op f (w, es) = Ret () (w\<lparr>w_stats := f (w_stats w)\<rparr>, es)"
  by (simp add: stats_op_def)

lemma stats_incs [simp]:
  "call_alloc_update counter_inc st = st\<lparr>call_alloc := call_alloc st + 1\<rparr>"
  "call_free_update counter_inc st = st\<lparr>call_free := call_free st + 1\<rparr>"
  by (simp_all add: counter_inc_def)

definition replied_slot :: "RaftError \<Rightarrow> int \<Rightarrow> slot \<Rightarrow> slot" where
  "replied_slot err t s = s\<lparr>sl_error := err, sl_state := (if err = RAFT_SUCCESS then Success else Error),
     sl_timings := timings_record ''reply sent'' t (sl_timings s)\<rparr>"

definition observed_slot :: "int \<Rightarrow> slot \<Rightarrow> slot" where
  "observed_slot t s = s\<lparr>sl_client_state := Observed, sl_timings := timings_record ''result received'' t (sl_timings s)\<rparr>"

lemma slot_reply_err_ok:
  "w_slots w a = Some s \<Longrightarrow> \<not> is_terminal (sl_state s) \<Longrightarrow>
   slot_reply_err a err (w, es) = Ret () (w\<lparr>w_slots := (w_slots w)(a \<mapsto> replied_slot err (w_clock w) s)\<rparr>, es)"
  by (simp add: slot_reply_err_def replied_slot_def)

lemma slot_reply_err_twice:
  "w_slots w a = Some s \<Longrightarrow> is_terminal (sl_state s) \<Longrightarrow> slot_reply_err a err (w, es) = Fail Assert_failed"
  by (simp add: slot_reply_err_def)

lemma slot_reply_val_ok:
  "w_slots w a = Some s \<Longrightarrow> \<not> is_terminal (sl_state s) \<Longrightarrow>
   slot_reply_val a v (w, es) =
     Ret () (w\<lparr>w_slots := (w_slots w)(a \<mapsto> replied_slot RAFT_SUCCESS (w_clock w) (s\<lparr>sl_retval := v\<rparr>))\<rparr>, es)"
  by (simp add: slot_reply_val_def slot_reply_err_ok)

lemma slot_pending_simps:
  "w_slots w a = Some s \<Longrightarrow> slot_pending a w \<longleftrightarrow> sl_owned s \<or> \<not> is_terminal (sl_state s)"
  "w_slots w a = Some s \<Longrightarrow> slot_busy a w \<longleftrightarrow> sl_owned s"
  by (simp_all add: slot_pending_def slot_busy_def)

lemma slot_wait_ready:
  "w_slots w a = Some s \<Longrightarrow> \<not> sl_owned s \<Longrightarrow> is_terminal (sl_state s) \<Longrightarrow>
   slot_wait a (w, es) = Ret () (w\<lparr>w_slots := (w_slots w)(a \<mapsto> observed_slot (w_clock w) s)\<rparr>, es)"
  by (simp add: slot_wait_def await_op_ready slot_pending_simps observed_slot_def)

lemma slot_wait_blocked:
  "w_slots w a = Some s \<Longrightarrow> sl_owned s \<or> \<not> is_terminal (sl_state s) \<Longrightarrow> slot_wait a (w, []) = Blocked (w, [])"
  by (simp add: slot_wait_def await_op_stuck slot_pending_simps)

lemma slot_wait_step:
  "w_slots w a = Some s \<Longrightarrow> sl_owned s \<or> \<not> is_terminal (sl_state s) \<Longrightarrow>
   slot_wait a (w, e # es) = slot_wait a (e w, es)"
  by (simp add: slot_wait_def await_op_def bind_op_app slot_pending_simps)

text \<open>A wait that returns has seen the slot terminal and unlocked, and has marked it observed.\<close>

lemma slot_wait_Ret:
  assumes "slot_wait a (w, es) = Ret u (w', es')"
  shows "\<exists>w1 s. w_slots w1 a = Some s \<and> is_terminal (sl_state s) \<and> \<not> sl_owned s \<and>
    w' = w1\<lparr>w_slots := (w_slots w1)(a \<mapsto> observed_slot (w_clock w1) s)\<rparr> \<and>
    (\<exists>done. es = done @ es' \<and> w1 = fold (\<lambda>e t. e t) done w)"
proof -
  from assms obtain v t where t: "await_op (slot_pending a) (\<lambda>_. None) (w, es) = Ret v t"
    and r: "then_op (mod_slot a (\<lambda>s. s\<lparr>sl_client_state := Observed\<rparr>)) (record_op a ''result received'') t = Ret u (w', es')"
    by (auto simp: slot_wait_def bind_op_eq_Ret)
  obtain w1 es1 where t1: "t = (w1, es1)" by (cases t)
  from await_loop_Ret [of "slot_pending a" "\<lambda>_. None" w es v w1 es1] t t1
  have np: "\<not> slot_pending a w1" and d: "\<exists>done. es = done @ es1 \<and> w1 = fold (\<lambda>e t. e t) done w"
    by (auto simp: await_op_def)
  show ?thesis
  proof (cases "w_slots w1 a")
    case None
    with r t1 show ?thesis by simp
  next
    case (Some s)
    with r t1 np d show ?thesis
      by (intro exI [of _ w1] exI [of _ s]) (auto simp: slot_pending_def observed_slot_def)
  qed
qed

section \<open>Disposal in closed form\<close>

text \<open>The buffers that \<open>orphan_cleanup\<close> frees for a call.\<close>

definition cleanup_bufs :: "'m world \<Rightarrow> call_args \<Rightarrow> addr list" where
  "cleanup_bufs w args = (case args of
     Args_Apply aa \<Rightarrow> if in_shm_bounds w (cmd_buf aa) then [cmd_buf aa] else [] | _ \<Rightarrow> [])"

definition freed :: "addr list \<Rightarrow> 'm world \<Rightarrow> 'm world" where
  "freed bs w = w\<lparr>w_bufs := w_bufs w |` (- set bs),
     w_stats := (w_stats w)\<lparr>buffer_free := buffer_free (w_stats w) + of_nat (length bs)\<rparr>\<rparr>"

definition bufs_live :: "'m world \<Rightarrow> addr list \<Rightarrow> bool" where
  "bufs_live w bs \<longleftrightarrow> distinct bs \<and> (\<forall>b \<in> set bs. b \<noteq> 0 \<and> w_bufs w b \<noteq> None)"

definition slot_freed :: "addr \<Rightarrow> 'm world \<Rightarrow> 'm world" where
  "slot_freed a w = w\<lparr>w_slots := (w_slots w)(a := None),
     w_stats := (w_stats w)\<lparr>call_free := call_free (w_stats w) + 1\<rparr>, w_trace := w_trace w @ [Ev_free a]\<rparr>"

lemma restrict_map_UNIV [simp]: "m |` UNIV = m"
  by (simp add: restrict_map_def)

lemma orphan_cleanup_ok:
  assumes "bufs_live w (cleanup_bufs w args)"
  shows "orphan_cleanup args (w, es) = Ret () (freed (cleanup_bufs w args) w, es)"
proof (cases args)
  case (Args_Apply aa)
  show ?thesis
  proof (cases "in_shm_bounds w (cmd_buf aa)")
    case True
    have "w_bufs w |` (- {cmd_buf aa}) = (w_bufs w)(cmd_buf aa := None)"
      by (auto simp: restrict_map_def)
    with True assms Args_Apply show ?thesis
      by (auto simp: orphan_cleanup_def cleanup_bufs_def bufs_live_def freed_def free_raft_buffer_def free_buf_Some)
  next
    case False
    with Args_Apply show ?thesis by (simp add: orphan_cleanup_def cleanup_bufs_def freed_def)
  qed
qed (simp_all add: orphan_cleanup_def cleanup_bufs_def freed_def)

lemma slot_dispose_Issued:
  "w_slots w a = Some s \<Longrightarrow> sl_client_state s = Issued \<Longrightarrow> \<not> d_closed (w_orphaned_calls w) \<Longrightarrow>
   slot_dispose a (w, es) = Ret () (w\<lparr>w_slots := (w_slots w)(a \<mapsto> s\<lparr>sl_client_state := Abandoned\<rparr>),
     w_orphaned_calls := deque_push a (w_orphaned_calls w)\<rparr>, es)"
  by (simp add: slot_dispose_def track_orphan_def deque_put_def deque_check_closed_def bind_op_app)

lemma slot_dispose_closed:
  "w_slots w a = Some s \<Longrightarrow> sl_client_state s = Issued \<Longrightarrow> d_closed (w_orphaned_calls w) \<Longrightarrow>
   slot_dispose a (w, es) = Throw Queue_closed (w\<lparr>w_slots := (w_slots w)(a \<mapsto> s\<lparr>sl_client_state := Abandoned\<rparr>)\<rparr>, es)"
  by (simp add: slot_dispose_def track_orphan_def deque_put_def deque_check_closed_def bind_op_app)

lemma slot_dispose_Observed:
  "w_slots w a = Some s \<Longrightarrow> sl_client_state s = Observed \<Longrightarrow> slot_dispose a (w, es) = Ret () (slot_freed a w, es)"
  by (simp add: slot_dispose_def deallocate_one_def slot_freed_def counter_inc_def)

lemma slot_dispose_Abandoned:
  "w_slots w a = Some s \<Longrightarrow> sl_client_state s = Abandoned \<Longrightarrow> bufs_live w (cleanup_bufs w (sl_args s)) \<Longrightarrow>
   slot_dispose a (w, es) = Ret () (slot_freed a (freed (cleanup_bufs w (sl_args s)) w), es)"
  by (simp add: slot_dispose_def deallocate_one_def slot_freed_def counter_inc_def orphan_cleanup_ok)

lemmas slot_dispose_cases = slot_dispose_Issued slot_dispose_closed slot_dispose_Observed slot_dispose_Abandoned

section \<open>Requests in closed form\<close>

text \<open>The slot that \<^verbatim>\<open>send_request\<close> builds, before it is put on the queue.\<close>

definition sent_slot :: "'m world \<Rightarrow> CallTag \<Rightarrow> call_args \<Rightarrow> slot" where
  "sent_slot w t args = (mk_slot t args)\<lparr>sl_timings :=
     timings_record ''constructed'' (w_clock w) (timings_at (garbage_entries w) (w_clock w))\<rparr>"

definition slot_made :: "addr \<Rightarrow> slot \<Rightarrow> 'm world \<Rightarrow> 'm world" where
  "slot_made a s w = w\<lparr>w_slots := (w_slots w)(a \<mapsto> s),
     w_stats := (w_stats w)\<lparr>call_alloc := call_alloc (w_stats w) + 1\<rparr>\<rparr>"

lemma catch_closed_op_app:
  "catch_closed_op m h s = (case m s of Throw Queue_closed s' \<Rightarrow> h s' | r \<Rightarrow> r)"
  by (simp add: catch_closed_op_def)

lemma send_api_request_open:
  assumes "bo_allocate_one B (w\<lparr>w_stats := (w_stats w)\<lparr>call_alloc := call_alloc (w_stats w) + 1\<rparr>\<rparr>) = Some a"
    and "abq_wf 8 (w_api_queue w)" and "\<not> q_closed (w_api_queue w)" and "q_count (w_api_queue w) \<noteq> 8"
  shows "send_api_request B t args (w, es) =
    Ret a (w_api_queue_update (abq_insert 8 (t, a)) (slot_made a (sent_slot w t args) w), es)"
  using assms
  by (simp add: send_api_request_def send_request_def alloc_request_def counter_inc_def slot_rec_def
      catch_closed_op_app bind_op_app abq_put_open CALLQUEUE_CAPACITY_def sent_slot_def slot_made_def
      garbage_entries_def garbage_def mk_slot_def)

lemma send_api_request_shut:
  assumes "bo_allocate_one B (w\<lparr>w_stats := (w_stats w)\<lparr>call_alloc := call_alloc (w_stats w) + 1\<rparr>\<rparr>) = Some a"
    and "q_closed (w_api_queue w)"
  shows "send_api_request B t args (w, es) =
    Ret a (slot_made a ((sent_slot w t args)\<lparr>sl_error := RAFT_E_IN_SHUTDOWN, sl_state := Error\<rparr>) w, es)"
  using assms
  by (simp add: send_api_request_def send_request_def alloc_request_def counter_inc_def slot_rec_def
      catch_closed_op_app bind_op_app abq_put_shut CALLQUEUE_CAPACITY_def sent_slot_def slot_made_def
      garbage_entries_def garbage_def mk_slot_def)

lemma send_api_request_full:
  assumes "bo_allocate_one B (w\<lparr>w_stats := (w_stats w)\<lparr>call_alloc := call_alloc (w_stats w) + 1\<rparr>\<rparr>) = Some a"
    and "\<not> q_closed (w_api_queue w)" and "q_count (w_api_queue w) = 8"
  shows "send_api_request B t args (w, []) = Blocked (slot_made a (sent_slot w t args) w, [])"
  using assms
  by (simp add: send_api_request_def send_request_def alloc_request_def counter_inc_def slot_rec_def
      catch_closed_op_app bind_op_app abq_put_full CALLQUEUE_CAPACITY_def sent_slot_def slot_made_def
      garbage_entries_def garbage_def mk_slot_def)

end
