(* ===== verification/Orphans.thy ===== *)
theory Orphans
  imports Slots
begin

text \<open>
  The collector of abandoned calls in \<^verbatim>\<open>src/raft_shm.cc\<close>: \<^verbatim>\<open>try_dispose_orphan\<close>,
  \<^verbatim>\<open>scan_orphans\<close> and the thread \<^verbatim>\<open>run_orphan_gc\<close>. A call whose future is disposed before its
  result was observed is queued for this thread, which frees the slot, and the command buffer of
  an Apply call, once the Raft process has replied.
\<close>

section \<open>The collector\<close>

text \<open>A scope guard: the finaliser runs on a normal return and on an exception.\<close>

definition finally_op :: "('s, 'a) op \<Rightarrow> ('s, unit) op \<Rightarrow> ('s, 'a) op" where
  "finally_op m n = (\<lambda>s. case m s of
      Ret a s' \<Rightarrow> then_op n (ret_op a) s'
    | Throw x s' \<Rightarrow> then_op n (throw_op x) s'
    | Blocked s' \<Rightarrow> Blocked s'
    | Fail e \<Rightarrow> Fail e)"

definition try_dispose_orphan :: "addr \<Rightarrow> ('m, bool) wop" where
  "try_dispose_orphan a =
     then_op (assert_op (a \<noteq> 0))
    (bind_op (get_slot a) (\<lambda>s.
       if sl_owned s then ret_op False
       else then_op (lock_op a)
         (finally_op
           (if is_terminal (sl_state s) then then_op (slot_dispose a) (ret_op True) else ret_op False)
           (unlock_op a))))"

fun scan_loop :: "addr list \<Rightarrow> addr list \<Rightarrow> ('m, unit) wop" where
  "scan_loop kept [] = ret_op ()"
| "scan_loop kept (a # as) = bind_op (try_dispose_orphan a) (\<lambda>b.
     if b then then_op (modify_op (\<lambda>w. w\<lparr>w_orphan_backlog := kept @ as\<rparr>)) (scan_loop kept as)
     else scan_loop (kept @ [a]) as)"

definition scan_orphans :: "('m, unit) wop" where
  "scan_orphans = bind_op (gets_op w_orphan_backlog) (scan_loop [])"

definition orphan_interval :: int where
  "orphan_interval = 100 * 1000000"

text \<open>One turn of the loop. \<open>locked\<close> is the outcome of the timed lock in \<^verbatim>\<open>poll_until\<close>; the result is
  the next value of \<^verbatim>\<open>next_check\<close>. A null pointer is address 0.\<close>

definition orphan_gc_turn :: "bool \<Rightarrow> int \<Rightarrow> ('m, int) wop" where
  "orphan_gc_turn locked next_check =
     bind_op (gets_op w_orphan_backlog) (\<lambda>backlog.
     bind_op (if backlog = [] then deque_take w_orphaned_calls w_orphaned_calls_update
              else bind_op (deque_poll_until locked w_clock next_check 0 w_orphaned_calls w_orphaned_calls_update)
                (\<lambda>res. ret_op (if fst res then snd res else 0))) (\<lambda>orphan.
     then_op (if orphan = 0 then ret_op ()
              else bind_op (try_dispose_orphan orphan) (\<lambda>b.
                if b then ret_op ()
                else modify_op (\<lambda>w. w\<lparr>w_orphan_backlog := w_orphan_backlog w @ [orphan]\<rparr>)))
    (bind_op (gets_op (\<lambda>w. w_orphan_backlog w \<noteq> [] \<and> next_check < w_clock w)) (\<lambda>due.
       if due then then_op scan_orphans (gets_op (\<lambda>w. w_clock w + orphan_interval))
       else ret_op next_check))))"

text \<open>The loop runs once per element of \<open>ls\<close>; \<open>False\<close> says that it is still running after them.
  The closed queue ends it, and the thread returns.\<close>

fun orphan_gc_loop :: "bool list \<Rightarrow> int \<Rightarrow> ('m, bool) wop" where
  "orphan_gc_loop [] next_check = ret_op False"
| "orphan_gc_loop (l # ls) next_check = bind_op (orphan_gc_turn l next_check) (orphan_gc_loop ls)"

definition run_orphan_gc :: "bool list \<Rightarrow> ('m, bool) wop" where
  "run_orphan_gc ls = catch_closed_op
     (then_op (modify_op (\<lambda>w. w\<lparr>w_orphan_backlog := []\<rparr>))
      (bind_op (gets_op (\<lambda>w. w_clock w + orphan_interval)) (orphan_gc_loop ls)))
     (ret_op True)"

section \<open>One orphan\<close>

definition slot_ready :: "'m world \<Rightarrow> addr \<Rightarrow> bool" where
  "slot_ready w a \<longleftrightarrow> (case w_slots w a of None \<Rightarrow> False | Some s \<Rightarrow> \<not> sl_owned s \<and> is_terminal (sl_state s))"

definition slot_cleanup :: "'m world \<Rightarrow> addr \<Rightarrow> addr list" where
  "slot_cleanup w a = (case w_slots w a of None \<Rightarrow> [] | Some s \<Rightarrow> cleanup_bufs w (sl_args s))"

definition is_orphan :: "'m world \<Rightarrow> addr \<Rightarrow> bool" where
  "is_orphan w a \<longleftrightarrow> a \<noteq> 0 \<and> (\<exists>s. w_slots w a = Some s \<and> sl_client_state s = Abandoned)"

text \<open>The world after the collector freed one orphan: buffer, slot and mutex, in this order.\<close>

definition orphan_freed :: "addr \<Rightarrow> 'm world \<Rightarrow> 'm world" where
  "orphan_freed a w = w\<lparr>w_slots := (w_slots w)(a := None),
     w_bufs := w_bufs w |` (- set (slot_cleanup w a)),
     w_stats := (w_stats w)\<lparr>buffer_free := buffer_free (w_stats w) + of_nat (length (slot_cleanup w a)),
                           call_free := call_free (w_stats w) + 1\<rparr>,
     w_trace := w_trace w @ [Ev_lock a, Ev_free a, Ev_unlock a]\<rparr>"

definition orphan_kept :: "addr \<Rightarrow> 'm world \<Rightarrow> 'm world" where
  "orphan_kept a w = (if slot_busy a w then w else w\<lparr>w_trace := w_trace w @ [Ev_lock a, Ev_unlock a]\<rparr>)"

lemma slot_unlock_same [simp]: "\<not> sl_owned s \<Longrightarrow> s\<lparr>sl_owned := False\<rparr> = s"
  by simp

lemma in_shm_bounds_cong [simp]:
  "in_shm_bounds (w\<lparr>w_slots := x\<rparr>) = in_shm_bounds w" "in_shm_bounds (w\<lparr>w_trace := y\<rparr>) = in_shm_bounds w"
  "in_shm_bounds (w\<lparr>w_bufs := z\<rparr>) = in_shm_bounds w" "in_shm_bounds (w\<lparr>w_stats := st\<rparr>) = in_shm_bounds w"
  "in_shm_bounds (w\<lparr>w_orphan_backlog := bl\<rparr>) = in_shm_bounds w"
  by (simp_all add: fun_eq_iff in_shm_bounds_def)

lemma try_dispose_ready:
  assumes o: "is_orphan w a" and r: "slot_ready w a" and b: "bufs_live w (slot_cleanup w a)"
  shows "try_dispose_orphan a (w, es) = Ret True (orphan_freed a w, es)"
proof -
  obtain s where s: "w_slots w a = Some s" "sl_client_state s = Abandoned" "\<not> sl_owned s"
    "is_terminal (sl_state s)" "a \<noteq> 0"
    using o r by (auto simp: is_orphan_def slot_ready_def)
  let ?w1 = "w\<lparr>w_slots := (w_slots w)(a \<mapsto> s\<lparr>sl_owned := True\<rparr>), w_trace := w_trace w @ [Ev_lock a]\<rparr>"
  have c: "cleanup_bufs ?w1 (sl_args s) = slot_cleanup w a"
    by (simp add: slot_cleanup_def s cleanup_bufs_def split: call_args.split)
  have "bufs_live ?w1 (slot_cleanup w a)"
    using b by (simp add: bufs_live_def)
  then have "slot_dispose a (?w1, es) = Ret () (slot_freed a (freed (slot_cleanup w a) ?w1), es)"
    using slot_dispose_Abandoned [of ?w1 a "s\<lparr>sl_owned := True\<rparr>" es] s by (simp add: c)
  then show ?thesis
    using s
    by (simp add: try_dispose_orphan_def lock_op_def await_op_ready slot_busy_def finally_op_def
        unlock_op_def orphan_freed_def slot_freed_def freed_def)
qed

lemma try_dispose_not_ready:
  assumes o: "is_orphan w a" and r: "\<not> slot_ready w a"
  shows "try_dispose_orphan a (w, es) = Ret False (orphan_kept a w, es)"
proof -
  obtain s where s: "w_slots w a = Some s" "sl_owned s \<or> \<not> is_terminal (sl_state s)" "a \<noteq> 0"
    using o r by (auto simp: is_orphan_def slot_ready_def)
  have u: "\<not> sl_owned s \<Longrightarrow> (w_slots w)(a \<mapsto> s) = w_slots w" using s(1) by auto
  show ?thesis
    using s u
    by (auto simp: try_dispose_orphan_def lock_op_def await_op_ready slot_busy_def finally_op_def
        unlock_op_def orphan_kept_def)
qed

text \<open>
  C40. The collector frees a slot before it releases the slot's mutex: disposing of a finished
  orphan ends with the deallocation of the slot followed by the unlock of its mutex, which by
  then lies in freed memory.
\<close>

theorem gc_unlocks_freed_slot:
  assumes "is_orphan w a" and "slot_ready w a" and "bufs_live w (slot_cleanup w a)"
  shows "\<exists>w'. try_dispose_orphan a (w, es) = Ret True (w', es) \<and> w_slots w' a = None \<and>
    w_trace w' = w_trace w @ [Ev_lock a, Ev_free a, Ev_unlock a]"
  using try_dispose_ready [OF assms] by (simp add: orphan_freed_def)

definition demo_orphan_slot :: slot where
  "demo_orphan_slot = (mk_slot Tag_Apply (Args_Apply (mk_ApplyArgs 0x10002000 256 0)))
     \<lparr>sl_state := Success, sl_client_state := Abandoned\<rparr>"

definition demo_orphan_world :: "unit world" where
  "demo_orphan_world = (start_world ())\<lparr>w_slots := [0x10001000 \<mapsto> demo_orphan_slot],
     w_bufs := [0x10002000 \<mapsto> replicate 256 NUL], w_orphan_backlog := [0x10001000]\<rparr>"

lemma demo_orphan:
  "is_orphan demo_orphan_world 0x10001000" "slot_ready demo_orphan_world 0x10001000"
  "slot_cleanup demo_orphan_world 0x10001000 = [0x10002000]"
  "bufs_live demo_orphan_world [0x10002000]"
  by (simp_all add: is_orphan_def slot_ready_def slot_cleanup_def cleanup_bufs_def bufs_live_def
      demo_orphan_world_def demo_orphan_slot_def mk_slot_def mk_ApplyArgs_def in_shm_bounds_def start_world_def)

theorem gc_unlocks_freed_slot_witness:
  "\<exists>w'. try_dispose_orphan 0x10001000 (demo_orphan_world, []) = Ret True (w', []) \<and>
    w_trace w' = [Ev_lock 0x10001000, Ev_free 0x10001000, Ev_unlock 0x10001000]"
  using gc_unlocks_freed_slot [where es = "[]", OF demo_orphan(1,2)] demo_orphan(3,4)
  by (auto simp: demo_orphan_world_def start_world_def)

section \<open>A scan\<close>

text \<open>The backlog a scan can work on: distinct live orphans whose command buffers are allocated and
  belong to one orphan each.\<close>

definition backlog_ok :: "'m world \<Rightarrow> addr list \<Rightarrow> bool" where
  "backlog_ok w as \<longleftrightarrow> distinct as \<and> (\<forall>a \<in> set as. is_orphan w a) \<and> bufs_live w (concat (map (slot_cleanup w) as))"

definition reaped :: "'m world \<Rightarrow> addr list \<Rightarrow> addr list" where
  "reaped w as = filter (slot_ready w) as"

lemma orphan_step_frame:
  assumes "a \<noteq> b"
  shows "w_slots (orphan_freed a w) b = w_slots w b" "slot_ready (orphan_freed a w) b = slot_ready w b"
    "slot_cleanup (orphan_freed a w) b = slot_cleanup w b" "is_orphan (orphan_freed a w) b = is_orphan w b"
  using assms
  by (simp_all add: orphan_freed_def slot_ready_def slot_cleanup_def is_orphan_def cleanup_bufs_def
      split: option.split call_args.split)

lemma orphan_kept_frame:
  "w_slots (orphan_kept a w) = w_slots w" "slot_ready (orphan_kept a w) = slot_ready w"
  "slot_cleanup (orphan_kept a w) = slot_cleanup w" "is_orphan (orphan_kept a w) = is_orphan w"
  "w_bufs (orphan_kept a w) = w_bufs w" "w_stats (orphan_kept a w) = w_stats w"
  "w_orphan_backlog (orphan_kept a w) = w_orphan_backlog w"
  by (simp_all add: orphan_kept_def slot_ready_def slot_cleanup_def is_orphan_def cleanup_bufs_def fun_eq_iff
      split: option.split call_args.split)

lemma backlog_ok_Cons:
  assumes "backlog_ok w (a # as)"
  shows "is_orphan w a" "bufs_live w (slot_cleanup w a)" "backlog_ok w as" "a \<notin> set as"
    "backlog_ok (orphan_freed a w) as" "map (slot_cleanup (orphan_freed a w)) as = map (slot_cleanup w) as"
    "filter (slot_ready (orphan_freed a w)) as = filter (slot_ready w) as"
proof -
  show a: "is_orphan w a" "bufs_live w (slot_cleanup w a)" "backlog_ok w as" and n: "a \<notin> set as"
    using assms by (auto simp: backlog_ok_def bufs_live_def)
  have d: "b \<in> set as \<Longrightarrow> a \<noteq> b" for b using n by auto
  show m: "map (slot_cleanup (orphan_freed a w)) as = map (slot_cleanup w) as"
    by (rule map_cong) (simp_all add: orphan_step_frame d)
  show "filter (slot_ready (orphan_freed a w)) as = filter (slot_ready w) as"
    by (rule filter_cong) (simp_all add: orphan_step_frame d)
  have dis: "set (slot_cleanup w a) \<inter> set (concat (map (slot_cleanup w) as)) = {}"
    using assms by (simp add: backlog_ok_def bufs_live_def)
  have "bufs_live (orphan_freed a w) (concat (map (slot_cleanup w) as))"
    unfolding bufs_live_def
  proof (intro conjI ballI)
    show "distinct (concat (map (slot_cleanup w) as))"
      using a(3) by (simp add: backlog_ok_def bufs_live_def)
  next
    fix b assume b: "b \<in> set (concat (map (slot_cleanup w) as))"
    with a(3) show "b \<noteq> 0" by (auto simp: backlog_ok_def bufs_live_def)
    from b dis have "b \<notin> set (slot_cleanup w a)" by blast
    with a(3) b show "w_bufs (orphan_freed a w) b \<noteq> None"
      by (auto simp: orphan_freed_def backlog_ok_def bufs_live_def)
  qed
  then show "backlog_ok (orphan_freed a w) as"
    using a(3) d by (simp add: backlog_ok_def m orphan_step_frame)
qed

lemma backlog_ok_cong:
  assumes "w_slots w' = w_slots w" "w_bufs w' = w_bufs w" "in_shm_bounds w' = in_shm_bounds w"
  shows "slot_cleanup w' = slot_cleanup w" "slot_ready w' = slot_ready w" "backlog_ok w' as = backlog_ok w as"
proof -
  show c: "slot_cleanup w' = slot_cleanup w" and "slot_ready w' = slot_ready w"
    using assms by (simp_all add: slot_cleanup_def slot_ready_def cleanup_bufs_def fun_eq_iff split: option.split call_args.split)
  show "backlog_ok w' as = backlog_ok w as"
    using assms by (simp add: backlog_ok_def is_orphan_def bufs_live_def c)
qed

text \<open>The effect of a scan of \<open>as\<close> after the orphans \<open>kept\<close> were left in place.\<close>

definition scanned :: "'m world \<Rightarrow> addr list \<Rightarrow> addr list \<Rightarrow> 'm world \<Rightarrow> bool" where
  "scanned w kept as w' \<longleftrightarrow>
     w_slots w' = w_slots w |` (- set (reaped w as)) \<and>
     w_bufs w' = w_bufs w |` (- set (concat (map (slot_cleanup w) (reaped w as)))) \<and>
     w_stats w' = (w_stats w)\<lparr>
       buffer_free := buffer_free (w_stats w) + of_nat (length (concat (map (slot_cleanup w) (reaped w as)))),
       call_free := call_free (w_stats w) + of_nat (length (reaped w as))\<rparr> \<and>
     w_orphan_backlog w' = (if reaped w as = [] then w_orphan_backlog w else kept @ filter (\<lambda>a. \<not> slot_ready w a) as)"

lemma scanned_ready:
  assumes ok: "backlog_ok w (a # as)" and ready: "slot_ready w a"
    and rest: "scanned ((orphan_freed a w)\<lparr>w_orphan_backlog := kept @ as\<rparr>) kept as w'"
  shows "scanned w kept (a # as) w'"
proof -
  let ?w1 = "(orphan_freed a w)\<lparr>w_orphan_backlog := kept @ as\<rparr>"
  note c = backlog_ok_Cons [OF ok]
  have same: "slot_cleanup ?w1 = slot_cleanup (orphan_freed a w)" "slot_ready ?w1 = slot_ready (orphan_freed a w)"
    by (rule backlog_ok_cong; simp)+
  have d: "b \<in> set as \<Longrightarrow> a \<noteq> b" for b using c(4) by auto
  have r: "reaped ?w1 as = reaped w as" by (simp add: reaped_def same c)
  have f: "filter (\<lambda>a. \<not> slot_ready ?w1 a) as = filter (\<lambda>a. \<not> slot_ready w a) as"
    by (rule filter_cong) (simp_all add: same orphan_step_frame d)
  have m: "map (slot_cleanup ?w1) (reaped w as) = map (slot_cleanup w) (reaped w as)"
    by (rule map_cong) (simp_all add: same orphan_step_frame d reaped_def)
  have e: "filter (\<lambda>x. \<not> slot_ready w x) as = as" if "reaped w as = []"
    using that by (simp add: reaped_def filter_empty_conv)
  have ra: "reaped w (a # as) = a # reaped w as" using ready by (simp add: reaped_def)
  have mb: "(m |` (- S)) |` (- T) = m |` (- (S \<union> T))" for m :: "addr \<Rightarrow> 'b option" and S T
    by (simp add: fun_eq_iff restrict_map_def)
  show ?thesis
    using rest ready e unfolding scanned_def r m f ra
    by (simp add: orphan_freed_def mb add.assoc) (auto simp: fun_eq_iff restrict_map_def)
qed

lemma scanned_not_ready:
  assumes "\<not> slot_ready w a" and "scanned (orphan_kept a w) (kept @ [a]) as w'"
  shows "scanned w kept (a # as) w'"
proof -
  have same: "slot_cleanup (orphan_kept a w) = slot_cleanup w" "slot_ready (orphan_kept a w) = slot_ready w"
    by (simp_all add: orphan_kept_frame)
  have "reaped (orphan_kept a w) as = reaped w as" "reaped w (a # as) = reaped w as"
    using assms(1) by (simp_all add: reaped_def same)
  with assms show ?thesis
    unfolding scanned_def same orphan_kept_frame by (simp split del: if_split cong: if_cong)
qed

lemma scan_loop_ok:
  "backlog_ok w as \<Longrightarrow> \<exists>w'. scan_loop kept as (w, es) = Ret () (w', es) \<and> scanned w kept as w'"
proof (induction as arbitrary: kept w)
  case Nil
  then show ?case by (simp add: reaped_def scanned_def)
next
  case (Cons a as)
  note c = backlog_ok_Cons [OF Cons.prems]
  show ?case
  proof (cases "slot_ready w a")
    case True
    let ?w1 = "(orphan_freed a w)\<lparr>w_orphan_backlog := kept @ as\<rparr>"
    have "backlog_ok ?w1 as = backlog_ok (orphan_freed a w) as" by (rule backlog_ok_cong) simp_all
    with Cons.IH [of ?w1 kept] c(5) obtain w' where "scan_loop kept as (?w1, es) = Ret () (w', es)" "scanned ?w1 kept as w'" by auto
    moreover have "try_dispose_orphan a (w, es) = Ret True (orphan_freed a w, es)" using True c by (simp add: try_dispose_ready)
    ultimately show ?thesis using scanned_ready [OF Cons.prems True] by auto
  next
    case False
    have "backlog_ok (orphan_kept a w) as = backlog_ok w as" by (simp add: orphan_kept_frame backlog_ok_def bufs_live_def)
    with Cons.IH [of "orphan_kept a w" "kept @ [a]"] c(3) obtain w'
      where "scan_loop (kept @ [a]) as (orphan_kept a w, es) = Ret () (w', es)" "scanned (orphan_kept a w) (kept @ [a]) as w'" by auto
    moreover have "try_dispose_orphan a (w, es) = Ret False (orphan_kept a w, es)" using False c by (simp add: try_dispose_not_ready)
    ultimately show ?thesis using scanned_not_ready [OF False, of kept as w'] by (intro exI [of _ w']) (simp add: bind_op_def)
  qed
qed



section \<open>The thread\<close>

definition orphan_popped :: "'m world \<Rightarrow> 'm world" where
  "orphan_popped w = w\<lparr>w_orphaned_calls := deque_pop (w_orphaned_calls w)\<rparr>"

lemma orphan_popped_simps [simp]:
  "w_slots (orphan_popped w) = w_slots w" "w_bufs (orphan_popped w) = w_bufs w" "w_stats (orphan_popped w) = w_stats w"
  "w_orphan_backlog (orphan_popped w) = w_orphan_backlog w" "w_clock (orphan_popped w) = w_clock w"
  "w_orphaned_calls (orphan_popped w) = deque_pop (w_orphaned_calls w)"
  "in_shm_bounds (orphan_popped w) = in_shm_bounds w"
  by (simp_all add: orphan_popped_def fun_eq_iff in_shm_bounds_def)

lemma orphan_popped_frame [simp]:
  "slot_cleanup (orphan_popped w) = slot_cleanup w" "slot_ready (orphan_popped w) = slot_ready w"
  "backlog_ok (orphan_popped w) as = backlog_ok w as" "is_orphan (orphan_popped w) a = is_orphan w a"
  "bufs_live (orphan_popped w) bs = bufs_live w bs"
  by (rule backlog_ok_cong; simp)+ (simp_all add: is_orphan_def bufs_live_def)

lemma orphan_freed_simps [simp]:
  "w_orphan_backlog (orphan_freed a w) = w_orphan_backlog w"
  "w_orphaned_calls (orphan_freed a w) = w_orphaned_calls w" "w_clock (orphan_freed a w) = w_clock w"
  by (simp_all add: orphan_freed_def)

text \<open>A turn that takes a finished orphan frees it at once.\<close>

lemma gc_turn_reaps:
  assumes "w_orphan_backlog w = []" "\<not> d_closed (w_orphaned_calls w)" "d_items (w_orphaned_calls w) = a # as"
    and "is_orphan w a" "slot_ready w a" "bufs_live w (slot_cleanup w a)"
  shows "orphan_gc_turn l n (w, es) = Ret n (orphan_freed a (orphan_popped w), es)"
proof -
  have a: "a \<noteq> 0" using assms(4) by (simp add: is_orphan_def)
  have "deque_take w_orphaned_calls w_orphaned_calls_update (w, es) = Ret a (orphan_popped w, es)"
    using assms(2,3)
    by (simp add: deque_take_def deque_check_closed_def await_op_ready deque_pop_front_def orphan_popped_def bind_op_app)
  moreover have "try_dispose_orphan a (orphan_popped w, es) = Ret True (orphan_freed a (orphan_popped w), es)"
    using assms by (simp add: try_dispose_ready)
  ultimately show ?thesis
    using assms(1) a by (simp add: orphan_gc_turn_def)
qed



text \<open>A closed queue ends a turn at once, whatever it still holds.\<close>

lemma gc_turn_closed:
  "d_closed (w_orphaned_calls w) \<Longrightarrow> w_orphan_backlog w = [] \<or> l \<Longrightarrow>
   orphan_gc_turn l n (w, es) = Throw Queue_closed (w, es)"
  by (auto simp: orphan_gc_turn_def deque_take_def deque_poll_until_def deque_check_closed_def bind_op_app)



end
