(* ===== verification/C_If.thy ===== *)
theory C_If
  imports Orphans
begin

text \<open>
  The client side of the C interface, \<^verbatim>\<open>src/raft_c_if.cc\<close>: the calls that send a request to the
  Raft process, the operations on futures, and the synchronous calls built from them. A future
  is the address of its slot. A result parameter is passed as a flag that says whether the
  pointer is non-null, and what the code stores through it is returned as an option. \<open>B\<close> is the
  Boost memory segment.
\<close>

section \<open>Futures\<close>

text \<open>\<^verbatim>\<open>slot->timings.print()\<close>\<close>

definition print_op :: "addr \<Rightarrow> ('m, unit) wop" where
  "print_op f = bind_op (get_slot f) (\<lambda>s.
     modify_op (\<lambda>w. w\<lparr>w_printed := w_printed w @ [timings_print (w_msg_timing w) (sl_timings s)]\<rparr>))"

definition raft_future_wait :: "addr \<Rightarrow> ('m, RaftError) wop" where
  "raft_future_wait f = bind_op (gets_op (\<lambda>w. f = 0 \<or> \<not> in_shm_bounds w f)) (\<lambda>bad.
     if bad then ret_op RAFT_E_INVALID_OP
     else then_op (slot_wait f) (then_op (print_op f)
       (bind_op (get_slot f) (\<lambda>s. ret_op (sl_error s)))))"

definition raft_future_poll :: "addr \<Rightarrow> ('m, bool) wop" where
  "raft_future_poll f = slot_poll f"

definition raft_future_wait_for :: "addr \<Rightarrow> u64 \<Rightarrow> ('m, bool) wop" where
  "raft_future_wait_for f wait_ms = slot_wait_for f wait_ms"

definition future_tag :: "addr \<Rightarrow> ('m, CallTag) wop" where
  "future_tag f = then_op (assert_op (f \<noteq> 0)) (bind_op (get_slot f) (\<lambda>s. ret_op (sl_tag s)))"

definition future_state :: "addr \<Rightarrow> ('m, CallState) wop" where
  "future_state f = then_op (assert_op (f \<noteq> 0)) (bind_op (get_slot f) (\<lambda>s. ret_op (sl_state s)))"

definition raft_future_get_fsm_reply :: "addr \<Rightarrow> bool \<Rightarrow> ('m, RaftError \<times> u64 option) wop" where
  "raft_future_get_fsm_reply f value_ptr = bind_op (future_tag f) (\<lambda>t.
     if t \<noteq> Tag_Apply then ret_op (RAFT_E_INVALID_OP, None) else slot_get_ptr f value_ptr)"

definition future_get :: "addr \<Rightarrow> bool \<Rightarrow> ('m, RaftError \<times> u64 option) wop" where
  "future_get f res =
     (if f = 0 then ret_op (RAFT_E_INVALID_OP, None)
      else if \<not> res then ret_op (RAFT_E_INVALID_ADDRESS, None)
      else bind_op (future_state f) (\<lambda>st.
        bind_op (if \<not> is_terminal st then raft_future_wait f else ret_op RAFT_SUCCESS) (\<lambda>err.
          if err = RAFT_SUCCESS then bind_op (slot_value f) (\<lambda>v. ret_op (err, Some v))
          else ret_op (err, None))))"

definition raft_future_get_stats :: "'m boost \<Rightarrow> addr \<Rightarrow> bool \<Rightarrow> ('m, RaftError \<times> addr option) wop" where
  "raft_future_get_stats B f res = bind_op (future_tag f) (\<lambda>t.
     if t \<noteq> Tag_Stats then ret_op (RAFT_E_INVALID_OP, None)
     else if \<not> res then ret_op (RAFT_E_INVALID_ADDRESS, None)
     else bind_op (future_get f True) (\<lambda>(err, handle). case handle of
         None \<Rightarrow> ret_op (err, None)
       | Some h \<Rightarrow> then_op (assert_op (h \<noteq> 0))
           (gets_op (\<lambda>w. (err, Some (bo_get_address_from_handle B w h))))))"

definition future_get_f :: "addr \<Rightarrow> ('m, u64) wop" where
  "future_get_f f =
     then_op (assert_op (f \<noteq> 0))
    (bind_op (future_state f) (\<lambda>st.
     then_op (assert_op (is_terminal st)) (slot_value f)))"

definition raft_future_dispose :: "addr \<Rightarrow> ('m, unit) wop" where
  "raft_future_dispose f = slot_dispose f"

definition future_eat :: "addr \<Rightarrow> bool \<Rightarrow> ('m, RaftError \<times> u64 option) wop" where
  "future_eat f res = bind_op (future_get f res) (\<lambda>r. then_op (raft_future_dispose f) (ret_op r))"

section \<open>Calls\<close>

definition raft_is_leader :: "('m, bool) wop" where
  "raft_is_leader = gets_op w_is_leader"

definition raft_apply :: "'m boost \<Rightarrow> addr \<Rightarrow> u64 \<Rightarrow> u64 \<Rightarrow> ('m, addr) wop" where
  "raft_apply B cmd len timeout =
     bind_op (gets_op (\<lambda>w. cmd \<noteq> 0 \<and> in_shm_bounds w cmd \<and> in_shm_bounds w (cmd + len))) (\<lambda>ok.
       if ok then send_api_request B Tag_Apply (Args_Apply (mk_ApplyArgs cmd len timeout))
       else make_error_request B RAFT_E_INVALID_ADDRESS Tag_Apply (Args_Apply (mk_ApplyArgs cmd len timeout)))"

definition raft_apply_sync :: "'m boost \<Rightarrow> addr \<Rightarrow> u64 \<Rightarrow> u64 \<Rightarrow> bool \<Rightarrow> ('m, RaftError \<times> u64 option) wop" where
  "raft_apply_sync B cmd len timeout res =
     (if \<not> res then ret_op (RAFT_E_INVALID_ADDRESS, None)
      else bind_op (raft_apply B cmd len timeout) (\<lambda>f.
        then_op (raft_future_wait f)
       (bind_op (raft_future_get_fsm_reply f res) (\<lambda>r.
        then_op (raft_future_dispose f) (ret_op r)))))"

definition raft_barrier :: "'m boost \<Rightarrow> u64 \<Rightarrow> ('m, addr) wop" where
  "raft_barrier B timeout = send_api_request B Tag_Barrier (Args_Barrier timeout)"

definition raft_verify_leader :: "'m boost \<Rightarrow> ('m, addr) wop" where
  "raft_verify_leader B = send_api_request B Tag_VerifyLeader NoArgs"

text \<open>The enumeration \<^verbatim>\<open>RaftState\<close> is represented by its 32-bit value.\<close>

definition raft_state :: "'m boost \<Rightarrow> ('m, u32) wop" where
  "raft_state B =
     bind_op (send_api_request B Tag_GetState NoArgs) (\<lambda>f.
     bind_op (raft_future_wait f) (\<lambda>err.
     bind_op (if err = RAFT_SUCCESS then bind_op (future_get_f f) (\<lambda>v. ret_op (ucast v))
              else ret_op (of_nat (state_value RAFT_INVALID_STATE))) (\<lambda>st.
     then_op (raft_future_dispose f) (ret_op st))))"

definition raft_last_contact :: "'m boost \<Rightarrow> ('m, u64) wop" where
  "raft_last_contact B =
     bind_op (send_api_request B Tag_GetState NoArgs) (\<lambda>f.
     bind_op (raft_future_wait f) (\<lambda>err.
     bind_op (if err = RAFT_SUCCESS then future_get_f f else ret_op 0) (\<lambda>last_contact.
     then_op (raft_future_dispose f) (ret_op last_contact))))"

definition raft_last_index :: "'m boost \<Rightarrow> ('m, u64) wop" where
  "raft_last_index B =
     bind_op (send_api_request B Tag_LastIndex NoArgs) (\<lambda>f.
     bind_op (future_eat f True) (\<lambda>(err, idx). case idx of None \<Rightarrow> ret_op 0 | Some i \<Rightarrow> ret_op i))"

definition raft_leader :: "'m boost \<Rightarrow> bool \<Rightarrow> ('m, RaftError \<times> addr option) wop" where
  "raft_leader B res =
     (if \<not> res then ret_op (RAFT_E_INVALID_ADDRESS, None)
      else bind_op (send_api_request B Tag_GetLeader NoArgs) (\<lambda>f.
        bind_op (future_eat f True) (\<lambda>(err, pval). case pval of
            None \<Rightarrow> ret_op (err, None)
          | Some p \<Rightarrow> then_op (assert_op (p \<noteq> 0))
              (gets_op (\<lambda>w. (err, Some (bo_get_address_from_handle B w p)))))))"

definition raft_snapshot :: "'m boost \<Rightarrow> ('m, addr) wop" where
  "raft_snapshot B = send_api_request B Tag_Snapshot NoArgs"

text \<open>The constructor of \<^verbatim>\<open>NetworkAddr\<close> copies the host into the memory of the new slot.\<close>

definition raft_add_peer :: "'m boost \<Rightarrow> string \<Rightarrow> u16 \<Rightarrow> ('m, addr) wop" where
  "raft_add_peer B host port = bind_op (gets_op (garbage 256)) (\<lambda>mem.
     send_api_request B Tag_AddPeer (Args_Addr (mk_NetworkAddr mem host port)))"

definition raft_remove_peer :: "'m boost \<Rightarrow> string \<Rightarrow> u16 \<Rightarrow> ('m, addr) wop" where
  "raft_remove_peer B host port = bind_op (gets_op (garbage 256)) (\<lambda>mem.
     send_api_request B Tag_RemovePeer (Args_Addr (mk_NetworkAddr mem host port)))"

definition raft_stats :: "'m boost \<Rightarrow> ('m, addr) wop" where
  "raft_stats B = send_api_request B Tag_Stats NoArgs"

definition raft_shutdown :: "'m boost \<Rightarrow> ('m, addr) wop" where
  "raft_shutdown B =
     then_op (modify_op (\<lambda>w. w\<lparr>w_shutdown_requested := True\<rparr>)) (send_api_request B Tag_Shutdown NoArgs)"

section \<open>Waiting along a schedule\<close>

text \<open>The other threads run \<open>pre\<close> while the call is pending in every state before its end.\<close>

fun pends :: "addr \<Rightarrow> 'm world \<Rightarrow> 'm world sched \<Rightarrow> bool" where
  "pends a w [] = True"
| "pends a w (e # es) \<longleftrightarrow> slot_pending a w \<and> pends a (e w) es"

definition after :: "'s sched \<Rightarrow> 's \<Rightarrow> 's" where
  "after es s = fold (\<lambda>e t. e t) es s"

lemma after_simps [simp]: "after [] s = s" "after (e # es) s = after es (e s)"
  by (simp_all add: after_def)

lemma slot_wait_along: "pends a w pre \<Longrightarrow> slot_wait a (w, pre @ es) = slot_wait a (after pre w, es)"
proof (induction pre arbitrary: w)
  case (Cons e pre)
  then obtain s where "w_slots w a = Some s" "sl_owned s \<or> \<not> is_terminal (sl_state s)"
    by (auto simp: slot_pending_def split: option.splits)
  with Cons show ?case by (simp add: slot_wait_step)
qed simp

text \<open>The world after a future was waited for.\<close>

definition waited :: "addr \<Rightarrow> slot \<Rightarrow> 'm world \<Rightarrow> 'm world" where
  "waited f s w = w\<lparr>w_slots := (w_slots w)(f \<mapsto> observed_slot (w_clock w) s),
     w_printed := w_printed w @ [timings_print (w_msg_timing w) (sl_timings (observed_slot (w_clock w) s))]\<rparr>"

lemma raft_future_wait_along:
  assumes "f \<noteq> 0" "in_shm_bounds w f" "pends f w pre"
    and "w_slots (after pre w) f = Some s" "\<not> sl_owned s" "is_terminal (sl_state s)"
  shows "raft_future_wait f (w, pre @ es) = Ret (sl_error s) (waited f s (after pre w), es)"
proof -
  have "slot_wait f (w, pre @ es) =
      Ret () ((after pre w)\<lparr>w_slots := (w_slots (after pre w))(f \<mapsto> observed_slot (w_clock (after pre w)) s)\<rparr>, es)"
    using assms by (simp add: slot_wait_along slot_wait_ready)
  with assms show ?thesis
    by (simp add: raft_future_wait_def print_op_def waited_def observed_slot_def)
qed

lemmas raft_future_wait_ready = raft_future_wait_along [where pre = "[]", simplified]

lemma waited_slot [simp]: "w_slots (waited f s w) f = Some (observed_slot (w_clock w) s)"
  by (simp add: waited_def)

lemma observed_slot_simps [simp]:
  "sl_client_state (observed_slot t s) = Observed" "sl_state (observed_slot t s) = sl_state s"
  "sl_error (observed_slot t s) = sl_error s" "sl_retval (observed_slot t s) = sl_retval s"
  "sl_tag (observed_slot t s) = sl_tag s" "sl_owned (observed_slot t s) = sl_owned s"
  "sl_args (observed_slot t s) = sl_args s"
  by (simp_all add: observed_slot_def)

lemma slot_get_ptr_terminal:
  "w_slots w f = Some s \<Longrightarrow> is_terminal (sl_state s) \<Longrightarrow> sl_tag s = Tag_Apply \<Longrightarrow>
   slot_get_ptr f True (w, es) =
     Ret (sl_error s, if sl_error s = RAFT_SUCCESS then Some (sl_retval s) else None) (w, es)"
  by (simp add: slot_get_ptr_def)

lemma get_fsm_reply_terminal:
  "w_slots w f = Some s \<Longrightarrow> is_terminal (sl_state s) \<Longrightarrow> sl_tag s = Tag_Apply \<Longrightarrow> f \<noteq> 0 \<Longrightarrow>
   raft_future_get_fsm_reply f True (w, es) =
     Ret (sl_error s, if sl_error s = RAFT_SUCCESS then Some (sl_retval s) else None) (w, es)"
  by (simp add: raft_future_get_fsm_reply_def future_tag_def slot_get_ptr_terminal)

section \<open>Applying a command\<close>

text \<open>The state in which an Apply request has just been queued under the address \<open>a\<close>.\<close>

definition apply_sent :: "addr \<Rightarrow> u64 \<Rightarrow> u64 \<Rightarrow> addr \<Rightarrow> 'm world \<Rightarrow> 'm world" where
  "apply_sent cmd len timeout a w = w_api_queue_update (abq_insert 8 (Tag_Apply, a))
     (slot_made a (sent_slot w Tag_Apply (Args_Apply (mk_ApplyArgs cmd len timeout))) w)"

definition call_counted :: "'m world \<Rightarrow> 'm world" where
  "call_counted w = w\<lparr>w_stats := (w_stats w)\<lparr>call_alloc := call_alloc (w_stats w) + 1\<rparr>\<rparr>"

definition cmd_in_shm :: "'m world \<Rightarrow> addr \<Rightarrow> u64 \<Rightarrow> bool" where
  "cmd_in_shm w cmd len \<longleftrightarrow> cmd \<noteq> 0 \<and> in_shm_bounds w cmd \<and> in_shm_bounds w (cmd + len)"

definition api_open :: "'m world \<Rightarrow> bool" where
  "api_open w \<longleftrightarrow> abq_wf 8 (w_api_queue w) \<and> \<not> q_closed (w_api_queue w) \<and> q_count (w_api_queue w) \<noteq> 8"

lemma call_counted_bounds [simp]: "in_shm_bounds (call_counted w) = in_shm_bounds w"
  by (simp add: call_counted_def fun_eq_iff in_shm_bounds_def)

lemma raft_apply_open:
  assumes "cmd_in_shm w cmd len" "api_open w" "bo_allocate_one B (call_counted w) = Some a"
  shows "raft_apply B cmd len timeout (w, es) = Ret a (apply_sent cmd len timeout a w, es)"
  using assms by (simp add: raft_apply_def send_api_request_open cmd_in_shm_def api_open_def apply_sent_def call_counted_def)

lemma sent_slot_simps [simp]:
  "sl_tag (sent_slot w t args) = t" "sl_args (sent_slot w t args) = args" "sl_state (sent_slot w t args) = Pending"
  "sl_client_state (sent_slot w t args) = Issued" "sl_retval (sent_slot w t args) = 0"
  "sl_error (sent_slot w t args) = RAFT_SUCCESS" "sl_owned (sent_slot w t args) = False"
  by (simp_all add: sent_slot_def mk_slot_def)

lemma boost_alloc_one:
  assumes "boost_ok B" "bo_allocate_one B (call_counted w) = Some a"
  shows "a \<noteq> 0" "in_shm_bounds w a" "w_slots w a = None"
proof -
  have "fresh_addr (call_counted w) a" using assms by (auto simp: boost_ok_def)
  then show "a \<noteq> 0" "in_shm_bounds w a" "w_slots w a = None"
    by (auto simp: fresh_addr_def call_counted_def in_shm_bounds_def)
qed

text \<open>
  C3. The synchronous apply, end to end: when the queue accepts the request and the Raft process
  replies while the client waits, \<^verbatim>\<open>raft_apply_sync\<close> returns exactly the error of the reply, and
  the reply's value if and only if that error is success; the slot is freed and counted as freed,
  and nothing else that the other threads left behind is changed, in particular not the caller's
  command buffer and not the queue of orphans.
\<close>

theorem raft_apply_sync_result:
  assumes "boost_ok B" and "cmd_in_shm w cmd len" and "api_open w"
    and "bo_allocate_one B (call_counted w) = Some a"
    and "pends a (apply_sent cmd len timeout a w) pre"
    and "after pre (apply_sent cmd len timeout a w) = w2"
    and "w_slots w2 a = Some s" and "sl_tag s = Tag_Apply" and "\<not> sl_owned s" and "is_terminal (sl_state s)"
  shows "\<exists>w'. raft_apply_sync B cmd len timeout True (w, pre @ es) =
      Ret (sl_error s, if sl_error s = RAFT_SUCCESS then Some (sl_retval s) else None) (w', es) \<and>
    w_slots w' = (w_slots w2)(a := None) \<and> w_bufs w' = w_bufs w2 \<and>
    w_orphaned_calls w' = w_orphaned_calls w2 \<and> w_api_queue w' = w_api_queue w2 \<and>
    w_stats w' = (w_stats w2)\<lparr>call_free := call_free (w_stats w2) + 1\<rparr>"
proof -
  note al = boost_alloc_one [OF assms(1,4)]
  have b: "in_shm_bounds (apply_sent cmd len timeout a w) a"
    using al by (simp add: in_shm_bounds_def apply_sent_def slot_made_def)
  have "raft_future_wait a (apply_sent cmd len timeout a w, pre @ es) = Ret (sl_error s) (waited a s w2, es)"
    using raft_future_wait_along [OF al(1) b assms(5)] assms(6-10) by simp
  moreover have "raft_future_get_fsm_reply a True (waited a s w2, es) =
      Ret (sl_error s, if sl_error s = RAFT_SUCCESS then Some (sl_retval s) else None) (waited a s w2, es)"
    using get_fsm_reply_terminal [of "waited a s w2" a "observed_slot (w_clock w2) s" es] assms al by simp
  moreover have "raft_future_dispose a (waited a s w2, es) = Ret () (slot_freed a (waited a s w2), es)"
    by (simp add: raft_future_dispose_def slot_dispose_Observed)
  ultimately have "raft_apply_sync B cmd len timeout True (w, pre @ es) =
      Ret (sl_error s, if sl_error s = RAFT_SUCCESS then Some (sl_retval s) else None) (slot_freed a (waited a s w2), es)"
    by (simp add: raft_apply_sync_def raft_apply_open [OF assms(2-4)])
  then show ?thesis by (simp add: slot_freed_def waited_def)
qed

text \<open>An operation of another thread as an entry of a schedule: its effect if it returns.\<close>

definition as_env :: "('s, 'a) op \<Rightarrow> 's \<Rightarrow> 's" where
  "as_env m s = (case m (s, []) of Ret _ (s', _) \<Rightarrow> s' | _ \<Rightarrow> s)"

lemma start_world_simps [simp]:
  "w_slots (start_world m) = Map.empty" "w_bufs (start_world m) = Map.empty"
  "w_orphaned_calls (start_world m) = deque_new" "w_orphan_backlog (start_world m) = []"
  "w_shm_base (start_world m) = 0x10000000" "w_shm_size (start_world m) = 0x4000000"
  "w_msg_timing (start_world m) = False" "w_clock (start_world m) = 0" "w_fsm (start_world m) = m"
  by (simp_all add: start_world_def)

lemma demo_alloc:
  "bo_allocate_one (first_fit [0x10001000]) (call_counted (start_world m)) = Some 0x10001000"
  by (simp add: first_fit_def fresh_addr_def in_shm_bounds_def call_counted_def)

lemma demo_api_open: "api_open (start_world m)"
  by (simp add: api_open_def start_world_def abq_zeroed_def abq_wf_def)

lemma demo_cmd: "cmd_in_shm (start_world m) 0x10002000 256"
  by (simp add: cmd_in_shm_def in_shm_bounds_def)

lemma demo_sent:
  "w_slots (apply_sent 0x10002000 256 0 0x10001000 (start_world m)) 0x10001000 =
     Some (sent_slot (start_world m) Tag_Apply (Args_Apply (mk_ApplyArgs 0x10002000 256 0)))"
  by (simp add: apply_sent_def slot_made_def)

theorem raft_apply_sync_result_witness:
  "\<exists>w'. raft_apply_sync (first_fit [0x10001000]) 0x10002000 256 0 True
      (start_world (), [as_env (slot_reply_val 0x10001000 42)]) = Ret (RAFT_SUCCESS, Some 42) (w', []) \<and>
    w_slots w' 0x10001000 = None"
proof -
  let ?w1 = "apply_sent 0x10002000 256 0 0x10001000 (start_world ())"
  let ?e = "as_env (slot_reply_val 0x10001000 42)"
  have e: "w_slots (?e ?w1) 0x10001000 = Some (replied_slot RAFT_SUCCESS (w_clock ?w1)
     ((sent_slot (start_world ()) Tag_Apply (Args_Apply (mk_ApplyArgs 0x10002000 256 0)))\<lparr>sl_retval := 42\<rparr>))"
    by (simp add: as_env_def slot_reply_val_ok demo_sent)
  have p: "pends 0x10001000 ?w1 [?e]"
    using demo_sent [of "()"] by (simp add: slot_pending_simps)
  show ?thesis
    using raft_apply_sync_result [OF first_fit_ok demo_cmd demo_api_open demo_alloc p refl, where es = "[]"] e
    by (auto simp: replied_slot_def)
qed

lemma make_error_request_ok:
  assumes "bo_allocate_one B (call_counted w) = Some a" and "err \<noteq> RAFT_SUCCESS"
  shows "make_error_request B err t args (w, es) =
    Ret a (slot_made a ((mk_slot t args)\<lparr>sl_error := err, sl_state := Error\<rparr>) w, es)"
  using assms by (simp add: make_error_request_def alloc_request_def call_counted_def slot_made_def)

definition error_slot :: "addr \<Rightarrow> u64 \<Rightarrow> u64 \<Rightarrow> slot" where
  "error_slot cmd len timeout = (mk_slot Tag_Apply (Args_Apply (mk_ApplyArgs cmd len timeout)))
     \<lparr>sl_error := RAFT_E_INVALID_ADDRESS, sl_state := Error\<rparr>"

lemma raft_apply_error:
  assumes "\<not> cmd_in_shm w cmd len" "bo_allocate_one B (call_counted w) = Some a"
  shows "raft_apply B cmd len timeout (w, es) = Ret a (slot_made a (error_slot cmd len timeout) w, es)"
  using assms unfolding cmd_in_shm_def
  by (auto simp: raft_apply_def make_error_request_ok error_slot_def)

lemma slot_made_simps [simp]:
  "w_slots (slot_made a s w) a = Some s" "w_api_queue (slot_made a s w) = w_api_queue w"
  "w_bufs (slot_made a s w) = w_bufs w" "w_orphaned_calls (slot_made a s w) = w_orphaned_calls w"
  by (simp_all add: slot_made_def)



text \<open>
  The bounds check of \<^verbatim>\<open>raft_apply\<close> tests the address behind the command instead of its last
  byte, with wrapping pointer arithmetic. A command that ends exactly at the end of the segment is
  refused although every byte of it is inside; and a length that wraps around to any address \<open>p\<close>
  of the segment is accepted, also when \<open>p\<close> lies before the command.
\<close>

lemma raft_apply_bounds_gaps:
  assumes "bo_allocate_one B (call_counted w) = Some a" and "api_open w"
    and "cmd \<noteq> 0" and "in_shm_bounds w cmd" and "in_shm_bounds w p"
  shows "\<exists>w1 w2 s1 s2. raft_apply B (w_shm_base w + w_shm_size w - len) len timeout (w, es) = Ret a (w1, es) \<and>
    w_slots w1 a = Some s1 \<and> sl_error s1 = RAFT_E_INVALID_ADDRESS \<and>
    raft_apply B cmd (p - cmd) timeout (w, es) = Ret a (w2, es) \<and>
    w_slots w2 a = Some s2 \<and> sl_state s2 = Pending"
proof -
  have n: "\<not> cmd_in_shm w (w_shm_base w + w_shm_size w - len) len"
    by (simp add: cmd_in_shm_def in_shm_bounds_def)
  have y: "cmd_in_shm w cmd (p - cmd)" using assms by (simp add: cmd_in_shm_def)
  from raft_apply_error [OF n assms(1)] raft_apply_open [OF y assms(2,1)] show ?thesis
    by (simp add: apply_sent_def slot_made_def error_slot_def)
qed

lemma raft_apply_bounds_gaps_witness:
  "\<exists>w1 w2 s1 s2. raft_apply (first_fit [0x10001000]) 0x13ffff00 256 0 (start_world (), []) = Ret 0x10001000 (w1, []) \<and>
    w_slots w1 0x10001000 = Some s1 \<and> sl_error s1 = RAFT_E_INVALID_ADDRESS \<and>
    raft_apply (first_fit [0x10001000]) 0x10002000 (- 1) 0 (start_world (), []) = Ret 0x10001000 (w2, []) \<and>
    w_slots w2 0x10001000 = Some s2 \<and> sl_state s2 = Pending"
  using raft_apply_bounds_gaps [OF demo_alloc [of "()"] demo_api_open, where cmd = "0x10002000" and p = "0x10001fff" and len = 256 and timeout = 0 and es = "[]"]
  by (simp add: in_shm_bounds_def)

section \<open>The synchronous calls\<close>

definition call_sent :: "CallTag \<Rightarrow> call_args \<Rightarrow> addr \<Rightarrow> 'm world \<Rightarrow> 'm world" where
  "call_sent t args a w = w_api_queue_update (abq_insert 8 (t, a)) (slot_made a (sent_slot w t args) w)"

lemma send_api_open:
  "api_open w \<Longrightarrow> bo_allocate_one B (call_counted w) = Some a \<Longrightarrow>
   send_api_request B t args (w, es) = Ret a (call_sent t args a w, es)"
  by (simp add: send_api_request_open api_open_def call_sent_def call_counted_def)

lemma send_api_closed:
  "q_closed (w_api_queue w) \<Longrightarrow> bo_allocate_one B (call_counted w) = Some a \<Longrightarrow>
   send_api_request B t args (w, es) =
     Ret a (slot_made a ((sent_slot w t args)\<lparr>sl_error := RAFT_E_IN_SHUTDOWN, sl_state := Error\<rparr>) w, es)"
  by (simp add: send_api_request_shut call_counted_def)

lemma call_sent_bounds: "in_shm_bounds (call_sent t args a w) = in_shm_bounds w"
  by (simp add: call_sent_def slot_made_def fun_eq_iff in_shm_bounds_def)

text \<open>
  \<^verbatim>\<open>raft_state\<close> queues a \<^verbatim>\<open>GetState\<close> request and blocks until it is answered. When it is,
  the result is the replied state, or \<^verbatim>\<open>RAFT_INVALID_STATE\<close> for an error reply, and the slot is
  freed in both cases.
\<close>

lemma raft_state_result:
  assumes "boost_ok B" and "api_open w" and "bo_allocate_one B (call_counted w) = Some a"
    and "pends a (call_sent Tag_GetState NoArgs a w) pre"
    and "after pre (call_sent Tag_GetState NoArgs a w) = w2"
    and "w_slots w2 a = Some s" and "sl_tag s = Tag_GetState" and "\<not> sl_owned s" and "is_terminal (sl_state s)"
  shows "\<exists>w'. raft_state B (w, pre @ es) = Ret (if sl_error s = RAFT_SUCCESS then ucast (sl_retval s) else 0) (w', es) \<and>
    w_slots w' = (w_slots w2)(a := None) \<and> call_free (w_stats w') = call_free (w_stats w2) + 1 \<and>
    raft_state B (w, []) = Blocked (call_sent Tag_GetState NoArgs a w, [])"
proof -
  note al = boost_alloc_one [OF assms(1,3)]
  have b: "in_shm_bounds (call_sent Tag_GetState NoArgs a w) a" using al by (simp add: call_sent_bounds)
  have "raft_future_wait a (call_sent Tag_GetState NoArgs a w, pre @ es) = Ret (sl_error s) (waited a s w2, es)"
    using raft_future_wait_along [OF al(1) b assms(4)] assms(5-9) by simp
  moreover have "future_get_f a (waited a s w2, es) = Ret (sl_retval s) (waited a s w2, es)"
    using assms al by (simp add: future_get_f_def future_state_def slot_value_def)
  moreover have "raft_future_dispose a (waited a s w2, es) = Ret () (slot_freed a (waited a s w2), es)"
    by (simp add: raft_future_dispose_def slot_dispose_Observed)
  moreover have "raft_future_wait a (call_sent Tag_GetState NoArgs a w, []) = Blocked (call_sent Tag_GetState NoArgs a w, [])"
    using b al(1) by (simp add: raft_future_wait_def slot_wait_blocked [where s = "sent_slot w Tag_GetState NoArgs"] call_sent_def)
  ultimately show ?thesis
    by (simp add: raft_state_def send_api_open [OF assms(2,3)] slot_freed_def waited_def)
qed

lemma raft_state_result_witness:
  "\<exists>w'. raft_state (first_fit [0x10001000]) (start_world (), [as_env (slot_reply_val 0x10001000 3)]) = Ret 3 (w', []) \<and>
    w_slots w' 0x10001000 = None"
proof -
  let ?w1 = "call_sent Tag_GetState NoArgs 0x10001000 (start_world ())"
  let ?e = "as_env (slot_reply_val 0x10001000 3)"
  have s: "w_slots ?w1 0x10001000 = Some (sent_slot (start_world ()) Tag_GetState NoArgs)"
    by (simp add: call_sent_def)
  have e: "w_slots (?e ?w1) 0x10001000 =
      Some (replied_slot RAFT_SUCCESS (w_clock ?w1) ((sent_slot (start_world ()) Tag_GetState NoArgs)\<lparr>sl_retval := 3\<rparr>))"
    by (simp add: as_env_def slot_reply_val_ok s)
  have p: "pends 0x10001000 ?w1 [?e]" using s by (simp add: slot_pending_simps)
  show ?thesis
    using raft_state_result [OF first_fit_ok demo_api_open demo_alloc p refl, where es = "[]"] e
    by (auto simp: replied_slot_def)
qed

text \<open>
  \<^verbatim>\<open>raft_last_contact\<close> never asks for the last contact: the request it queues and blocks on is
  \<^verbatim>\<open>GetState\<close>, and what it returns for an answer is that state value, as a time.
\<close>

lemma raft_last_contact_asks_for_state:
  assumes "boost_ok B" and "api_open w" and "bo_allocate_one B (call_counted w) = Some a"
  shows "\<exists>w'. raft_last_contact B (w, []) = Blocked (w', []) \<and>
    abq_list (w_api_queue w') = abq_list (w_api_queue w) @ [(Tag_GetState, a)] \<and>
    (\<exists>w''. raft_last_contact B (w, [as_env (slot_reply_val a v)]) = Ret v (w'', []))"
proof -
  let ?w1 = "call_sent Tag_GetState NoArgs a w"
  let ?s = "replied_slot RAFT_SUCCESS (w_clock ?w1) ((sent_slot w Tag_GetState NoArgs)\<lparr>sl_retval := v\<rparr>)"
  let ?w2 = "as_env (slot_reply_val a v) ?w1"
  note al = boost_alloc_one [OF assms(1,3)]
  have b: "in_shm_bounds ?w1 a" using al by (simp add: call_sent_bounds)
  have s: "w_slots ?w1 a = Some (sent_slot w Tag_GetState NoArgs)" by (simp add: call_sent_def)
  then have e: "w_slots ?w2 a = Some ?s" by (simp add: as_env_def slot_reply_val_ok)
  have p: "pends a ?w1 [as_env (slot_reply_val a v)]" using s by (simp add: slot_pending_simps)
  have "raft_future_wait a (?w1, [as_env (slot_reply_val a v)]) = Ret RAFT_SUCCESS (waited a ?s ?w2, [])"
    using raft_future_wait_along [OF al(1) b p, of ?s "[]"] e by (simp add: replied_slot_def)
  moreover have "future_get_f a (waited a ?s ?w2, []) = Ret v (waited a ?s ?w2, [])"
    using al by (simp add: future_get_f_def future_state_def slot_value_def replied_slot_def)
  moreover have "raft_future_dispose a (waited a ?s ?w2, []) = Ret () (slot_freed a (waited a ?s ?w2), [])"
    by (simp add: raft_future_dispose_def slot_dispose_Observed)
  moreover have "raft_future_wait a (?w1, []) = Blocked (?w1, [])"
    using b al(1) s by (simp add: raft_future_wait_def slot_wait_blocked)
  moreover have "abq_list (w_api_queue ?w1) = abq_list (w_api_queue w) @ [(Tag_GetState, a)]"
    using assms(2) by (simp add: call_sent_def api_open_def abq_insert_wf)
  ultimately show ?thesis
    by (simp add: raft_last_contact_def send_api_open [OF assms(2,3)])
qed

lemma raft_last_contact_asks_for_state_witness:
  "\<exists>w'. raft_last_contact (first_fit [0x10001000]) (start_world (), [as_env (slot_reply_val 0x10001000 2)]) = Ret 2 (w', [])"
  using raft_last_contact_asks_for_state [OF first_fit_ok demo_api_open demo_alloc [of "()"], where v = 2] by auto

text \<open>\<^verbatim>\<open>future_get\<close> consults the error of a call only if it has to wait for it.\<close>

lemma future_get_terminal:
  "w_slots w f = Some s \<Longrightarrow> is_terminal (sl_state s) \<Longrightarrow> has_ret (sl_tag s) \<Longrightarrow> f \<noteq> 0 \<Longrightarrow>
   future_get f True (w, es) = Ret (RAFT_SUCCESS, Some (sl_retval s)) (w, es)"
  by (simp add: future_get_def future_state_def slot_value_def)


definition demo_shut_world :: "unit world" where
  "demo_shut_world = (start_world ())\<lparr>w_api_queue := (abq_zeroed 8 (Tag_Invalid, 0))\<lparr>q_closed := True\<rparr>,
     w_slots := [0x10003000 \<mapsto> (mk_slot Tag_Stats NoArgs)\<lparr>sl_error := RAFT_E_IN_SHUTDOWN, sl_state := Error\<rparr>]\<rparr>"


section \<open>Misuse and error paths\<close>

text \<open>
  The operations on futures reject what they can recognise. Waiting on a null future or on an
  address outside the segment gives \<^verbatim>\<open>RAFT_E_INVALID_OP\<close> and changes nothing. Reading the reply of
  a call that is not an Apply call, or the statistics of one that is not a Stats call, gives
  \<^verbatim>\<open>RAFT_E_INVALID_OP\<close> without waiting, and a null result pointer gives
  \<^verbatim>\<open>RAFT_E_INVALID_ADDRESS\<close>; in no case is a value delivered or the state changed.
\<close>

lemma future_error_paths:
  assumes "w_slots w f = Some s" and "f \<noteq> 0"
  shows "(g = 0 \<or> \<not> in_shm_bounds w g \<longrightarrow> raft_future_wait g (w, es) = Ret RAFT_E_INVALID_OP (w, es)) \<and>
    (sl_tag s \<noteq> Tag_Apply \<longrightarrow> raft_future_get_fsm_reply f r (w, es) = Ret (RAFT_E_INVALID_OP, None) (w, es)) \<and>
    (sl_tag s \<noteq> Tag_Stats \<longrightarrow> raft_future_get_stats B f r (w, es) = Ret (RAFT_E_INVALID_OP, None) (w, es)) \<and>
    (sl_tag s = Tag_Stats \<longrightarrow> raft_future_get_stats B f False (w, es) = Ret (RAFT_E_INVALID_ADDRESS, None) (w, es)) \<and>
    (sl_tag s = Tag_Apply \<and> is_terminal (sl_state s) \<longrightarrow>
      raft_future_get_fsm_reply f False (w, es) = Ret (RAFT_E_INVALID_ADDRESS, None) (w, es)) \<and>
    raft_apply_sync B cmd len timeout False (w, es) = Ret (RAFT_E_INVALID_ADDRESS, None) (w, es) \<and>
    raft_leader B False (w, es) = Ret (RAFT_E_INVALID_ADDRESS, None) (w, es)"
  using assms
  by (auto simp: raft_future_wait_def raft_future_get_fsm_reply_def raft_future_get_stats_def future_tag_def
      slot_get_ptr_def raft_apply_sync_def raft_leader_def)

lemma future_error_paths_witness:
  "raft_future_get_fsm_reply 0x10003000 True (demo_shut_world, []) = Ret (RAFT_E_INVALID_OP, None) (demo_shut_world, [])"
  using future_error_paths [of demo_shut_world "0x10003000" "(mk_slot Tag_Stats NoArgs)\<lparr>sl_error := RAFT_E_IN_SHUTDOWN, sl_state := Error\<rparr>"]
  by (simp add: demo_shut_world_def mk_slot_def)

text \<open>The timed lock ends at the first moment at which the mutex is free or the time has come.\<close>

lemma timed_lock_ends:
  assumes "abs_time \<le> w_clock (after es w) div 1000 \<or> \<not> slot_busy f (after es w)"
  shows "\<exists>k \<le> length es. timed_lock_loop f abs_time w es = Ret (\<not> slot_busy f (after (take k es) w)) (after (take k es) w, drop k es) \<and>
    (slot_busy f (after (take k es) w) \<longrightarrow> abs_time \<le> w_clock (after (take k es) w) div 1000) \<and>
    (\<forall>j < k. slot_busy f (after (take j es) w) \<and> w_clock (after (take j es) w) div 1000 < abs_time)"
  using assms
proof (induction es arbitrary: w)
  case Nil
  then show ?case by auto
next
  case (Cons e es)
  show ?case
  proof (cases "slot_busy f w \<and> w_clock w div 1000 < abs_time")
    case False
    then show ?thesis by (intro exI [of _ 0]) auto
  next
    case True
    with Cons.IH [of "e w"] Cons.prems obtain k where "k \<le> length es"
      "timed_lock_loop f abs_time (e w) es = Ret (\<not> slot_busy f (after (take k es) (e w))) (after (take k es) (e w), drop k es)"
      "slot_busy f (after (take k es) (e w)) \<longrightarrow> abs_time \<le> w_clock (after (take k es) (e w)) div 1000"
      "\<forall>j < k. slot_busy f (after (take j es) (e w)) \<and> w_clock (after (take j es) (e w)) div 1000 < abs_time" by auto
    with True show ?thesis by (intro exI [of _ "Suc k"]) (auto simp: less_Suc_eq_0_disj)
  qed
qed

text \<open>
  C31. A wait with a time limit ends. Let the clock reach the limit, or the slot's mutex be free, at some
  point of what the other threads do. Then \<^verbatim>\<open>raft_future_wait_for\<close> with a non-zero time returns at the first
  such point: true exactly if the mutex is free there and the call has its result.
\<close>

theorem wait_for_ends_in_time:
  assumes "wait_ms \<noteq> 0" and "make_ptime (w_clock w) wait_ms \<le> w_clock (after es w) div 1000 \<or> \<not> slot_busy f (after es w)"
    and "\<forall>k \<le> length es. w_slots (after (take k es) w) f \<noteq> None"
  shows "\<exists>k \<le> length es. \<exists>s. w_slots (after (take k es) w) f = Some s \<and>
    raft_future_wait_for f wait_ms (w, es) = Ret (\<not> sl_owned s \<and> is_terminal (sl_state s)) (after (take k es) w, drop k es) \<and>
    (sl_owned s \<longrightarrow> make_ptime (w_clock w) wait_ms \<le> w_clock (after (take k es) w) div 1000) \<and>
    (\<forall>j < k. slot_busy f (after (take j es) w) \<and> w_clock (after (take j es) w) div 1000 < make_ptime (w_clock w) wait_ms)"
proof -
  obtain k where k: "k \<le> length es"
    "timed_lock_loop f (make_ptime (w_clock w) wait_ms) w es = Ret (\<not> slot_busy f (after (take k es) w)) (after (take k es) w, drop k es)"
    "slot_busy f (after (take k es) w) \<longrightarrow> make_ptime (w_clock w) wait_ms \<le> w_clock (after (take k es) w) div 1000"
    "\<forall>j < k. slot_busy f (after (take j es) w) \<and> w_clock (after (take j es) w) div 1000 < make_ptime (w_clock w) wait_ms"
    using timed_lock_ends [OF assms(2)] by blast
  obtain s where s: "w_slots (after (take k es) w) f = Some s" using assms(3) k(1) by blast
  then have "slot_busy f (after (take k es) w) = sl_owned s" by (simp add: slot_pending_simps)
  with k s assms(1) show ?thesis
    by (intro exI [of _ k] conjI exI [of _ s]) (simp_all add: raft_future_wait_for_def slot_wait_for_def bind_op_app)
qed

definition held_world :: "unit world" where
  "held_world = (start_world ())\<lparr>w_slots := [0x10001000 \<mapsto> (mk_slot Tag_Apply NoArgs)\<lparr>sl_owned := True\<rparr>]\<rparr>"

text \<open>A limit of five milliseconds: the clock passes it at the second tick, with the mutex still held.\<close>

definition two_ticks :: "unit world sched" where
  "two_ticks = [\<lambda>w. w\<lparr>w_clock := 3000000\<rparr>, \<lambda>w. w\<lparr>w_clock := 5000000\<rparr>]"

theorem wait_for_ends_in_time_witness:
  "raft_future_wait_for 0x10001000 5 (held_world, two_ticks) = Ret False (after two_ticks held_world, [])"
proof -
  have slot: "w_slots (after (take k two_ticks) held_world) 0x10001000 = Some ((mk_slot Tag_Apply NoArgs)\<lparr>sl_owned := True\<rparr>)" for k
    by (cases k; cases "k - 1"; simp add: held_world_def two_ticks_def)
  have limit: "make_ptime (w_clock held_world) 5 = 5000" by (simp add: make_ptime_def held_world_def)
  have "w_clock (after two_ticks held_world) div 1000 = 5000" by (simp add: two_ticks_def)
  with limit slot wait_for_ends_in_time [of 5 held_world two_ticks "0x10001000"]
  obtain k where k: "k \<le> length two_ticks" "5000 \<le> w_clock (after (take k two_ticks) held_world) div 1000"
    and r: "raft_future_wait_for 0x10001000 5 (held_world, two_ticks) = Ret False (after (take k two_ticks) held_world, drop k two_ticks)"
    by auto
  have "k = length two_ticks"
  proof (rule ccontr)
    assume "k \<noteq> length two_ticks"
    with k(1) have "k = 0 \<or> k = 1" by (auto simp: two_ticks_def)
    with k(2) show False by (auto simp: two_ticks_def held_world_def)
  qed
  with r show ?thesis by simp
qed

text \<open>A limit of 2 to the 63 milliseconds or more is negative, so that a held mutex is not waited for at all.\<close>

lemma long_wait_is_none:
  assumes "w_slots w f = Some s" and "sl_owned s" and "sint wait_ms < 0"
  shows "raft_future_wait_for f wait_ms (w, es) = Ret False (w, es)"
proof -
  have "make_ptime (w_clock w) wait_ms \<le> w_clock w div 1000" using assms(3) by (simp add: make_ptime_def)
  moreover have "slot_busy f w" using assms by (simp add: slot_pending_simps)
  ultimately have "timed_lock_loop f (make_ptime (w_clock w) wait_ms) w es = Ret False (w, es)" by (cases es) simp_all
  moreover have "wait_ms \<noteq> 0" using assms(3) by auto
  ultimately show ?thesis by (simp add: raft_future_wait_for_def slot_wait_for_def bind_op_app)
qed

text \<open>
  \<^verbatim>\<open>raft_future_wait_for\<close> with a non-zero time does not wait for the call. It waits for the
  slot's mutex only, so on a pending call whose mutex is free it returns \<^verbatim>\<open>false\<close> at once, however
  long the time and whatever the Raft process would do next.
\<close>

lemma wait_for_does_not_wait:
  assumes "w_slots w f = Some s" and "\<not> sl_owned s" and "\<not> is_terminal (sl_state s)"
  shows "raft_future_wait_for f wait_ms (w, es) = Ret False (w, es)"
proof -
  have "\<not> slot_busy f w" using assms by (simp add: slot_pending_simps)
  then have "timed_lock_loop f d w es = Ret True (w, es)" for d by (cases es) simp_all
  with assms show ?thesis
    by (auto simp: raft_future_wait_for_def slot_wait_for_def slot_poll_def bind_op_app)
qed

lemma wait_for_does_not_wait_witness:
  "raft_future_wait_for 0x10001000 60000
      ((start_world ())\<lparr>w_slots := [0x10001000 \<mapsto> mk_slot Tag_Apply NoArgs]\<rparr>, [as_env (slot_reply_val 0x10001000 42)]) =
    Ret False ((start_world ())\<lparr>w_slots := [0x10001000 \<mapsto> mk_slot Tag_Apply NoArgs]\<rparr>, [as_env (slot_reply_val 0x10001000 42)])"
  by (rule wait_for_does_not_wait [where s = "mk_slot Tag_Apply NoArgs"]) (simp_all add: mk_slot_def)

text \<open>
  C37. Polling is not observing. A client that polls an Apply call until it has finished, reads the
  reply and disposes of the future leaves the call marked as issued, so that the disposal hands
  it to the collector, which frees the command buffer; when the client then frees its own buffer,
  as after \<^verbatim>\<open>raft_future_wait\<close>, the buffer is freed twice.
\<close>

theorem polled_call_buffer_freed_twice:
  assumes "f \<noteq> 0" and "w_slots w f = Some s" and "sl_tag s = Tag_Apply" and "sl_args s = Args_Apply aa"
    and "sl_client_state s = Issued" and "\<not> sl_owned s" and "is_terminal (sl_state s)"
    and "in_shm_bounds w (cmd_buf aa)" and "cmd_buf aa \<noteq> 0" and "w_bufs w (cmd_buf aa) = Some b"
    and "w_orphaned_calls w = deque_new" and "w_orphan_backlog w = []"
  shows "raft_future_poll f (w, es) = Ret True (w, es) \<and>
    (\<exists>r. raft_future_get_fsm_reply f True (w, es) = Ret r (w, es)) \<and>
    (\<exists>w1 w2. raft_future_dispose f (w, es) = Ret () (w1, es) \<and> orphan_gc_turn l n (w1, es) = Ret n (w2, es) \<and>
      free_raft_buffer (cmd_buf aa) (w2, es) = Fail (Double_free (cmd_buf aa)))"
proof -
  let ?w1 = "w\<lparr>w_slots := (w_slots w)(f \<mapsto> s\<lparr>sl_client_state := Abandoned\<rparr>), w_orphaned_calls := deque_push f (w_orphaned_calls w)\<rparr>"
  have d: "raft_future_dispose f (w, es) = Ret () (?w1, es)"
    using assms by (simp add: raft_future_dispose_def slot_dispose_Issued deque_new_def)
  have c: "slot_cleanup ?w1 f = [cmd_buf aa]"
    using assms by (simp add: slot_cleanup_def cleanup_bufs_def in_shm_bounds_def)
  have l: "bufs_live ?w1 (slot_cleanup ?w1 f)"
    unfolding c using assms by (simp add: bufs_live_def)
  have t: "orphan_gc_turn l n (?w1, es) = Ret n (orphan_freed f (orphan_popped ?w1), es)"
    using assms by (intro gc_turn_reaps l) (simp_all add: deque_push_def deque_new_def is_orphan_def slot_ready_def)
  have "w_bufs (orphan_freed f (orphan_popped ?w1)) (cmd_buf aa) = None"
    using c by (simp add: orphan_freed_def)
  with assms d t show ?thesis
    by (auto simp: raft_future_poll_def slot_poll_def get_fsm_reply_terminal free_raft_buffer_def free_buf_None)
qed

theorem polled_call_buffer_freed_twice_witness:
  "\<exists>w1 w2. raft_future_dispose 0x10001000
        ((start_world ())\<lparr>w_slots := [0x10001000 \<mapsto> demo_orphan_slot\<lparr>sl_client_state := Issued\<rparr>],
           w_bufs := [0x10002000 \<mapsto> replicate 256 NUL]\<rparr>, []) = Ret () (w1, []) \<and>
      orphan_gc_turn True 0 (w1, []) = Ret 0 (w2, []) \<and>
      free_raft_buffer 0x10002000 (w2, []) = Fail (Double_free 0x10002000)"
  using polled_call_buffer_freed_twice [of "0x10001000"
      "(start_world ())\<lparr>w_slots := [0x10001000 \<mapsto> demo_orphan_slot\<lparr>sl_client_state := Issued\<rparr>],
         w_bufs := [0x10002000 \<mapsto> replicate 256 NUL]\<rparr>"
      "demo_orphan_slot\<lparr>sl_client_state := Issued\<rparr>" "mk_ApplyArgs 0x10002000 256 0" _ "[]" True 0]
  by (simp add: demo_orphan_slot_def mk_slot_def mk_ApplyArgs_def in_shm_bounds_def)

end
