(* ===== verification/Fsm.thy ===== *)
theory Fsm
  imports C_If
begin

text \<open>
  The state-machine side of \<^verbatim>\<open>src/raft_c_if.cc\<close>: the worker thread that takes FSM calls from the
  Raft process and hands them to the client's callbacks, and the optional snapshot worker. The
  callbacks of \<^verbatim>\<open>RaftFSM\<close> are operations on the world, given as a record; \<open>F\<close> resolves the address
  of a snapshot function. What the operating system answers to \<^verbatim>\<open>fopen\<close> and \<^verbatim>\<open>fclose\<close> is passed as
  flags.
\<close>

section \<open>Callbacks\<close>

record 'm RaftFSM =
  fsm_apply :: "u64 \<Rightarrow> u64 \<Rightarrow> RaftLogType \<Rightarrow> addr \<Rightarrow> u64 \<Rightarrow> ('m, addr) wop"
  fsm_begin_snapshot :: "string \<Rightarrow> addr \<Rightarrow> ('m, unit) wop"
  fsm_restore :: "string \<Rightarrow> ('m, int) wop"

text \<open>A snapshot function gets its handle and returns its result and what it wrote to the sink.\<close>

type_synonym 'm snapshot_func = "addr \<Rightarrow> ('m, int \<times> string) wop"

text \<open>The arguments of a slot seen as those of the call it is cast to. Reading another call's
  arguments is outside the object.\<close>

definition log_args :: "addr \<Rightarrow> ('m, LogEntry) wop" where
  "log_args a = bind_op (get_slot a) (\<lambda>s. case sl_args s of Args_Log l \<Rightarrow> ret_op l | _ \<Rightarrow> fail_op Out_of_bounds)"

definition path_args :: "addr \<Rightarrow> ('m, string) wop" where
  "path_args a = bind_op (get_slot a) (\<lambda>s. case sl_args s of
      Args_File p \<Rightarrow> (case cstr (fn_path p) of None \<Rightarrow> fail_op Out_of_bounds | Some path \<Rightarrow> ret_op path)
    | _ \<Rightarrow> fail_op Out_of_bounds)"

section \<open>Snapshots\<close>

definition raft_fsm_snapshot_complete :: "addr \<Rightarrow> bool \<Rightarrow> ('m, unit) wop" where
  "raft_fsm_snapshot_complete a success =
     then_op (lock_op a)
       (finally_op (slot_reply_err a (if success then RAFT_SUCCESS else RAFT_E_OTHER)) (unlock_op a))"

definition raft_fsm_take_snapshot :: "addr \<Rightarrow> addr \<Rightarrow> addr \<Rightarrow> ('m, unit) wop" where
  "raft_fsm_take_snapshot req h f =
     then_op (assert_op (req \<noteq> 0)) (then_op (assert_op (h \<noteq> 0)) (then_op (assert_op (f \<noteq> 0))
    (then_op (modify_op (\<lambda>w. if w_snapshot_worker w then w
        else w\<lparr>w_snapshot_worker := True, w_finished := w_finished w - {T_snapshot_worker}\<rparr>))
     (deque_emplace w_snapshot_queue w_snapshot_queue_update
        (\<lambda>(s, h, f). \<lparr>job_slot = s, job_handle = h, job_func = f\<rparr>) (req, h, f)))))"

definition run_snapshot_job :: "(addr \<Rightarrow> 'm snapshot_func) \<Rightarrow> bool \<Rightarrow> bool \<Rightarrow> SnapshotJob \<Rightarrow> ('m, unit) wop" where
  "run_snapshot_job F open_ok close_ok job =
     bind_op (path_args (job_slot job)) (\<lambda>path.
     bind_op (if open_ok
              then bind_op (F (job_func job) (job_handle job)) (\<lambda>(rc, out).
                     then_op (modify_op (\<lambda>w. w\<lparr>w_files := (w_files w)(path \<mapsto> out)\<rparr>))
                     (ret_op (rc = 0 \<and> close_ok)))
              else ret_op False) (\<lambda>success.
     raft_fsm_snapshot_complete (job_slot job) success))"

text \<open>The loop of the snapshot worker, once per element of \<open>ls\<close>, which gives the answers of
  \<^verbatim>\<open>fopen\<close> and \<^verbatim>\<open>fclose\<close>; \<open>False\<close> says that it is still running after them.\<close>

fun snapshot_worker_loop :: "(addr \<Rightarrow> 'm snapshot_func) \<Rightarrow> (bool \<times> bool) list \<Rightarrow> ('m, bool) wop" where
  "snapshot_worker_loop F [] = ret_op False"
| "snapshot_worker_loop F ((open_ok, close_ok) # ls) =
     bind_op (deque_take w_snapshot_queue w_snapshot_queue_update) (\<lambda>job.
     then_op (run_snapshot_job F open_ok close_ok job) (snapshot_worker_loop F ls))"

definition run_snapshot_worker :: "(addr \<Rightarrow> 'm snapshot_func) \<Rightarrow> (bool \<times> bool) list \<Rightarrow> ('m, bool) wop" where
  "run_snapshot_worker F ls = catch_closed_op (snapshot_worker_loop F ls) (ret_op True)"

section \<open>The FSM worker\<close>

definition dispatch_fsm_apply_cmd :: "'m boost \<Rightarrow> 'm RaftFSM \<Rightarrow> addr \<Rightarrow> ('m, unit) wop" where
  "dispatch_fsm_apply_cmd B fsm a =
     bind_op (log_args a) (\<lambda>log.
     then_op (assert_op (data_buf log \<noteq> 0))
    (bind_op (gets_op (\<lambda>w. bo_get_address_from_handle B w (data_buf log))) (\<lambda>buf.
     then_op (mod_slot a (\<lambda>s. s\<lparr>sl_state := Dispatched\<rparr>))
    (then_op (record_op a ''FSM call dispatched'')
    (bind_op (fsm_apply fsm (log_index log) (log_term log) (log_type log) buf (data_len log)) (\<lambda>response.
     then_op (record_op a ''FSM command applied'') (slot_reply_val a response)))))))"

definition dispatch_fsm_apply :: "'m boost \<Rightarrow> 'm RaftFSM \<Rightarrow> addr \<Rightarrow> ('m, unit) wop" where
  "dispatch_fsm_apply B fsm a = bind_op (log_args a) (\<lambda>log. case log_type log of
     RAFT_LOG_COMMAND \<Rightarrow> dispatch_fsm_apply_cmd B fsm a
   | RAFT_LOG_NOOP \<Rightarrow> ret_op ()
   | RAFT_LOG_ADD_PEER \<Rightarrow> ret_op ()
   | RAFT_LOG_REMOVE_PEER \<Rightarrow> ret_op ()
   | RAFT_LOG_BARRIER \<Rightarrow> ret_op ())"

definition dispatch_fsm_snapshot :: "'m RaftFSM \<Rightarrow> addr \<Rightarrow> ('m, unit) wop" where
  "dispatch_fsm_snapshot fsm a = bind_op (path_args a) (\<lambda>path.
     then_op (assert_op (length path > 0)) (fsm_begin_snapshot fsm path a))"

definition dispatch_fsm_restore :: "'m RaftFSM \<Rightarrow> addr \<Rightarrow> ('m, unit) wop" where
  "dispatch_fsm_restore fsm a = bind_op (path_args a) (\<lambda>path.
     then_op (assert_op (length path > 0))
    (bind_op (fsm_restore fsm path) (\<lambda>result.
     slot_reply_err a (if result = 0 then RAFT_SUCCESS else RAFT_E_OTHER))))"

text \<open>The lock is held by a scope guard, which the snapshot branch releases early.\<close>

definition fsm_worker_step :: "'m boost \<Rightarrow> 'm RaftFSM \<Rightarrow> ('m, unit) wop" where
  "fsm_worker_step B fsm =
     bind_op (abq_take CALLQUEUE_CAPACITY w_fsm_queue w_fsm_queue_update) (\<lambda>(tag, a).
     then_op (lock_op a)
    (then_op (record_op a ''FSM call received'')
    (bind_op (get_slot a) (\<lambda>s.
     then_op (assert_op (sl_state s = Pending))
     (case tag of
        Tag_FSMApply \<Rightarrow> finally_op (dispatch_fsm_apply B fsm a) (unlock_op a)
      | Tag_FSMSnapshot \<Rightarrow> then_op (unlock_op a) (dispatch_fsm_snapshot fsm a)
      | Tag_FSMRestore \<Rightarrow> finally_op (dispatch_fsm_restore fsm a) (unlock_op a)
      | _ \<Rightarrow> fail_op Aborted)))))"

text \<open>\<open>n\<close> turns of the worker's loop; \<open>False\<close> says that it is still running after them.\<close>

fun fsm_worker_loop :: "'m boost \<Rightarrow> 'm RaftFSM \<Rightarrow> nat \<Rightarrow> ('m, bool) wop" where
  "fsm_worker_loop B fsm 0 = ret_op False"
| "fsm_worker_loop B fsm (Suc n) = then_op (fsm_worker_step B fsm) (fsm_worker_loop B fsm n)"

definition run_fsm_worker :: "'m boost \<Rightarrow> 'm RaftFSM \<Rightarrow> nat \<Rightarrow> ('m, bool) wop" where
  "run_fsm_worker B fsm n = catch_closed_op (fsm_worker_loop B fsm n) (ret_op True)"

definition start_fsm_worker :: "('m, unit) wop" where
  "start_fsm_worker = bind_op (gets_op w_fsm_worker) (\<lambda>running.
     then_op (assert_op (\<not> running)) (modify_op (\<lambda>w. w\<lparr>w_fsm_worker := True, w_finished := w_finished w - {T_fsm_worker}\<rparr>)))"

section \<open>One step of the worker\<close>

lemma lock_op_free:
  "w_slots w a = Some s \<Longrightarrow> \<not> sl_owned s \<Longrightarrow>
   lock_op a (w, es) = Ret () (w\<lparr>w_slots := (w_slots w)(a \<mapsto> s\<lparr>sl_owned := True\<rparr>), w_trace := w_trace w @ [Ev_lock a]\<rparr>, es)"
  by (simp add: lock_op_def await_op_ready slot_pending_simps)

lemma unlock_op_Some:
  "w_slots w a = Some s \<Longrightarrow>
   unlock_op a (w, es) = Ret () (w\<lparr>w_slots := (w_slots w)(a \<mapsto> s\<lparr>sl_owned := False\<rparr>), w_trace := w_trace w @ [Ev_unlock a]\<rparr>, es)"
  by (simp add: unlock_op_def)

lemma finally_op_Ret:
  "m s = Ret a s' \<Longrightarrow> finally_op m n s = then_op n (ret_op a) s'"
  by (simp add: finally_op_def)

text \<open>A call that the worker can take: it is at the front of the open queue, pending and unlocked.\<close>

definition fsm_front :: "'m world \<Rightarrow> CallTag \<Rightarrow> addr \<Rightarrow> slot \<Rightarrow> bool" where
  "fsm_front w t a s \<longleftrightarrow> abq_wf 8 (w_fsm_queue w) \<and> \<not> q_closed (w_fsm_queue w) \<and> q_count (w_fsm_queue w) \<noteq> 0 \<and>
     abq_front (w_fsm_queue w) = (t, a) \<and> w_slots w a = Some s \<and> \<not> sl_owned s \<and> sl_state s = Pending"

definition received_slot :: "int \<Rightarrow> slot \<Rightarrow> slot" where
  "received_slot t s = s\<lparr>sl_owned := True, sl_timings := timings_record ''FSM call received'' t (sl_timings s)\<rparr>"

definition fsm_received :: "addr \<Rightarrow> slot \<Rightarrow> 'm world \<Rightarrow> 'm world" where
  "fsm_received a s w = w\<lparr>w_fsm_queue := abq_remove 8 (w_fsm_queue w), w_trace := w_trace w @ [Ev_lock a],
     w_slots := (w_slots w)(a \<mapsto> received_slot (w_clock w) s)\<rparr>"

lemma fsm_worker_step_front:
  assumes "fsm_front w t a s"
  shows "fsm_worker_step B fsm (w, es) = (case t of
        Tag_FSMApply \<Rightarrow> finally_op (dispatch_fsm_apply B fsm a) (unlock_op a)
      | Tag_FSMSnapshot \<Rightarrow> then_op (unlock_op a) (dispatch_fsm_snapshot fsm a)
      | Tag_FSMRestore \<Rightarrow> finally_op (dispatch_fsm_restore fsm a) (unlock_op a)
      | _ \<Rightarrow> fail_op Aborted) (fsm_received a s w, es)"
proof -
  let ?w1 = "w\<lparr>w_fsm_queue := abq_remove 8 (w_fsm_queue w)\<rparr>"
  have f: "abq_wf 8 (w_fsm_queue w)" "\<not> q_closed (w_fsm_queue w)" "q_count (w_fsm_queue w) \<noteq> 0"
    "abq_front (w_fsm_queue w) = (t, a)" "w_slots w a = Some s" "\<not> sl_owned s" "sl_state s = Pending"
    using assms by (simp_all add: fsm_front_def)
  have t: "abq_take CALLQUEUE_CAPACITY w_fsm_queue w_fsm_queue_update (w, es) = Ret (t, a) (?w1, es)"
    using f by (simp add: abq_take_open CALLQUEUE_CAPACITY_def)
  show ?thesis
    using f(5-7)
    by (simp add: fsm_worker_step_def t lock_op_free fsm_received_def received_slot_def)
qed

text \<open>The slot when the callback of a command runs, and after its reply.\<close>

definition dispatched_slot :: "int \<Rightarrow> slot \<Rightarrow> slot" where
  "dispatched_slot t s = s\<lparr>sl_state := Dispatched, sl_timings := timings_record ''FSM call dispatched'' t (sl_timings s)\<rparr>"

definition dispatched :: "addr \<Rightarrow> slot \<Rightarrow> 'm world \<Rightarrow> 'm world" where
  "dispatched a s w = (fsm_received a s w)\<lparr>w_slots := (w_slots w)(a \<mapsto> dispatched_slot (w_clock w) (received_slot (w_clock w) s))\<rparr>"

definition answered_slot :: "int \<Rightarrow> u64 \<Rightarrow> slot \<Rightarrow> slot" where
  "answered_slot t r s = (replied_slot RAFT_SUCCESS t
     (s\<lparr>sl_timings := timings_record ''FSM command applied'' t (sl_timings s), sl_retval := r\<rparr>))\<lparr>sl_owned := False\<rparr>"

definition answered :: "addr \<Rightarrow> u64 \<Rightarrow> slot \<Rightarrow> 'm world \<Rightarrow> 'm world" where
  "answered a r s w = w\<lparr>w_slots := (w_slots w)(a \<mapsto> answered_slot (w_clock w) r s), w_trace := w_trace w @ [Ev_unlock a]\<rparr>"

lemma fsm_step_command:
  assumes "boost_ok B" and front: "fsm_front w Tag_FSMApply a s" and args: "sl_args s = Args_Log log"
    and cmd: "log_type log = RAFT_LOG_COMMAND" "data_buf log \<noteq> 0"
    and call: "fsm_apply fsm (log_index log) (log_term log) RAFT_LOG_COMMAND
        (bo_get_address_from_handle B w (data_buf log)) (data_len log) (dispatched a s w, es) = Ret r (w2, es2)"
    and kept: "w_slots w2 a = Some s2" "\<not> is_terminal (sl_state s2)"
  shows "fsm_worker_step B fsm (w, es) = Ret () (answered a r s2 w2, es2)"
proof -
  have h: "bo_get_address_from_handle B (fsm_received a s w) h = bo_get_address_from_handle B w h" for h
    by (rule boost_handle [OF assms(1)]) (simp add: fsm_received_def)
  have sl: "w_slots (fsm_received a s w) a = Some (received_slot (w_clock w) s)" "w_clock (fsm_received a s w) = w_clock w"
    by (simp_all add: fsm_received_def)
  have la: "log_args a (fsm_received a s w, es) = Ret log (fsm_received a s w, es)"
    using args by (simp add: log_args_def sl received_slot_def)
  have d: "(fsm_received a s w)\<lparr>w_slots := (w_slots (fsm_received a s w))(a \<mapsto> dispatched_slot (w_clock w) (received_slot (w_clock w) s))\<rparr> =
      dispatched a s w"
    by (simp add: dispatched_def fsm_received_def)
  have "dispatch_fsm_apply_cmd B fsm a (fsm_received a s w, es) =
      Ret () (w2\<lparr>w_slots := (w_slots w2)(a \<mapsto> replied_slot RAFT_SUCCESS (w_clock w2)
         (s2\<lparr>sl_timings := timings_record ''FSM command applied'' (w_clock w2) (sl_timings s2), sl_retval := r\<rparr>))\<rparr>, es2)"
    using cmd call kept d
    by (simp add: dispatch_fsm_apply_cmd_def la h sl dispatched_slot_def slot_reply_val_ok)
  then have "dispatch_fsm_apply B fsm a (fsm_received a s w, es) =
      Ret () (w2\<lparr>w_slots := (w_slots w2)(a \<mapsto> replied_slot RAFT_SUCCESS (w_clock w2)
         (s2\<lparr>sl_timings := timings_record ''FSM command applied'' (w_clock w2) (sl_timings s2), sl_retval := r\<rparr>))\<rparr>, es2)"
    using cmd by (simp add: dispatch_fsm_apply_def la)
  then show ?thesis
    by (simp add: fsm_worker_step_front [OF front] finally_op_Ret unlock_op_Some answered_def answered_slot_def)
qed

text \<open>
  One step of the worker on a command: whatever the client's callback does to its own state,
  if it returns a response and leaves the slot alone, the step returns, the slot is unlocked, its
  call has succeeded with exactly that response, and the slot's mutex is released after the
  reply. The callback sees the fields of the log entry and the address of its data, and runs
  while the slot is locked and marked as dispatched.
\<close>

lemma fsm_step_answers_command:
  assumes "boost_ok B" and "fsm_front w Tag_FSMApply a s" and "sl_args s = Args_Log log"
    and "log_type log = RAFT_LOG_COMMAND" and "data_buf log \<noteq> 0"
    and "fsm_apply fsm (log_index log) (log_term log) RAFT_LOG_COMMAND
        (bo_get_address_from_handle B w (data_buf log)) (data_len log) (dispatched a s w, es) = Ret r (w2, es2)"
    and "w_slots w2 a = w_slots (dispatched a s w) a"
  shows "\<exists>w' s'. fsm_worker_step B fsm (w, es) = Ret () (w', es2) \<and> w_slots w' = (w_slots w2)(a \<mapsto> s') \<and>
    sl_state s' = Success \<and> sl_error s' = RAFT_SUCCESS \<and> sl_retval s' = r \<and> \<not> sl_owned s' \<and>
    w_fsm w' = w_fsm w2 \<and> w_bufs w' = w_bufs w2 \<and> w_fsm_queue w' = w_fsm_queue w2 \<and>
    w_trace w' = w_trace w2 @ [Ev_unlock a] \<and>
    (\<exists>sd. w_slots (dispatched a s w) a = Some sd \<and> sl_state sd = Dispatched \<and> sl_owned sd)"
proof -
  let ?sd = "dispatched_slot (w_clock w) (received_slot (w_clock w) s)"
  have d: "w_slots (dispatched a s w) a = Some ?sd" "sl_state ?sd = Dispatched" "sl_owned ?sd"
    by (simp_all add: dispatched_def dispatched_slot_def received_slot_def)
  have "fsm_worker_step B fsm (w, es) = Ret () (answered a r ?sd w2, es2)"
    using assms d by (intro fsm_step_command) simp_all
  then show ?thesis
    using d
    by (intro exI [of _ "answered a r ?sd w2"] exI [of _ "answered_slot (w_clock w2) r ?sd"])
      (simp add: answered_def answered_slot_def replied_slot_def)
qed

text \<open>
  A log entry that is not a command is never answered: for a no-op, a peer change or a barrier
  the worker takes the call off the queue, leaves it pending and goes on, so that whoever waits
  for the call waits for ever.
\<close>

lemma fsm_step_ignores_other_entries:
  assumes "fsm_front w Tag_FSMApply a s" and "sl_args s = Args_Log log" and "log_type log \<noteq> RAFT_LOG_COMMAND"
  shows "\<exists>w' s'. fsm_worker_step B fsm (w, es) = Ret () (w', es) \<and> w_slots w' = (w_slots w)(a \<mapsto> s') \<and>
    sl_state s' = Pending \<and> \<not> sl_owned s' \<and> w_fsm w' = w_fsm w \<and>
    w_fsm_queue w' = abq_remove 8 (w_fsm_queue w) \<and> slot_wait a (w', []) = Blocked (w', [])"
proof -
  have p: "sl_state s = Pending" using assms(1) by (simp add: fsm_front_def)
  have sl: "w_slots (fsm_received a s w) a = Some (received_slot (w_clock w) s)"
    by (simp add: fsm_received_def)
  have "log_args a (fsm_received a s w, es) = Ret log (fsm_received a s w, es)"
    using assms by (simp add: log_args_def sl received_slot_def)
  with assms(3) have "dispatch_fsm_apply B fsm a (fsm_received a s w, es) = Ret () (fsm_received a s w, es)"
    by (cases "log_type log") (simp_all add: dispatch_fsm_apply_def)
  then have step: "fsm_worker_step B fsm (w, es) = Ret () ((fsm_received a s w)\<lparr>
      w_slots := (w_slots w)(a \<mapsto> (received_slot (w_clock w) s)\<lparr>sl_owned := False\<rparr>),
      w_trace := w_trace (fsm_received a s w) @ [Ev_unlock a]\<rparr>, es)"
    using sl by (simp add: fsm_worker_step_front [OF assms(1)] finally_op_Ret unlock_op_Some fsm_received_def)
  show ?thesis
    by (rule exI, rule exI [of _ "(received_slot (w_clock w) s)\<lparr>sl_owned := False\<rparr>"], intro conjI, rule step)
      (auto simp: p fsm_received_def received_slot_def intro!: slot_wait_blocked)
qed

text \<open>A queue holding one FSM call, for the examples.\<close>

definition demo_fsm_world :: "'m \<Rightarrow> CallTag \<Rightarrow> call_args \<Rightarrow> 'm world" where
  "demo_fsm_world m t args = (start_world m)\<lparr>w_slots := [0x10001000 \<mapsto> mk_slot t args],
     w_bufs := [0x10002000 \<mapsto> ''hello'' @ [NUL]],
     w_fsm_queue := abq_insert 8 (t, 0x10001000) (abq_zeroed 8 (Tag_Invalid, 0))\<rparr>"

lemma demo_fsm_front: "fsm_front (demo_fsm_world m t args) t 0x10001000 (mk_slot t args)"
  by (simp add: fsm_front_def demo_fsm_world_def mk_slot_def abq_front_def abq_insert_def abq_zeroed_def abq_inc_def abq_wf_def)

definition demo_fsm :: "unit RaftFSM" where
  "demo_fsm = \<lparr>fsm_apply = (\<lambda>_ _ _ _ n. ret_op n), fsm_begin_snapshot = (\<lambda>_ _. ret_op ()), fsm_restore = (\<lambda>_. ret_op 0)\<rparr>"

lemma fsm_step_answers_command_witness:
  "\<exists>w' s'. fsm_worker_step (first_fit []) demo_fsm
      (demo_fsm_world () Tag_FSMApply (Args_Log (mk_LogEntry 1 1 RAFT_LOG_COMMAND 0x2000 6)), []) = Ret () (w', []) \<and>
    w_slots w' 0x10001000 = Some s' \<and> sl_state s' = Success \<and> sl_retval s' = 6"
  using fsm_step_answers_command [OF first_fit_ok [of "[]"]
      demo_fsm_front [of "()" Tag_FSMApply "Args_Log (mk_LogEntry 1 1 RAFT_LOG_COMMAND 0x2000 6)"],
      of "mk_LogEntry 1 1 RAFT_LOG_COMMAND 0x2000 6" demo_fsm "[]"]
  by (auto simp: demo_fsm_def mk_slot_def mk_LogEntry_def)

lemma fsm_step_ignores_other_entries_witness:
  "\<exists>w'. fsm_worker_step (first_fit []) demo_fsm
      (demo_fsm_world () Tag_FSMApply (Args_Log (mk_LogEntry 1 1 RAFT_LOG_BARRIER 0 0)), []) = Ret () (w', []) \<and>
    slot_wait 0x10001000 (w', []) = Blocked (w', [])"
  using fsm_step_ignores_other_entries
      [OF demo_fsm_front [of "()" Tag_FSMApply "Args_Log (mk_LogEntry 1 1 RAFT_LOG_BARRIER 0 0)"],
       of "mk_LogEntry 1 1 RAFT_LOG_BARRIER 0 0" "first_fit []" demo_fsm "[]"]
  by (auto simp: mk_slot_def mk_LogEntry_def)

section \<open>Snapshots and restores\<close>

lemma snapshot_complete_ok:
  assumes "w_slots w a = Some s" "\<not> sl_owned s" "\<not> is_terminal (sl_state s)"
  shows "raft_fsm_snapshot_complete a success (w, es) =
    Ret () (w\<lparr>w_slots := (w_slots w)(a \<mapsto> (replied_slot (if success then RAFT_SUCCESS else RAFT_E_OTHER) (w_clock w)
        (s\<lparr>sl_owned := True\<rparr>))\<lparr>sl_owned := False\<rparr>), w_trace := w_trace w @ [Ev_lock a, Ev_unlock a]\<rparr>, es)"
  using assms
  by (simp add: raft_fsm_snapshot_complete_def lock_op_free finally_op_Ret slot_reply_err_ok unlock_op_Some)

lemma path_args_ok:
  "w_slots w a = Some s \<Longrightarrow> sl_args s = Args_File p \<Longrightarrow> cstr (fn_path p) = Some path \<Longrightarrow>
   path_args a (w, es) = Ret path (w, es)"
  by (simp add: path_args_def)

text \<open>
  A snapshot job answers its call exactly once and truthfully: the call succeeds if and only if
  the sink could be opened, the client's function returned zero and the sink could be closed, and
  fails with \<^verbatim>\<open>RAFT_E_OTHER\<close> otherwise; the snapshot file holds what the function wrote, and without
  a sink the function is not called. Afterwards the slot is unlocked.
\<close>

lemma snapshot_job_reply:
  assumes "w_slots w (job_slot job) = Some s" and "\<not> sl_owned s" and "\<not> is_terminal (sl_state s)"
    and "sl_args s = Args_File p" and "cstr (fn_path p) = Some path"
    and "F (job_func job) (job_handle job) (w, es) = Ret (rc, out) (w2, es2)"
    and "w_slots w2 (job_slot job) = Some s"
  shows "\<exists>w' s'. run_snapshot_job F open_ok close_ok job (w, es) = Ret () (w', if open_ok then es2 else es) \<and>
    w_slots w' = (w_slots (if open_ok then w2 else w))(job_slot job \<mapsto> s') \<and> \<not> sl_owned s' \<and>
    (if open_ok \<and> rc = 0 \<and> close_ok then sl_state s' = Success \<and> sl_error s' = RAFT_SUCCESS
     else sl_state s' = Error \<and> sl_error s' = RAFT_E_OTHER) \<and>
    w_fsm w' = w_fsm (if open_ok then w2 else w) \<and>
    w_files w' = (if open_ok then (w_files w2)(path \<mapsto> out) else w_files w)"
proof (cases open_ok)
  case True
  let ?w = "w2\<lparr>w_files := (w_files w2)(path \<mapsto> out)\<rparr>"
  let ?s = "(replied_slot (if rc = 0 \<and> close_ok then RAFT_SUCCESS else RAFT_E_OTHER) (w_clock w2) (s\<lparr>sl_owned := True\<rparr>))\<lparr>sl_owned := False\<rparr>"
  have "run_snapshot_job F open_ok close_ok job (w, es) = raft_fsm_snapshot_complete (job_slot job) (rc = 0 \<and> close_ok) (?w, es2)"
    using assms True by (simp add: run_snapshot_job_def path_args_ok)
  also have "\<dots> = Ret () (?w\<lparr>w_slots := (w_slots w2)(job_slot job \<mapsto> ?s), w_trace := w_trace w2 @ [Ev_lock (job_slot job), Ev_unlock (job_slot job)]\<rparr>, es2)"
    using snapshot_complete_ok [of ?w "job_slot job" s "rc = 0 \<and> close_ok" es2] assms by simp
  finally show ?thesis
    using True by (intro exI conjI, simp) (auto simp: replied_slot_def)
next
  case False
  let ?s = "(replied_slot RAFT_E_OTHER (w_clock w) (s\<lparr>sl_owned := True\<rparr>))\<lparr>sl_owned := False\<rparr>"
  have "run_snapshot_job F open_ok close_ok job (w, es) =
      Ret () (w\<lparr>w_slots := (w_slots w)(job_slot job \<mapsto> ?s), w_trace := w_trace w @ [Ev_lock (job_slot job), Ev_unlock (job_slot job)]\<rparr>, es)"
    using assms False by (simp add: run_snapshot_job_def path_args_ok snapshot_complete_ok)
  with False show ?thesis
    by (intro exI conjI, simp) (auto simp: replied_slot_def)
qed

definition demo_path :: Filename where
  "demo_path = mk_Filename (replicate 256 NUL) ''/tmp/snap''"

lemma mk_Filename_path:
  "is_cstring path \<Longrightarrow> length path < 255 \<Longrightarrow> cstr (fn_path (mk_Filename mem path)) = Some path"
  by (simp add: mk_Filename_def Filename_MAXLEN_def cstr_strncpy_short)

lemma demo_path_cstr: "cstr (fn_path demo_path) = Some ''/tmp/snap''"
  unfolding demo_path_def by (rule mk_Filename_path) (simp_all add: is_cstring_def NUL_def)

lemma snapshot_job_reply_witness:
  "\<exists>w' s'. run_snapshot_job (\<lambda>_ _. ret_op (0, ''7'')) True True \<lparr>job_slot = 0x10001000, job_handle = 1, job_func = 1\<rparr>
      (demo_fsm_world () Tag_FSMSnapshot (Args_File demo_path), []) = Ret () (w', []) \<and>
    w_slots w' 0x10001000 = Some s' \<and> sl_state s' = Success \<and> w_files w' ''/tmp/snap'' = Some ''7''"
  using snapshot_job_reply [of "demo_fsm_world () Tag_FSMSnapshot (Args_File demo_path)"
      "\<lparr>job_slot = 0x10001000, job_handle = 1, job_func = 1\<rparr>" "mk_slot Tag_FSMSnapshot (Args_File demo_path)"
      demo_path "''/tmp/snap''" "\<lambda>_ _. ret_op (0, ''7'')" "[]" 0 "''7''" _ "[]" True True]
  by (auto simp: demo_path_cstr demo_fsm_world_def mk_slot_def)

text \<open>
  A restore request is passed to the client with the path of its call, and the call is answered
  before the worker goes on: success if the callback returns zero, \<^verbatim>\<open>RAFT_E_OTHER\<close> otherwise.
\<close>

lemma fsm_step_restores:
  assumes "fsm_front w Tag_FSMRestore a s" and "sl_args s = Args_File p" and "cstr (fn_path p) = Some path"
    and "path \<noteq> []" and "fsm_restore fsm path (fsm_received a s w, es) = Ret result (w2, es2)"
    and "w_slots w2 a = w_slots (fsm_received a s w) a"
  shows "\<exists>w' s'. fsm_worker_step B fsm (w, es) = Ret () (w', es2) \<and> w_slots w' = (w_slots w2)(a \<mapsto> s') \<and>
    \<not> sl_owned s' \<and> w_fsm w' = w_fsm w2 \<and>
    (if result = 0 then sl_state s' = Success \<and> sl_error s' = RAFT_SUCCESS
     else sl_state s' = Error \<and> sl_error s' = RAFT_E_OTHER)"
proof -
  let ?err = "if result = 0 then RAFT_SUCCESS else RAFT_E_OTHER"
  let ?r = "received_slot (w_clock w) s"
  have p: "\<not> is_terminal (sl_state ?r)" "sl_args ?r = Args_File p"
    using assms(1,2) by (simp_all add: fsm_front_def received_slot_def)
  have sl: "w_slots (fsm_received a s w) a = Some ?r" by (simp add: fsm_received_def)
  have "dispatch_fsm_restore fsm a (fsm_received a s w, es) =
      Ret () (w2\<lparr>w_slots := (w_slots w2)(a \<mapsto> replied_slot ?err (w_clock w2) ?r)\<rparr>, es2)"
    using assms(3-6) p sl by (simp add: dispatch_fsm_restore_def path_args_ok slot_reply_err_ok)
  then have "fsm_worker_step B fsm (w, es) = Ret () (w2\<lparr>w_slots := (w_slots w2)(a \<mapsto> (replied_slot ?err (w_clock w2) ?r)\<lparr>sl_owned := False\<rparr>),
      w_trace := w_trace w2 @ [Ev_unlock a]\<rparr>, es2)"
    by (simp add: fsm_worker_step_front [OF assms(1)] finally_op_Ret unlock_op_Some)
  then show ?thesis
    by (intro exI conjI, simp) (auto simp: replied_slot_def)
qed

lemma fsm_step_restores_witness:
  "\<exists>w' s'. fsm_worker_step (first_fit []) demo_fsm
      (demo_fsm_world () Tag_FSMRestore (Args_File demo_path), []) = Ret () (w', []) \<and>
    w_slots w' 0x10001000 = Some s' \<and> sl_state s' = Success"
  using fsm_step_restores [OF demo_fsm_front [of "()" Tag_FSMRestore "Args_File demo_path"],
      of demo_path "''/tmp/snap''" demo_fsm "[]" 0 _ "[]" "first_fit []"]
  by (auto simp: demo_path_cstr mk_slot_def demo_fsm_def)



section \<open>State machines as functions\<close>

text \<open>
  What the worker relies on when it feeds a state machine: applying a command is a function of
  the machine's state, the bytes of the command buffer and the length, and touches nothing but
  that state. \<open>step\<close> is \<open>None\<close> where the callback does not return.
\<close>

locale pure_fsm =
  fixes fsm :: "'m RaftFSM" and step :: "'m \<Rightarrow> string \<Rightarrow> u64 \<Rightarrow> (addr \<times> 'm) option"
  assumes apply_step: "w_bufs w buf = Some cmd \<Longrightarrow> step (w_fsm w) cmd len = Some (r, m) \<Longrightarrow>
    fsm_apply fsm i t RAFT_LOG_COMMAND buf len (w, es) = Ret r (w\<lparr>w_fsm := m\<rparr>, es)"

fun run_commands :: "('m \<Rightarrow> string \<Rightarrow> u64 \<Rightarrow> (addr \<times> 'm) option) \<Rightarrow> 'm \<Rightarrow> (string \<times> u64) list \<Rightarrow> (addr list \<times> 'm) option" where
  "run_commands step m [] = Some ([], m)"
| "run_commands step m ((cmd, len) # cs) = (case step m cmd len of
      None \<Rightarrow> None
    | Some (r, m') \<Rightarrow> (case run_commands step m' cs of None \<Rightarrow> None | Some (rs, m'') \<Rightarrow> Some (r # rs, m'')))"

text \<open>A queued command: the slot is pending and unlocked, its entry is a command whose data is the
  buffer contents \<open>cmd\<close>.\<close>

definition queued_command :: "'m boost \<Rightarrow> 'm world \<Rightarrow> addr \<Rightarrow> string \<times> u64 \<Rightarrow> bool" where
  "queued_command B w a c \<longleftrightarrow> (\<exists>s log. w_slots w a = Some s \<and> \<not> sl_owned s \<and> sl_state s = Pending \<and>
     sl_args s = Args_Log log \<and> log_type log = RAFT_LOG_COMMAND \<and> data_buf log \<noteq> 0 \<and> data_len log = snd c \<and>
     w_bufs w (bo_get_address_from_handle B w (data_buf log)) = Some (fst c))"

definition command_answered :: "'m world \<Rightarrow> addr \<Rightarrow> u64 \<Rightarrow> bool" where
  "command_answered w a r \<longleftrightarrow> (\<exists>s. w_slots w a = Some s \<and> \<not> sl_owned s \<and> sl_state s = Success \<and>
     sl_error s = RAFT_SUCCESS \<and> sl_retval s = r)"

definition fsm_queue_holds :: "'m world \<Rightarrow> (CallTag \<times> addr) list \<Rightarrow> bool" where
  "fsm_queue_holds w cs \<longleftrightarrow> abq_wf 8 (w_fsm_queue w) \<and> \<not> q_closed (w_fsm_queue w) \<and> abq_list (w_fsm_queue w) = cs"

lemma fsm_queue_holds_Cons:
  assumes "fsm_queue_holds w (c # cs)"
  shows "q_count (w_fsm_queue w) \<noteq> 0" "abq_front (w_fsm_queue w) = c"
    "fsm_queue_holds (w\<lparr>w_fsm_queue := abq_remove 8 (w_fsm_queue w)\<rparr>) cs"
proof -
  have q: "abq_wf 8 (w_fsm_queue w)" "\<not> q_closed (w_fsm_queue w)" "abq_list (w_fsm_queue w) = c # cs"
    using assms by (simp_all add: fsm_queue_holds_def)
  then show n: "q_count (w_fsm_queue w) \<noteq> 0" using abq_list_Nil_iff [of "w_fsm_queue w"] by auto
  note r = abq_remove_wf [OF q(1) n]
  then show "abq_front (w_fsm_queue w) = c" using q(3) by simp
  show "fsm_queue_holds (w\<lparr>w_fsm_queue := abq_remove 8 (w_fsm_queue w)\<rparr>) cs"
    using r q by (simp add: fsm_queue_holds_def)
qed

context pure_fsm
begin

lemma step_one:
  assumes "boost_ok B" and q: "fsm_queue_holds w ((Tag_FSMApply, a) # cs)" and c: "queued_command B w a c"
    and st: "step (w_fsm w) (fst c) (snd c) = Some (r, m)"
  shows "\<exists>w'. fsm_worker_step B fsm (w, es) = Ret () (w', es) \<and> fsm_queue_holds w' cs \<and> w_fsm w' = m \<and>
    command_answered w' a r \<and> w_bufs w' = w_bufs w \<and> w_shm_base w' = w_shm_base w \<and> (\<forall>b. b \<noteq> a \<longrightarrow> w_slots w' b = w_slots w b)"
proof -
  note qc = fsm_queue_holds_Cons [OF q]
  obtain s log where s: "w_slots w a = Some s" "\<not> sl_owned s" "sl_state s = Pending" "sl_args s = Args_Log log"
    "log_type log = RAFT_LOG_COMMAND" "data_buf log \<noteq> 0" "data_len log = snd c"
    "w_bufs w (bo_get_address_from_handle B w (data_buf log)) = Some (fst c)"
    using c by (auto simp: queued_command_def)
  have f: "fsm_front w Tag_FSMApply a s"
    using q qc s by (simp add: fsm_front_def fsm_queue_holds_def)
  let ?d = "dispatched a s w"
  let ?sd = "dispatched_slot (w_clock w) (received_slot (w_clock w) s)"
  have d: "w_bufs ?d = w_bufs w" "w_fsm ?d = w_fsm w" "w_slots ?d = (w_slots w)(a \<mapsto> ?sd)"
    "w_fsm_queue ?d = abq_remove 8 (w_fsm_queue w)" "w_shm_base ?d = w_shm_base w"
    by (simp_all add: dispatched_def fsm_received_def)
  have call: "fsm_apply fsm (log_index log) (log_term log) RAFT_LOG_COMMAND
      (bo_get_address_from_handle B w (data_buf log)) (data_len log) (?d, es) = Ret r (?d\<lparr>w_fsm := m\<rparr>, es)"
    by (rule apply_step) (use s st d in simp_all)
  have step: "fsm_worker_step B fsm (w, es) = Ret () (answered a r ?sd (?d\<lparr>w_fsm := m\<rparr>), es)"
    by (rule fsm_step_command [OF assms(1) f s(4-6) call]) (simp_all add: d dispatched_slot_def)
  show ?thesis
    by (intro exI [of _ "answered a r ?sd (?d\<lparr>w_fsm := m\<rparr>)"] conjI step)
      (use d qc(3) in \<open>simp_all add: answered_def fsm_queue_holds_def command_answered_def answered_slot_def replied_slot_def\<close>)
qed

lemma worker_runs_commands:
  assumes "boost_ok B" and "fsm_queue_holds w (map (Pair Tag_FSMApply) as @ rest)" and "distinct as"
    and "list_all2 (queued_command B w) as cs" and "run_commands step (w_fsm w) cs = Some (rs, m)"
  shows "\<exists>w'. fsm_worker_loop B fsm (length as) (w, es) = Ret False (w', es) \<and> fsm_queue_holds w' rest \<and> w_fsm w' = m \<and>
    list_all2 (command_answered w') as rs \<and> w_bufs w' = w_bufs w \<and> (\<forall>b. b \<notin> set as \<longrightarrow> w_slots w' b = w_slots w b)"
  using assms(2-)
proof (induction as arbitrary: w cs rs)
  case Nil
  then show ?case by simp
next
  case (Cons a as)
  obtain c cs' where cs: "cs = c # cs'" "queued_command B w a c" "list_all2 (queued_command B w) as cs'"
    using Cons.prems(3) by (auto simp: list_all2_Cons1)
  obtain r m1 rs' where st: "step (w_fsm w) (fst c) (snd c) = Some (r, m1)" "run_commands step m1 cs' = Some (rs', m)" "rs = r # rs'"
    using Cons.prems(4) cs(1) by (cases c) (auto split: option.splits)
  have q: "fsm_queue_holds w ((Tag_FSMApply, a) # map (Pair Tag_FSMApply) as @ rest)"
    using Cons.prems(1) by simp
  from step_one [OF assms(1) q cs(2) st(1), of es] obtain w1 where
    w1: "fsm_worker_step B fsm (w, es) = Ret () (w1, es)" "fsm_queue_holds w1 (map (Pair Tag_FSMApply) as @ rest)" "w_fsm w1 = m1"
      "command_answered w1 a r" "w_bufs w1 = w_bufs w" "w_shm_base w1 = w_shm_base w" "\<forall>b. b \<noteq> a \<longrightarrow> w_slots w1 b = w_slots w b"
    by blast
  have h: "bo_get_address_from_handle B w1 x = bo_get_address_from_handle B w x" for x
    by (rule boost_handle [OF assms(1) w1(6)])
  have "list_all2 (queued_command B w1) as cs'"
    using cs(3) Cons.prems(2) w1(5,7)
    by (auto simp: list_all2_conv_all_nth queued_command_def h in_set_conv_nth)
  from Cons.IH [OF w1(2) _ this, of rs'] Cons.prems(2) st(2) w1(3) obtain w' where
    w': "fsm_worker_loop B fsm (length as) (w1, es) = Ret False (w', es)" "fsm_queue_holds w' rest" "w_fsm w' = m"
      "list_all2 (command_answered w') as rs'" "w_bufs w' = w_bufs w1" "\<forall>b. b \<notin> set as \<longrightarrow> w_slots w' b = w_slots w1 b"
    by auto
  have "command_answered w' a r"
    using w1(4) w'(6) Cons.prems(2) by (simp add: command_answered_def)
  with w1 w' st(3) show ?case
    by (intro exI [of _ w']) auto
qed

end

end
