(* ===== verification/Client.thy ===== *)
theory Client
  imports Fsm Config
begin

text \<open>
  The example client \<^verbatim>\<open>src/raft_client.c\<close>: a state machine that counts letters, with its snapshot
  and restore functions, the loops that send commands, and the handling of options. \<open>malloc\<close> is
  the C library's allocator, which may fail; the results of \<^verbatim>\<open>getopt_long\<close>, \<^verbatim>\<open>fclose\<close> and \<^verbatim>\<open>fprintf\<close> and
  the lines read from standard input are parameters. What is only printed is left out.
\<close>

section \<open>Memory\<close>

text \<open>The file-scope variables, and the objects obtained from \<^verbatim>\<open>malloc\<close>, all of type \<^verbatim>\<open>uint32_t\<close>.\<close>

record client_mem =
  letter_count :: u32
  runs :: u32
  snapshot_period :: u32
  delay_sec :: u64
  delay_nsec :: u64
  interactive :: bool
  heap :: "addr \<Rightarrow> u32 option"

definition client_start :: client_mem where
  "client_start = \<lparr>letter_count = 0, runs = 20, snapshot_period = 0, delay_sec = 1, delay_nsec = 0,
     interactive = False, heap = Map.empty\<rparr>"

type_synonym malloc = "client_mem \<Rightarrow> addr option"

definition malloc_ok :: "malloc \<Rightarrow> bool" where
  "malloc_ok mal \<longleftrightarrow> (\<forall>m p. mal m = Some p \<longrightarrow> p \<noteq> 0 \<and> heap m p = None)"

definition BUFSIZE :: u64 where
  "BUFSIZE = 256"

section \<open>The state machine\<close>

text \<open>The loop of \<^verbatim>\<open>update_count\<close> over the bytes of the buffer; \<open>None\<close> is a read past its end.\<close>

fun count_letters :: "string \<Rightarrow> nat \<Rightarrow> u32 \<Rightarrow> u32 option" where
  "count_letters data 0 n = Some n"
| "count_letters [] (Suc k) n = None"
| "count_letters (c # cs) (Suc k) n =
     (if isalpha c then count_letters cs k (n + 1)
      else if c = NUL then Some n
      else count_letters cs k n)"

definition set_fsm :: "(client_mem \<Rightarrow> client_mem) \<Rightarrow> (client_mem, unit) wop" where
  "set_fsm f = modify_op (\<lambda>w. w\<lparr>w_fsm := f (w_fsm w)\<rparr>)"

definition update_count :: "malloc \<Rightarrow> addr \<Rightarrow> u64 \<Rightarrow> (client_mem, addr) wop" where
  "update_count mal buf len =
     bind_op (gets_op (\<lambda>w. w_bufs w buf)) (\<lambda>b. case b of
       None \<Rightarrow> fail_op (Use_after_free buf)
     | Some data \<Rightarrow>
        bind_op (gets_op (\<lambda>w. count_letters data (unat len) (letter_count (w_fsm w)))) (\<lambda>r. case r of
          None \<Rightarrow> fail_op Out_of_bounds
        | Some n \<Rightarrow>
            then_op (set_fsm (\<lambda>m. m\<lparr>letter_count := n\<rparr>))
           (bind_op (gets_op (\<lambda>w. mal (w_fsm w))) (\<lambda>p. case p of
              None \<Rightarrow> fail_op Assert_failed
            | Some result \<Rightarrow>
                then_op (set_fsm (\<lambda>m. m\<lparr>heap := (heap m)(result \<mapsto> letter_count m)\<rparr>)) (ret_op result)))))"

definition FSMApply :: "malloc \<Rightarrow> u64 \<Rightarrow> u64 \<Rightarrow> RaftLogType \<Rightarrow> addr \<Rightarrow> u64 \<Rightarrow> (client_mem, addr) wop" where
  "FSMApply mal index term type cmd len = update_count mal cmd len"

text \<open>The address of the function \<^verbatim>\<open>write_snapshot\<close>.\<close>

definition write_snapshot_ptr :: addr where
  "write_snapshot_ptr = 0x401000"

definition FSMBeginSnapshot :: "malloc \<Rightarrow> string \<Rightarrow> addr \<Rightarrow> (client_mem, unit) wop" where
  "FSMBeginSnapshot mal path s =
     bind_op (gets_op (\<lambda>w. mal (w_fsm w))) (\<lambda>p. case p of
       None \<Rightarrow> fail_op (Exited 1)
     | Some state \<Rightarrow>
         then_op (set_fsm (\<lambda>m. m\<lparr>heap := (heap m)(state \<mapsto> letter_count m)\<rparr>))
         (raft_fsm_take_snapshot s state write_snapshot_ptr))"

definition FSMRestore :: "bool \<Rightarrow> string \<Rightarrow> (client_mem, int) wop" where
  "FSMRestore close_ok path = bind_op (gets_op (\<lambda>w. w_files w path)) (\<lambda>src. case src of
     None \<Rightarrow> ret_op 1
   | Some text \<Rightarrow>
       if \<not> close_ok then ret_op 1
       else (case fscanf_u text of
          Some val \<Rightarrow> then_op (set_fsm (\<lambda>m. m\<lparr>letter_count := val\<rparr>)) (ret_op 0)
        | None \<Rightarrow> ret_op 1))"

definition write_snapshot :: "bool \<Rightarrow> addr \<Rightarrow> (client_mem, int \<times> string) wop" where
  "write_snapshot print_ok handle = bind_op (gets_op (\<lambda>w. heap (w_fsm w) handle)) (\<lambda>st. case st of
     None \<Rightarrow> fail_op (Use_after_free handle)
   | Some state \<Rightarrow>
       then_op (set_fsm (\<lambda>m. m\<lparr>heap := (heap m)(handle := None)\<rparr>))
       (ret_op (if print_ok then (0, dec_digits (unat state) @ [CHR 0x0A]) else (1, []))))"

definition snapshot_funcs :: "bool \<Rightarrow> addr \<Rightarrow> client_mem snapshot_func" where
  "snapshot_funcs print_ok f = (if f = write_snapshot_ptr then write_snapshot print_ok else (\<lambda>_. fail_op Out_of_bounds))"

definition fsm_def :: "malloc \<Rightarrow> bool \<Rightarrow> client_mem RaftFSM" where
  "fsm_def mal close_ok = \<lparr>fsm_apply = FSMApply mal, fsm_begin_snapshot = FSMBeginSnapshot mal, fsm_restore = FSMRestore close_ok\<rparr>"

section \<open>Commands\<close>

text \<open>The successful branch of \<^verbatim>\<open>send_command\<close>: fetching, showing and freeing the count.\<close>

definition show_count :: "addr \<Rightarrow> (client_mem, u32 option) wop" where
  "show_count f = bind_op (raft_future_get_fsm_reply f True) (\<lambda>(e, r).
     let cur_count_p = (case r of None \<Rightarrow> 0 | Some p \<Rightarrow> p) in
     then_op (assert_op (cur_count_p \<noteq> 0))
    (bind_op (gets_op (\<lambda>w. heap (w_fsm w) cur_count_p)) (\<lambda>v. case v of
       None \<Rightarrow> fail_op (Use_after_free cur_count_p)
     | Some n \<Rightarrow> then_op (set_fsm (\<lambda>m. m\<lparr>heap := (heap m)(cur_count_p := None)\<rparr>)) (ret_op (Some n)))))"

text \<open>\<^verbatim>\<open>send_command\<close>; the result is the letter count it prints.\<close>

definition send_command :: "client_mem boost \<Rightarrow> addr \<Rightarrow> (client_mem, u32 option) wop" where
  "send_command B buf =
     bind_op (raft_apply B buf BUFSIZE 0) (\<lambda>f.
     bind_op (raft_future_wait f) (\<lambda>err.
     bind_op (if err = RAFT_SUCCESS then show_count f else ret_op None) (\<lambda>shown.
     then_op (raft_future_dispose f) (then_op (free_raft_buffer buf) (ret_op shown)))))"

definition take_snapshot :: "client_mem boost \<Rightarrow> (client_mem, bool) wop" where
  "take_snapshot B =
     bind_op (raft_snapshot B) (\<lambda>sf.
     bind_op (raft_future_wait sf) (\<lambda>err.
     then_op (raft_future_dispose sf) (ret_op (err = RAFT_SUCCESS))))"

text \<open>Storing text at the start of a buffer.\<close>

definition fill_buf :: "addr \<Rightarrow> (char list \<Rightarrow> char list) \<Rightarrow> (client_mem, unit) wop" where
  "fill_buf buf f = bind_op (gets_op (\<lambda>w. w_bufs w buf)) (\<lambda>b. case b of
     None \<Rightarrow> fail_op (Use_after_free buf)
   | Some old \<Rightarrow> modify_op (\<lambda>w. w\<lparr>w_bufs := (w_bufs w)(buf \<mapsto> f old)\<rparr>))"

text \<open>\<^verbatim>\<open>snprintf(buf, n, ...)\<close> of a text: at most \<open>n - 1\<close> characters and a terminator.\<close>

definition snprintf_text :: "nat \<Rightarrow> string \<Rightarrow> char list \<Rightarrow> char list" where
  "snprintf_text n text old = (let t = take (n - 1) text @ [NUL] in t @ drop (length t) old)"

definition auto_text :: "nat \<Rightarrow> string" where
  "auto_text i = ''Raft command #'' @ dec_digits i"

definition auto_step :: "client_mem boost \<Rightarrow> nat \<Rightarrow> (client_mem, u32 option) wop" where
  "auto_step B i =
     bind_op (alloc_raft_buffer B BUFSIZE) (\<lambda>buf.
     then_op (fill_buf buf (snprintf_text (unat BUFSIZE) (auto_text i)))
    (bind_op (send_command B buf) (\<lambda>shown.
     bind_op (gets_op (\<lambda>w. unat (snapshot_period (w_fsm w)))) (\<lambda>period.
     then_op (if period \<noteq> 0 \<and> i mod period = 0 then then_op (take_snapshot B) (ret_op ()) else ret_op ())
     (ret_op shown)))))"

text \<open>The loop of \<^verbatim>\<open>run_auto\<close> over the values of \<^verbatim>\<open>i\<close>, with the counts it prints. The bound \<^verbatim>\<open>runs\<close> is
  written only while the options are parsed, so it is the same in every iteration.\<close>

fun auto_loop :: "client_mem boost \<Rightarrow> nat list \<Rightarrow> (client_mem, u32 option list) wop" where
  "auto_loop B [] = ret_op []"
| "auto_loop B (i # is) = bind_op (auto_step B i) (\<lambda>n. bind_op (auto_loop B is) (\<lambda>ns. ret_op (n # ns)))"

definition run_auto :: "client_mem boost \<Rightarrow> (client_mem, u32 option list) wop" where
  "run_auto B = bind_op (gets_op (\<lambda>w. unat (runs (w_fsm w)))) (\<lambda>r. auto_loop B [1..<Suc r])"

text \<open>\<^verbatim>\<open>run_interactive\<close> on the lines that \<^verbatim>\<open>fgets\<close> delivers, each with its newline if it had one; the
  end of the list is the end of the input.\<close>

definition line_text :: "string \<Rightarrow> string" where
  "line_text line = takeWhile (\<lambda>c. c \<noteq> NUL \<and> c \<noteq> CHR 0x0A) line"

fun run_interactive :: "client_mem boost \<Rightarrow> string list \<Rightarrow> (client_mem, unit) wop" where
  "run_interactive B [] = ret_op ()"
| "run_interactive B (line # lines) =
     (let text = line_text line in
      if text = ''S'' \<or> text = ''s'' then then_op (take_snapshot B) (run_interactive B lines)
      else if text = ''Q'' \<or> text = ''q'' then ret_op ()
      else bind_op (alloc_raft_buffer B BUFSIZE) (\<lambda>buf.
        then_op (fill_buf buf (\<lambda>old. strncpy old text 255))
       (then_op (send_command B buf) (run_interactive B lines))))"

section \<open>Options\<close>

definition LONG_OPTS :: "option_row list" where
  "LONG_OPTS =
    [\<lparr>opt_name = ''runs'', opt_has_arg = required_argument, opt_val = 114\<rparr>,
     \<lparr>opt_name = ''snapshots'', opt_has_arg = required_argument, opt_val = 115\<rparr>,
     \<lparr>opt_name = ''wait'', opt_has_arg = required_argument, opt_val = 119\<rparr>,
     \<lparr>opt_name = ''interactive'', opt_has_arg = no_argument, opt_val = 105\<rparr>,
     \<lparr>opt_name = ''help'', opt_has_arg = no_argument, opt_val = 104\<rparr>,
     \<lparr>opt_name = [], opt_has_arg = no_argument, opt_val = 0\<rparr>]"

text \<open>\<^verbatim>\<open>count_opts\<close> looks at no more than 256 rows; \<open>None\<close> is a read past the table.\<close>

fun count_opts_from :: "nat \<Rightarrow> option_row list \<Rightarrow> int \<Rightarrow> int option" where
  "count_opts_from 0 ops i = Some (- 1)"
| "count_opts_from (Suc k) [] i = None"
| "count_opts_from (Suc k) (p # ops) i = (if opt_name p = [] then Some i else count_opts_from k ops (i + 1))"

definition count_opts :: "option_row list \<Rightarrow> int option" where
  "count_opts ops = count_opts_from 256 ops 0"

text \<open>\<open>Inr None\<close> is a failed allocation.\<close>

definition merge_opts :: "bool \<Rightarrow> option_row list \<Rightarrow> option_row list \<Rightarrow> fault + option_row list option" where
  "merge_opts malloc_succeeds a b = (case (count_opts a, count_opts b) of
      (Some n_a, Some n_b) \<Rightarrow>
        if n_a < 0 \<or> n_b < 0 then Inl Assert_failed
        else if \<not> malloc_succeeds then Inr None
        else Inr (Some (take (nat n_a) a @ take (nat n_b + 1) b))
    | _ \<Rightarrow> Inl Out_of_bounds)"

text \<open>The loop of \<^verbatim>\<open>parse_opts\<close> over the results of \<^verbatim>\<open>getopt_long\<close>: the value of the option and its
  argument. A missing argument of an option that uses it is a null pointer that is read.\<close>

definition with_arg :: "string option \<Rightarrow> (string \<Rightarrow> fault + 'a) \<Rightarrow> fault + 'a" where
  "with_arg arg f = (case arg of None \<Rightarrow> Inl Out_of_bounds | Some a \<Rightarrow> f a)"

fun parse_loop :: "(int \<times> string option) list \<Rightarrow> RaftConfig \<Rightarrow> client_mem \<Rightarrow> fault + int \<times> RaftConfig \<times> client_mem" where
  "parse_loop [] cfg m = Inr (0, cfg, m)"
| "parse_loop ((c, arg) # rs) cfg m =
     (if is_raft_option c then
        (case raft_apply_option (Some cfg) c arg of
           Inl e \<Rightarrow> Inl e
         | Inr (r, c') \<Rightarrow> parse_loop rs (case c' of None \<Rightarrow> cfg | Some x \<Rightarrow> x) m)
      else if c = 110 then with_arg arg (\<lambda>a. parse_loop rs cfg (m\<lparr>runs := ucast (fst (strtoul a))\<rparr>))
      else if c = 115 then with_arg arg (\<lambda>a. parse_loop rs cfg (m\<lparr>snapshot_period := ucast (fst (strtoul a))\<rparr>))
      else if c = 119 then with_arg arg (\<lambda>a.
        let usec = fst (strtoul a); secs = usec div 1000000; nanos = (usec mod 1000000) * 1000
        in parse_loop rs cfg (m\<lparr>delay_sec := secs, delay_nsec := nanos\<rparr>))
      else if c = 105 then parse_loop rs cfg (m\<lparr>interactive := True\<rparr>)
      else if c = 104 then Inr (- 3, cfg, m)
      else Inr (- 1, cfg, m))"

definition parse_opts :: "bool \<Rightarrow> (int \<times> string option) list \<Rightarrow> RaftConfig \<Rightarrow> client_mem \<Rightarrow> fault + int \<times> RaftConfig \<times> client_mem" where
  "parse_opts malloc_succeeds rs cfg m = (case merge_opts malloc_succeeds LONG_OPTS raft_getopt_long_opts of
      Inl e \<Rightarrow> Inl e
    | Inr None \<Rightarrow> Inr (- 2, cfg, m)
    | Inr (Some combined) \<Rightarrow> parse_loop rs cfg m)"

section \<open>The state machine counts letters\<close>

text \<open>The letters of a command: those before its terminator and within its length.\<close>

definition letters :: "string \<times> u64 \<Rightarrow> nat" where
  "letters c = length (filter isalpha (takeWhile (\<lambda>x. x \<noteq> NUL) (take (unat (snd c)) (fst c))))"

lemma NUL_not_alpha: "\<not> isalpha NUL"
  by (simp add: isalpha_def code_def NUL_def)

lemma count_letters_eq:
  "count_letters data k n =
     (if k \<le> length data \<or> NUL \<in> set data
      then Some (n + of_nat (length (filter isalpha (takeWhile (\<lambda>x. x \<noteq> NUL) (take k data))))) else None)"
proof (induction data k n rule: count_letters.induct)
  case (3 c cs k n)
  then show ?case by (auto simp: NUL_not_alpha algebra_simps)
qed simp_all

definition client_step :: "malloc \<Rightarrow> client_mem \<Rightarrow> string \<Rightarrow> u64 \<Rightarrow> (addr \<times> client_mem) option" where
  "client_step mal m cmd len = (case count_letters cmd (unat len) (letter_count m) of
      None \<Rightarrow> None
    | Some n \<Rightarrow> (case mal (m\<lparr>letter_count := n\<rparr>) of
          None \<Rightarrow> None
        | Some p \<Rightarrow> Some (p, m\<lparr>letter_count := n, heap := (heap m)(p \<mapsto> n)\<rparr>)))"

interpretation client_fsm: pure_fsm "fsm_def mal close_ok" "client_step mal" for mal close_ok
  by unfold_locales
    (auto simp: fsm_def_def FSMApply_def update_count_def client_step_def set_fsm_def split: option.splits)

lemma client_step_Some:
  "client_step mal m cmd len = Some (r, m') \<Longrightarrow>
     letter_count m' = letter_count m + of_nat (letters (cmd, len)) \<and> heap m' = (heap m)(r \<mapsto> letter_count m') \<and>
     mal (m\<lparr>letter_count := letter_count m'\<rparr>) = Some r"
  by (auto simp: client_step_def count_letters_eq letters_def split: option.splits if_splits)

lemma run_client_commands:
  "malloc_ok mal \<Longrightarrow> run_commands (client_step mal) m cs = Some (rs, m') \<Longrightarrow>
     letter_count m' = letter_count m + of_nat (sum_list (map letters cs)) \<and> length rs = length cs \<and>
     (\<forall>p. heap m p \<noteq> None \<longrightarrow> heap m' p = heap m p) \<and>
     (\<forall>i < length cs. heap m' (rs ! i) = Some (letter_count m + of_nat (sum_list (map letters (take (Suc i) cs)))))"
proof (induction cs arbitrary: m rs)
  case Nil
  then show ?case by simp
next
  case (Cons c cs)
  obtain cmd len where c: "c = (cmd, len)" by (cases c)
  with Cons.prems(2) obtain r m1 rs' where st: "client_step mal m cmd len = Some (r, m1)"
    and rn: "run_commands (client_step mal) m1 cs = Some (rs', m')" and rs: "rs = r # rs'"
    by (auto split: option.splits)
  note s1 = client_step_Some [OF st]
  note ih = Cons.IH [OF Cons.prems(1) rn]
  have fresh: "heap m r = None"
  proof -
    have "mal (m\<lparr>letter_count := letter_count m1\<rparr>) = Some r" using s1 by blast
    with Cons.prems(1) have "heap (m\<lparr>letter_count := letter_count m1\<rparr>) r = None" unfolding malloc_ok_def by blast
    then show ?thesis by simp
  qed
  show ?case
  proof (intro conjI allI impI)
    show "letter_count m' = letter_count m + of_nat (sum_list (map letters (c # cs)))"
      using ih s1 c by simp
    show "length rs = length (c # cs)" using ih rs by simp
    show "heap m' p = heap m p" if "heap m p \<noteq> None" for p
      using that ih s1 fresh by (metis fun_upd_apply)
    fix i assume i: "i < length (c # cs)"
    show "heap m' (rs ! i) = Some (letter_count m + of_nat (sum_list (map letters (take (Suc i) (c # cs)))))"
    proof (cases i)
      case 0
      have "heap m1 r = Some (letter_count m1)" using s1 by simp
      then have "heap m' r = Some (letter_count m1)" using ih by simp
      with 0 rs s1 c show ?thesis by simp
    next
      case (Suc j)
      with i ih rs s1 c show ?thesis by (simp add: algebra_simps)
    qed
  qed
qed

text \<open>
  C4. The worker thread runs the client's state machine on the committed commands, in the order of
  the queue: after one step per queued command, as long as no allocation fails and every command
  stays inside its buffer, the letter count has grown by the letters of all commands (modulo 2 to
  the 32), and the call of each command has succeeded with a pointer to a cell that holds the
  count right after that command. The rest of the queue and all other calls are untouched.
\<close>

theorem client_worker_counts_letters:
  assumes "boost_ok B" and "malloc_ok mal" and "fsm_queue_holds w (map (Pair Tag_FSMApply) as @ rest)" and "distinct as"
    and "list_all2 (queued_command B w) as cs"
    and "run_commands (client_step mal) (w_fsm w) cs = Some (rs, m)"
  shows "\<exists>w'. fsm_worker_loop B (fsm_def mal close_ok) (length as) (w, es) = Ret False (w', es) \<and>
    fsm_queue_holds w' rest \<and>
    letter_count (w_fsm w') = letter_count (w_fsm w) + of_nat (sum_list (map letters cs)) \<and>
    list_all2 (command_answered w') as rs \<and>
    (\<forall>i < length as. heap (w_fsm w') (rs ! i) =
       Some (letter_count (w_fsm w) + of_nat (sum_list (map letters (take (Suc i) cs))))) \<and>
    (\<forall>b. b \<notin> set as \<longrightarrow> w_slots w' b = w_slots w b)"
proof -
  from client_fsm.worker_runs_commands [OF assms(1,3-6)] obtain w' where
    "fsm_worker_loop B (fsm_def mal close_ok) (length as) (w, es) = Ret False (w', es)" "fsm_queue_holds w' rest"
    "w_fsm w' = m" "list_all2 (command_answered w') as rs" "\<forall>b. b \<notin> set as \<longrightarrow> w_slots w' b = w_slots w b"
    by blast
  moreover have "length as = length cs" using assms(5) by (rule list_all2_lengthD)
  ultimately show ?thesis
    using run_client_commands [OF assms(2,6)] by (intro exI [of _ w']) simp
qed

definition demo_malloc :: malloc where
  "demo_malloc m = find (\<lambda>p. p \<noteq> 0 \<and> heap m p = None) [0x500, 0x600]"

lemma demo_malloc_ok: "malloc_ok demo_malloc"
  by (auto simp: malloc_ok_def demo_malloc_def find_Some_iff)

lemma demo_fsm_queue: "fsm_queue_holds (demo_fsm_world m t args) [(t, 0x10001000)]"
  by (simp add: fsm_queue_holds_def demo_fsm_world_def abq_insert_def abq_zeroed_def abq_inc_def abq_wf_def abq_list_def)

theorem client_worker_counts_letters_witness:
  "\<exists>w'. fsm_worker_loop (first_fit []) (fsm_def demo_malloc True) 1
      (demo_fsm_world client_start Tag_FSMApply (Args_Log (mk_LogEntry 1 1 RAFT_LOG_COMMAND 0x2000 6)), []) = Ret False (w', []) \<and>
    letter_count (w_fsm w') = 5 \<and> command_answered w' 0x10001000 0x500"
proof -
  let ?w = "demo_fsm_world client_start Tag_FSMApply (Args_Log (mk_LogEntry 1 1 RAFT_LOG_COMMAND 0x2000 6))"
  let ?cs = "[(''hello'' @ [NUL], 6 :: u64)]"
  have q: "fsm_queue_holds ?w (map (Pair Tag_FSMApply) [0x10001000] @ [])" by (simp add: demo_fsm_queue)
  have c: "list_all2 (queued_command (first_fit []) ?w) [0x10001000] ?cs"
    by (simp add: queued_command_def demo_fsm_world_def mk_slot_def mk_LogEntry_def first_fit_def)
  have m: "w_fsm ?w = client_start" by (simp add: demo_fsm_world_def)
  have l: "letters (''hello'' @ [NUL], 6) = 5"
    by (simp add: letters_def NUL_def isalpha_def code_def)
  have r: "run_commands (client_step demo_malloc) (w_fsm ?w) ?cs =
      Some ([0x500], client_start\<lparr>letter_count := 5, heap := [0x500 \<mapsto> 5]\<rparr>)"
    unfolding m using l by (simp add: client_step_def count_letters_eq letters_def demo_malloc_def client_start_def)
  have z: "letter_count client_start = 0" by (simp add: client_start_def)
  show ?thesis
    using client_worker_counts_letters [OF first_fit_ok demo_malloc_ok q _ c r, of True "[]"] l
    by (auto simp: m z)
qed

section \<open>Snapshots of the state machine\<close>

text \<open>
  C34. Beginning a snapshot captures the state at that moment: the worker's step on a snapshot
  request copies the letter count to a fresh cell, queues exactly one job for that call at the
  end of the snapshot queue, makes sure that the snapshot worker runs, and leaves the call
  pending and unlocked for it.
\<close>

theorem snapshot_begins:
  assumes "fsm_front w Tag_FSMSnapshot a s" and "sl_args s = Args_File p" and "cstr (fn_path p) = Some path"
    and "path \<noteq> []" and "a \<noteq> 0" and "malloc_ok mal" and "mal (w_fsm w) = Some h"
    and "\<not> d_closed (w_snapshot_queue w)"
  shows "\<exists>w' s'. fsm_worker_step B (fsm_def mal close_ok) (w, es) = Ret () (w', es) \<and>
    d_items (w_snapshot_queue w') = d_items (w_snapshot_queue w) @
      [\<lparr>job_slot = a, job_handle = h, job_func = write_snapshot_ptr\<rparr>] \<and>
    w_snapshot_worker w' \<and> heap (w_fsm w) h = None \<and>
    w_fsm w' = (w_fsm w)\<lparr>heap := (heap (w_fsm w))(h \<mapsto> letter_count (w_fsm w))\<rparr> \<and>
    w_slots w' = (w_slots w)(a \<mapsto> s') \<and> sl_state s' = Pending \<and> \<not> sl_owned s' \<and> sl_args s' = sl_args s"
proof -
  have h: "h \<noteq> 0" "heap (w_fsm w) h = None" using assms(6,7) by (auto simp: malloc_ok_def)
  have s: "sl_state s = Pending" using assms(1) by (simp add: fsm_front_def)
  let ?s = "(received_slot (w_clock w) s)\<lparr>sl_owned := False\<rparr>"
  let ?w1 = "(fsm_received a s w)\<lparr>w_slots := (w_slots w)(a \<mapsto> ?s), w_trace := w_trace (fsm_received a s w) @ [Ev_unlock a]\<rparr>"
  have u: "unlock_op a (fsm_received a s w, es) = Ret () (?w1, es)"
    by (simp add: unlock_op_def fsm_received_def)
  have p: "path_args a (?w1, es) = Ret path (?w1, es)"
    using assms(2,3) by (simp add: path_args_def received_slot_def)
  have f: "w_fsm ?w1 = w_fsm w" "w_snapshot_queue ?w1 = w_snapshot_queue w" "w_slots ?w1 = (w_slots w)(a \<mapsto> ?s)"
    by (simp_all add: fsm_received_def)
  have "\<exists>w'. FSMBeginSnapshot mal path a (?w1, es) = Ret () (w', es) \<and>
      d_items (w_snapshot_queue w') = d_items (w_snapshot_queue w) @ [\<lparr>job_slot = a, job_handle = h, job_func = write_snapshot_ptr\<rparr>] \<and>
      w_snapshot_worker w' \<and> w_fsm w' = (w_fsm w)\<lparr>heap := (heap (w_fsm w))(h \<mapsto> letter_count (w_fsm w))\<rparr> \<and>
      w_slots w' = (w_slots w)(a \<mapsto> ?s)"
    using assms(5,7,8) h(1) f
    by (simp add: FSMBeginSnapshot_def set_fsm_def raft_fsm_take_snapshot_def write_snapshot_ptr_def deque_emplace_def
        deque_check_closed_def deque_push_def bind_op_app)
  then obtain w' where w': "FSMBeginSnapshot mal path a (?w1, es) = Ret () (w', es)"
    "d_items (w_snapshot_queue w') = d_items (w_snapshot_queue w) @ [\<lparr>job_slot = a, job_handle = h, job_func = write_snapshot_ptr\<rparr>]"
    "w_snapshot_worker w'" "w_fsm w' = (w_fsm w)\<lparr>heap := (heap (w_fsm w))(h \<mapsto> letter_count (w_fsm w))\<rparr>"
    "w_slots w' = (w_slots w)(a \<mapsto> ?s)"
    by blast
  have "fsm_worker_step B (fsm_def mal close_ok) (w, es) = FSMBeginSnapshot mal path a (?w1, es)"
    using assms(4) by (simp add: fsm_worker_step_front [OF assms(1)] u dispatch_fsm_snapshot_def p fsm_def_def)
  with w' h(2) s show ?thesis
    by (intro exI [of _ w'] exI [of _ ?s]) (simp add: received_slot_def)
qed

theorem snapshot_begins_witness:
  "\<exists>w'. fsm_worker_step (first_fit []) (fsm_def demo_malloc True)
      (demo_fsm_world client_start Tag_FSMSnapshot (Args_File demo_path), []) = Ret () (w', []) \<and>
    d_items (w_snapshot_queue w') = [\<lparr>job_slot = 0x10001000, job_handle = 0x500, job_func = write_snapshot_ptr\<rparr>]"
proof -
  have m: "w_fsm (demo_fsm_world client_start Tag_FSMSnapshot (Args_File demo_path)) = client_start"
    "w_snapshot_queue (demo_fsm_world client_start Tag_FSMSnapshot (Args_File demo_path)) = deque_new"
    by (simp_all add: demo_fsm_world_def start_world_def)
  have d: "demo_malloc client_start = Some 0x500" by (simp add: demo_malloc_def client_start_def)
  show ?thesis
    using snapshot_begins [OF demo_fsm_front [of client_start Tag_FSMSnapshot "Args_File demo_path"],
        of demo_path "''/tmp/snap''" demo_malloc "0x500" "first_fit []" True "[]"]
    by (auto simp: m d demo_malloc_ok demo_path_cstr mk_slot_def deque_new_def)
qed

text \<open>
  C22. Snapshot and restore are inverse: the job that was queued for a captured count writes a file
  from which the restore callback recovers exactly that count, for every 32-bit value and
  whatever the count has become in the meantime; the snapshot call succeeds and the captured cell
  is freed.
\<close>

theorem snapshot_restore_round_trip:
  assumes "w_slots w a = Some s" and "\<not> sl_owned s" and "\<not> is_terminal (sl_state s)"
    and "sl_args s = Args_File p" and "cstr (fn_path p) = Some path" and "heap (w_fsm w) h = Some v"
  shows "\<exists>w1 w2. run_snapshot_job (snapshot_funcs True) True True
        \<lparr>job_slot = a, job_handle = h, job_func = write_snapshot_ptr\<rparr> (w, es) = Ret () (w1, es) \<and>
    (\<exists>s'. w_slots w1 a = Some s' \<and> sl_state s' = Success \<and> sl_error s' = RAFT_SUCCESS) \<and>
    w_fsm w1 = (w_fsm w)\<lparr>heap := (heap (w_fsm w))(h := None)\<rparr> \<and>
    FSMRestore True path (w1, es) = Ret 0 (w2, es) \<and> letter_count (w_fsm w2) = v"
proof -
  let ?t = "dec_digits (unat v) @ [CHR 0x0A]"
  have t: "fscanf_u ?t = Some v"
    by (rule fscanf_u_print) (simp add: no_digit_def isdigit_def code_def)
  let ?w1 = "w\<lparr>w_fsm := (w_fsm w)\<lparr>heap := (heap (w_fsm w))(h := None)\<rparr>, w_files := (w_files w)(path \<mapsto> ?t)\<rparr>"
  have "path_args a (w, es) = Ret path (w, es)" using assms by (simp add: path_args_ok)
  then have "run_snapshot_job (snapshot_funcs True) True True \<lparr>job_slot = a, job_handle = h, job_func = write_snapshot_ptr\<rparr> (w, es) =
      raft_fsm_snapshot_complete a True (?w1, es)"
    using assms(6) by (simp add: run_snapshot_job_def snapshot_funcs_def write_snapshot_def set_fsm_def)
  then show ?thesis
    using snapshot_complete_ok [of ?w1 a s True es] assms(1-3) t
    by (simp add: FSMRestore_def set_fsm_def replied_slot_def)
qed

theorem snapshot_restore_round_trip_witness:
  "\<exists>w1 w2. run_snapshot_job (snapshot_funcs True) True True
      \<lparr>job_slot = 0x10001000, job_handle = 0x500, job_func = write_snapshot_ptr\<rparr>
      (demo_fsm_world (client_start\<lparr>heap := [0x500 \<mapsto> 12345]\<rparr>) Tag_FSMSnapshot (Args_File demo_path), []) = Ret () (w1, []) \<and>
    FSMRestore True ''/tmp/snap'' (w1, []) = Ret 0 (w2, []) \<and> letter_count (w_fsm w2) = 12345"
  using snapshot_restore_round_trip
    [of "demo_fsm_world (client_start\<lparr>heap := [0x500 \<mapsto> 12345]\<rparr>) Tag_FSMSnapshot (Args_File demo_path)" "0x10001000"
      "mk_slot Tag_FSMSnapshot (Args_File demo_path)" demo_path "''/tmp/snap''" "0x500" 12345 "[]"]
  by (auto simp: demo_path_cstr mk_slot_def demo_fsm_world_def)

section \<open>Sending a command\<close>

text \<open>
  C23. A command of the client is clean on both outcomes. When the Raft process replies with a pointer
  to a count, \<^verbatim>\<open>send_command\<close> shows that count and frees the count, the call and the command buffer;
  when the call fails, it shows nothing and frees the call and the buffer.
\<close>

theorem send_command_cleans_up:
  assumes "boost_ok B" and "cmd_in_shm w buf 256" and "api_open w" and "bo_allocate_one B (call_counted w) = Some a"
    and "pends a (apply_sent buf 256 0 a w) pre" and "after pre (apply_sent buf 256 0 a w) = w2"
    and "w_slots w2 a = Some s" and "sl_tag s = Tag_Apply" and "\<not> sl_owned s" and "is_terminal (sl_state s)"
    and "w_bufs w2 buf = Some data"
    and "sl_error s = RAFT_SUCCESS \<longrightarrow> sl_retval s \<noteq> 0 \<and> heap (w_fsm w2) (sl_retval s) = Some n"
  shows "\<exists>w'. send_command B buf (w, pre @ es) = Ret (if sl_error s = RAFT_SUCCESS then Some n else None) (w', es) \<and>
    w_slots w' = (w_slots w2)(a := None) \<and> w_bufs w' = (w_bufs w2)(buf := None) \<and>
    w_fsm w' = (if sl_error s = RAFT_SUCCESS then (w_fsm w2)\<lparr>heap := (heap (w_fsm w2))(sl_retval s := None)\<rparr> else w_fsm w2)"
proof -
  note al = boost_alloc_one [OF assms(1,4)]
  have b: "in_shm_bounds (apply_sent buf 256 0 a w) a"
    using al by (simp add: in_shm_bounds_def apply_sent_def slot_made_def)
  have buf: "buf \<noteq> 0" using assms(2) by (simp add: cmd_in_shm_def)
  have wait: "raft_future_wait a (apply_sent buf 256 0 a w, pre @ es) = Ret (sl_error s) (waited a s w2, es)"
    using raft_future_wait_along [OF al(1) b assms(5)] assms(6-10) by simp
  have get: "raft_future_get_fsm_reply a True (waited a s w2, es) =
      Ret (sl_error s, if sl_error s = RAFT_SUCCESS then Some (sl_retval s) else None) (waited a s w2, es)"
    using get_fsm_reply_terminal [of "waited a s w2" a "observed_slot (w_clock w2) s" es] assms al by simp
  have disp: "raft_future_dispose a (v, es) = Ret () (slot_freed a v, es)" if "w_slots v = w_slots (waited a s w2)" for v :: "client_mem world"
    unfolding raft_future_dispose_def by (rule slot_dispose_Observed [where s = "observed_slot (w_clock w2) s"]) (simp_all add: that)
  have free: "free_raft_buffer buf (slot_freed a v, es) = Ret () ((slot_freed a v)\<lparr>w_bufs := (w_bufs v)(buf := None),
      w_stats := (w_stats (slot_freed a v))\<lparr>buffer_free := buffer_free (w_stats (slot_freed a v)) + 1\<rparr>\<rparr>, es)"
    if "w_bufs v = w_bufs w2" for v :: "client_mem world"
    using free_buf_Some [of "slot_freed a v" buf data es] that assms(11) buf by (simp add: free_raft_buffer_def slot_freed_def)
  have wd: "w_fsm (waited a s w2) = w_fsm w2" "w_bufs (waited a s w2) = w_bufs w2"
    "w_slots (waited a s w2) = (w_slots w2)(a \<mapsto> observed_slot (w_clock w2) s)"
    by (simp_all add: waited_def)
  show ?thesis
  proof (cases "sl_error s = RAFT_SUCCESS")
    case True
    let ?v = "(waited a s w2)\<lparr>w_fsm := (w_fsm w2)\<lparr>heap := (heap (w_fsm w2))(sl_retval s := None)\<rparr>\<rparr>"
    have "w_slots ?v = w_slots (waited a s w2)" "w_bufs ?v = w_bufs w2" by (simp_all add: wd)
    note fin = disp [OF this(1)] free [OF this(2)]
    have "show_count a (waited a s w2, es) = Ret (Some n) (?v, es)"
      using True assms(12) get by (simp add: show_count_def set_fsm_def wd Let_def)
    with True show ?thesis
      by (simp add: send_command_def BUFSIZE_def raft_apply_open [OF assms(2-4)] wait fin)
        (simp add: slot_freed_def wd)
  next
    case False
    note fin = disp [OF refl] free [OF wd(2)]
    show ?thesis
      using False
      by (simp add: send_command_def BUFSIZE_def raft_apply_open [OF assms(2-4)] wait fin)
        (simp add: slot_freed_def wd)
  qed
qed

theorem send_command_cleans_up_witness:
  "\<exists>w'. send_command (first_fit [0x10001000]) 0x10002000
      ((start_world (client_start\<lparr>heap := [0x500 \<mapsto> 7]\<rparr>))\<lparr>w_bufs := [0x10002000 \<mapsto> replicate 256 NUL]\<rparr>,
       [as_env (slot_reply_val 0x10001000 0x500)]) = Ret (Some 7) (w', []) \<and>
    w_bufs w' = Map.empty \<and> heap (w_fsm w') = Map.empty"
proof -
  let ?w = "(start_world (client_start\<lparr>heap := [0x500 \<mapsto> 7]\<rparr>))\<lparr>w_bufs := [0x10002000 \<mapsto> replicate 256 NUL]\<rparr>"
  let ?w1 = "apply_sent 0x10002000 256 0 0x10001000 ?w"
  let ?e = "as_env (slot_reply_val 0x10001000 0x500)"
  let ?sent = "sent_slot ?w Tag_Apply (Args_Apply (mk_ApplyArgs 0x10002000 256 0))"
  let ?s = "replied_slot RAFT_SUCCESS (w_clock ?w1) (?sent\<lparr>sl_retval := 0x500\<rparr>)"
  have s: "w_slots ?w1 0x10001000 = Some ?sent" by (simp add: apply_sent_def slot_made_def)
  have "slot_reply_val 0x10001000 0x500 (?w1, []) = Ret () (?w1\<lparr>w_slots := (w_slots ?w1)(0x10001000 \<mapsto> ?s)\<rparr>, [])"
    by (rule slot_reply_val_ok [OF s]) simp
  then have e: "?e ?w1 = ?w1\<lparr>w_slots := (w_slots ?w1)(0x10001000 \<mapsto> ?s)\<rparr>"
    unfolding as_env_def by (simp only: outcome.case prod.case)
  have p: "pends 0x10001000 ?w1 [?e]" using s by (simp add: slot_pending_simps)
  have al: "bo_allocate_one (first_fit [0x10001000]) (call_counted ?w) = Some 0x10001000"
    by (simp add: first_fit_def fresh_addr_def in_shm_bounds_def call_counted_def)
  have o: "api_open ?w" using demo_api_open [of "client_start\<lparr>heap := [0x500 \<mapsto> 7]\<rparr>"] by (simp add: api_open_def)
  have c: "cmd_in_shm ?w 0x10002000 256" by (simp add: cmd_in_shm_def in_shm_bounds_def)
  have f: "w_fsm ?w1 = client_start\<lparr>heap := [0x500 \<mapsto> 7]\<rparr>" "w_bufs ?w1 = [0x10002000 \<mapsto> replicate 256 NUL]"
    by (simp_all add: apply_sent_def slot_made_def)
  have r: "w_slots (after [?e] ?w1) 0x10001000 = Some ?s" "sl_tag ?s = Tag_Apply" "\<not> sl_owned ?s" "is_terminal (sl_state ?s)"
    "w_bufs (after [?e] ?w1) 0x10002000 = Some (replicate 256 NUL)"
    "sl_error ?s = RAFT_SUCCESS \<longrightarrow> sl_retval ?s \<noteq> 0 \<and> heap (w_fsm (after [?e] ?w1)) (sl_retval ?s) = Some 7"
    by (simp_all only: after_simps e) (simp_all add: f replied_slot_def)
  have m: "[0x10002000 \<mapsto> replicate 256 NUL](0x10002000 := None) = (Map.empty :: addr \<Rightarrow> string option)"
    "[0x500 \<mapsto> 7](0x500 := None) = (Map.empty :: addr \<Rightarrow> u32 option)" by auto
  show ?thesis
    using send_command_cleans_up [OF first_fit_ok c o al p refl r, where es = "[]"]
    by (auto simp: e f m replied_slot_def)
qed

section \<open>Option tables\<close>

definition opt_table :: "option_row list \<Rightarrow> option_row list \<Rightarrow> bool" where
  "opt_table t rows \<longleftrightarrow> length rows < 256 \<and> list_all (\<lambda>p. opt_name p \<noteq> []) rows \<and>
     (\<exists>last junk. opt_name last = [] \<and> t = rows @ last # junk)"

lemma count_opts_from_rows:
  "list_all (\<lambda>p. opt_name p \<noteq> []) rows \<Longrightarrow> length rows < k \<Longrightarrow> opt_name e = [] \<Longrightarrow>
   count_opts_from k (rows @ e # junk) i = Some (i + int (length rows))"
proof (induction rows arbitrary: k i)
  case Nil
  then show ?case by (cases k) simp_all
next
  case (Cons p rows)
  then show ?case by (cases k) simp_all
qed

text \<open>
  Merging two option tables concatenates their rows and ends with the terminator of the second:
  both are tables of fewer than 256 named rows that end with an unnamed one. So the client's
  combined table has all its own options and all of Raft's.
\<close>

lemma merge_opts_concatenates:
  assumes "opt_table a rows_a" and "opt_table b rows_b"
  shows "\<exists>last. opt_name last = [] \<and> merge_opts True a b = Inr (Some (rows_a @ rows_b @ [last])) \<and>
    merge_opts False a b = Inr None"
proof -
  from assms obtain ea ja eb jb where
    a: "opt_name ea = []" "a = rows_a @ ea # ja" and b: "opt_name eb = []" "b = rows_b @ eb # jb"
    and l: "list_all (\<lambda>p. opt_name p \<noteq> []) rows_a" "length rows_a < 256"
      "list_all (\<lambda>p. opt_name p \<noteq> []) rows_b" "length rows_b < 256"
    by (auto simp: opt_table_def)
  have "count_opts a = Some (int (length rows_a))" "count_opts b = Some (int (length rows_b))"
    using a b l by (simp_all add: count_opts_def count_opts_from_rows)
  then show ?thesis
    using a b by (intro exI [of _ eb]) (simp add: merge_opts_def)
qed

lemma merge_opts_concatenates_witness:
  "\<exists>last. merge_opts True LONG_OPTS raft_getopt_long_opts = Inr (Some (butlast LONG_OPTS @ butlast raft_LONG_OPTS @ [last]))"
proof -
  have "opt_table LONG_OPTS (butlast LONG_OPTS)" "opt_table raft_getopt_long_opts (butlast raft_LONG_OPTS)"
    by (simp_all add: opt_table_def LONG_OPTS_def raft_getopt_long_opts_def raft_LONG_OPTS_def)
  from merge_opts_concatenates [OF this] show ?thesis by blast
qed

text \<open>
  The long option that the help text offers for the number of runs does not work. Its row maps
  it to \<^verbatim>\<open>'r'\<close>, which \<^verbatim>\<open>parse_opts\<close> does not handle, so that it ends with the error for bad arguments;
  only the short option \<^verbatim>\<open>-n\<close> sets the number, to the printed value modulo 2 to the 32.
\<close>

lemma runs_option_is_rejected:
  "opt_name (LONG_OPTS ! 0) = ''runs'' \<and>
   parse_opts True ((opt_val (LONG_OPTS ! 0), arg) # rs) cfg m = Inr (- 1, cfg, m) \<and>
   parse_opts True ((110, Some (dec_digits n)) # rs) cfg m =
     parse_opts True rs cfg (m\<lparr>runs := ucast (if 2 ^ 64 \<le> n then - 1 else of_nat n :: u64)\<rparr>)"
proof -
  have "strtoul (dec_digits n) = (if 2 ^ 64 \<le> n then - 1 else of_nat n, [])"
    using strtoul_print [of "[]" n] by (simp add: no_digit_def)
  moreover have "merge_opts True LONG_OPTS raft_getopt_long_opts = Inr (Some (butlast LONG_OPTS @ raft_LONG_OPTS))"
    by (simp add: merge_opts_def count_opts_def LONG_OPTS_def raft_getopt_long_opts_def raft_LONG_OPTS_def numeral_eq_Suc)
  ultimately show ?thesis
    by (simp add: parse_opts_def is_raft_option_def is_valid_def with_arg_def) (simp add: LONG_OPTS_def)
qed

end
