(* ===== verification/Lifecycle.thy ===== *)
theory Lifecycle
  imports Fsm
begin

text \<open>
  Start-up, shutdown and the watcher thread: \<^verbatim>\<open>shm_init\<close>, \<^verbatim>\<open>run_raft\<close>, \<^verbatim>\<open>shm_cleanup\<close>,
  \<^verbatim>\<open>watch_raft_proc\<close> and their helpers in \<^verbatim>\<open>src/raft_shm.cc\<close>, and \<^verbatim>\<open>raft_init\<close> and \<^verbatim>\<open>raft_cleanup\<close> in
  \<^verbatim>\<open>src/raft_c_if.cc\<close>. What the operating system and the log library answer is the record
  \<open>init_env\<close>. Mapping the new file gives its base address and what the memory of the scoreboard
  holds before its constructor runs.
\<close>

section \<open>The environment of the start-up\<close>

record shm_image =
  im_running :: bool
  im_api_queue :: "(CallTag \<times> addr) abq"
  im_fsm_queue :: "(CallTag \<times> addr) abq"

text \<open>A new file reads as zeros.\<close>

definition zero_image :: shm_image where
  "zero_image = \<lparr>im_running = False, im_api_queue = abq_zeroed 8 (Tag_Invalid, 0), im_fsm_queue = abq_zeroed 8 (Tag_Invalid, 0)\<rparr>"

record init_env =
  ie_verbose :: bool
  ie_zlog_init :: "string \<Rightarrow> int"
  ie_zlog_reload :: "string \<Rightarrow> int"
  ie_stat_ok :: bool
  ie_enoent :: bool
  ie_unlink_ok :: bool
  ie_map :: "(addr \<times> shm_image) option"
  ie_timing :: bool
  ie_fork :: int

section \<open>Logging and shared memory\<close>

definition log_config_file :: "bool \<Rightarrow> RaftConfig option \<Rightarrow> string" where
  "log_config_file v_env cfg =
     (if v_env \<or> (case cfg of None \<Rightarrow> False | Some c \<Rightarrow> cfg_verbose c) then ''zlog_verbose.conf'' else ''zlog.conf'')"

definition log_init :: "init_env \<Rightarrow> RaftConfig option \<Rightarrow> ('m, int) wop" where
  "log_init E cfg = (let config_file = log_config_file (ie_verbose E) cfg in
     bind_op (gets_op (\<lambda>w. if ''msg_cat'' \<notin> set (w_log_cats w) then ie_zlog_init E config_file else ie_zlog_reload E config_file)) (\<lambda>rc.
       if rc \<noteq> 0 then ret_op rc
       else then_op (modify_op (\<lambda>w. w\<lparr>w_log_cats := [''msg_cat'', ''fsm_cat'', ''shm_cat'']\<rparr>)) (ret_op 0)))"

text \<open>The constructor of \<^verbatim>\<open>Scoreboard\<close> in the memory \<open>im\<close>: three flags are set, the other members are
  left alone.\<close>

definition construct_Scoreboard :: "shm_image \<Rightarrow> ('m, unit) wop" where
  "construct_Scoreboard im = modify_op (\<lambda>w. w\<lparr>w_is_raft_running := im_running im,
     w_api_queue := im_api_queue im, w_fsm_queue := im_fsm_queue im,
     w_is_leader := False, w_shutdown_requested := False, w_raft_killed := False\<rparr>)"

text \<open>\<^verbatim>\<open>shm_init\<close> in the client, with \<^verbatim>\<open>create\<close> true. The segment is empty: it holds no slot and no
  buffer.\<close>

definition shm_init_create :: "init_env \<Rightarrow> string \<Rightarrow> RaftConfig option \<Rightarrow> ('m, unit) wop" where
  "shm_init_create E path config =
     then_op (log_init E config)
    (case config of
       None \<Rightarrow> fail_op Assert_failed
     | Some cfg \<Rightarrow>
         if ie_stat_ok E \<and> \<not> ie_unlink_ok E then fail_op (Exited 1)
         else if \<not> ie_stat_ok E \<and> \<not> ie_enoent E then fail_op (Exited 1)
         else (case ie_map E of
             None \<Rightarrow> fail_op (Exited 1)
           | Some (base, im) \<Rightarrow>
               then_op (modify_op (\<lambda>w. w\<lparr>w_mapped := True, w_shm_base := base, w_shm_size := cfg_shm_size cfg,
                  w_slots := Map.empty, w_bufs := Map.empty, w_files := (w_files w)(path \<mapsto> [])\<rparr>))
              (then_op (construct_Scoreboard im)
              (then_op (modify_op (\<lambda>w. w\<lparr>w_config := Some (cfg\<lparr>cfg_shm_path := strncpy (cfg_shm_path cfg) path 255\<rparr>),
                  w_stats := \<lparr>buffer_alloc = 0, buffer_free = 0, call_alloc = 0, call_free = 0\<rparr>,
                  w_msg_timing := ie_timing E\<rparr>))
               (deque_reset w_orphaned_calls_update)))))"

text \<open>\<^verbatim>\<open>shm_init\<close> in the Raft process: it opens the file, removes its name and finds the scoreboard.\<close>

definition shm_init_open :: "init_env \<Rightarrow> string \<Rightarrow> RaftConfig option \<Rightarrow> ('m, unit) wop" where
  "shm_init_open E path config =
     then_op (log_init E config)
    (then_op (assert_op (config = None))
    (if \<not> ie_unlink_ok E then fail_op (Exited 1)
     else then_op (modify_op (\<lambda>w. w\<lparr>w_files := (w_files w)(path := None)\<rparr>))
       (bind_op (gets_op w_config) (\<lambda>shm_config.
        then_op (log_init E shm_config)
       (bind_op (gets_op w_mapped) (\<lambda>m. assert_op m))))))"

definition shm_init :: "init_env \<Rightarrow> string \<Rightarrow> bool \<Rightarrow> RaftConfig option \<Rightarrow> ('m, unit) wop" where
  "shm_init E path create config = (if create then shm_init_create E path config else shm_init_open E path config)"

section \<open>The Raft process\<close>

text \<open>The argument vector ends with a null pointer; an unterminated path cannot be read as a string.\<close>

definition build_raft_argv :: "RaftConfig \<Rightarrow> string option list" where
  "build_raft_argv cfg = [Some ''raft_if'', Some ''--shm-path'', cstr (cfg_shm_path cfg), None]"

text \<open>\<^verbatim>\<open>run_raft\<close> in the process that \<^verbatim>\<open>fork\<close> returns to: the parent for a positive result, the child
  for zero. The child replaces its program, and gets on only if that fails.\<close>

definition run_raft :: "init_env \<Rightarrow> ('m, int) wop" where
  "run_raft E =
     (if ie_fork E = - 1 then fail_op (Exited 1)
      else if ie_fork E \<noteq> 0 then
        then_op (modify_op (\<lambda>w. w\<lparr>w_raft_pid := ie_fork E\<rparr>))
       (bind_op (gets_op w_raft_watcher) (\<lambda>j.
        then_op (assert_op (\<not> j))
       (then_op (modify_op (\<lambda>w. w\<lparr>w_raft_watcher := True, w_finished := w_finished w - {T_raft_watcher}\<rparr>))
       (bind_op (gets_op w_orphan_gc_thread) (\<lambda>g.
        then_op (assert_op (\<not> g))
       (then_op (modify_op (\<lambda>w. w\<lparr>w_orphan_gc_thread := True, w_finished := w_finished w - {T_orphan_gc}\<rparr>))
        (ret_op (ie_fork E))))))))
      else fail_op (Exited 1))"

text \<open>\<open>rc\<close> is what \<^verbatim>\<open>kill\<close> returns.\<close>

definition kill_raft :: "int \<Rightarrow> ('m, int) wop" where
  "kill_raft rc = then_op (modify_op (\<lambda>w. w\<lparr>w_raft_killed := True\<rparr>)) (ret_op rc)"

definition wait_for_raft :: "('m, unit) wop" where
  "wait_for_raft = await_op (\<lambda>w. \<not> w_is_raft_running w) (\<lambda>_. None)"

text \<open>\<^verbatim>\<open>thread.join()\<close>: it returns once the thread has, and the object is no longer joinable.\<close>

definition join_op :: "thread \<Rightarrow> ('m world \<Rightarrow> 'm world) \<Rightarrow> ('m, unit) wop" where
  "join_op t clear = then_op (await_op (\<lambda>w. t \<notin> w_finished w) (\<lambda>_. None)) (modify_op clear)"

definition shm_cleanup :: "('m, unit) wop" where
  "shm_cleanup =
     then_op (abq_close w_api_queue_update)
    (then_op (deque_close w_orphaned_calls_update)
    (bind_op (gets_op w_orphan_gc_thread) (\<lambda>g.
     then_op (assert_op g)
    (then_op (join_op T_orphan_gc (\<lambda>w. w\<lparr>w_orphan_gc_thread := False\<rparr>))
    (bind_op (gets_op w_raft_watcher) (\<lambda>j.
     then_op (if j then join_op T_raft_watcher (\<lambda>w. w\<lparr>w_raft_watcher := False\<rparr>) else ret_op ())
     (modify_op (\<lambda>w. w\<lparr>w_mapped := False\<rparr>))))))))"

section \<open>The C interface\<close>

definition raft_init :: "init_env \<Rightarrow> RaftConfig \<Rightarrow> RaftConfig option \<Rightarrow> ('m, int) wop" where
  "raft_init E mem config_arg =
     then_op (deque_reset w_snapshot_queue_update)
    (then_op (modify_op (\<lambda>w. w\<lparr>w_err_msgs := init_err_msgs\<rparr>))
    (let config = (case config_arg of Some c \<Rightarrow> c | None \<Rightarrow> default_config mem) in
     (case cstr (cfg_shm_path config) of
        None \<Rightarrow> fail_op Out_of_bounds
      | Some path \<Rightarrow>
          then_op (shm_init E path True (Some config))
         (then_op (run_raft E)
         (then_op start_fsm_worker
         (then_op wait_for_raft
          (gets_op w_raft_pid)))))))"

definition raft_cleanup :: "('m, unit) wop" where
  "raft_cleanup =
     then_op (abq_close w_fsm_queue_update)
    (bind_op (gets_op w_fsm_worker) (\<lambda>j.
     then_op (assert_op j)
    (then_op (join_op T_fsm_worker (\<lambda>w. w\<lparr>w_fsm_worker := False\<rparr>))
    (then_op (deque_close w_snapshot_queue_update)
    (bind_op (gets_op w_snapshot_worker) (\<lambda>s.
     then_op (if s then join_op T_snapshot_worker (\<lambda>w. w\<lparr>w_snapshot_worker := False\<rparr>) else ret_op ())
     shm_cleanup))))))"

section \<open>The watcher thread\<close>

unbundle bit_operations_syntax

text \<open>The macros of \<^verbatim>\<open>sys/wait.h\<close> on a 32-bit status.\<close>

definition WIFEXITED :: "u32 \<Rightarrow> bool" where "WIFEXITED s \<longleftrightarrow> s AND 0x7f = 0"
definition WEXITSTATUS :: "u32 \<Rightarrow> u32" where "WEXITSTATUS s = drop_bit 8 (s AND 0xff00)"
definition WTERMSIG :: "u32 \<Rightarrow> u32" where "WTERMSIG s = s AND 0x7f"
definition WIFSIGNALED :: "u32 \<Rightarrow> bool" where "WIFSIGNALED s \<longleftrightarrow> s AND 0x7f \<noteq> 0 \<and> s AND 0x7f \<noteq> 0x7f"
definition WIFSTOPPED :: "u32 \<Rightarrow> bool" where "WIFSTOPPED s \<longleftrightarrow> s AND 0xff = 0x7f"

datatype proc_report = Exited_normally | Exited_abnormally u32 | Terminated_by u32 | Stopped_by u32

definition report_process_status :: "u32 \<Rightarrow> fault + proc_report" where
  "report_process_status status =
     (if WIFEXITED status then
        (if WEXITSTATUS status = 0 then Inr Exited_normally else Inr (Exited_abnormally (WEXITSTATUS status)))
      else if WIFSIGNALED status then Inr (Terminated_by (WTERMSIG status))
      else if WIFSTOPPED status then Inr (Stopped_by (WEXITSTATUS status))
      else Inl Assert_failed)"

text \<open>The loop over the results of \<^verbatim>\<open>waitpid\<close>; \<open>False\<close> says that the thread still waits after them.\<close>

fun watch_raft_proc :: "(int \<times> u32) list \<Rightarrow> ('m, bool) wop" where
  "watch_raft_proc [] = ret_op False"
| "watch_raft_proc ((pid, status) # rs) =
     then_op (assert_op (pid \<noteq> 0))
     (if pid > 0 then
        if WIFSTOPPED status then watch_raft_proc rs
        else (case report_process_status status of
            Inl e \<Rightarrow> fail_op e
          | Inr _ \<Rightarrow>
              bind_op (gets_op w_shutdown_requested) (\<lambda>shutdown.
              bind_op (gets_op w_raft_killed) (\<lambda>killed.
                if shutdown \<and> WIFEXITED status \<and> WEXITSTATUS status = 0 then ret_op True
                else if shutdown \<and> killed then ret_op True
                else fail_op (Exited 1))))
      else fail_op (Exited 1))"

section \<open>Starting and stopping\<close>

definition env_good :: "init_env \<Rightarrow> bool" where
  "env_good E \<longleftrightarrow> (\<forall>f. ie_zlog_init E f = 0 \<and> ie_zlog_reload E f = 0) \<and> (if ie_stat_ok E then ie_unlink_ok E else ie_enoent E) \<and> 0 < ie_fork E"

lemma await_op_step: "busy s \<Longrightarrow> \<not> busy (e s) \<Longrightarrow> await_op busy (\<lambda>_. None) (s, e # es) = Ret () (e s, es)"
  by (cases es) (simp_all add: await_op_def)

lemma log_init_ok:
  "\<forall>f. ie_zlog_init E f = 0 \<and> ie_zlog_reload E f = 0 \<Longrightarrow>
     log_init E cfg (w, es) = Ret 0 (w\<lparr>w_log_cats := [''msg_cat'', ''fsm_cat'', ''shm_cat'']\<rparr>, es)"
  by (simp add: log_init_def Let_def)

lemma deque_reset_forms:
  "deque_reset w_snapshot_queue_update (w, es) = Ret () (w\<lparr>w_snapshot_queue := deque_new\<rparr>, es)"
  "deque_reset w_orphaned_calls_update (w, es) = Ret () (w\<lparr>w_orphaned_calls := deque_new\<rparr>, es)"
  by (simp_all add: deque_reset_def deque_new_def)

text \<open>The world in which \<^verbatim>\<open>raft_init\<close> waits for the Raft process.\<close>

definition init_world :: "init_env \<Rightarrow> RaftConfig \<Rightarrow> string \<Rightarrow> addr \<Rightarrow> 'm world \<Rightarrow> 'm world" where
  "init_world E cfg path base w = w\<lparr>w_snapshot_queue := deque_new, w_err_msgs := init_err_msgs,
    w_log_cats := [''msg_cat'', ''fsm_cat'', ''shm_cat''], w_mapped := True, w_shm_base := base, w_shm_size := cfg_shm_size cfg,
    w_slots := Map.empty, w_bufs := Map.empty, w_files := (w_files w)(path \<mapsto> []), w_is_raft_running := False,
    w_api_queue := abq_zeroed 8 (Tag_Invalid, 0), w_fsm_queue := abq_zeroed 8 (Tag_Invalid, 0), w_is_leader := False,
    w_shutdown_requested := False, w_raft_killed := False,
    w_config := Some (cfg\<lparr>cfg_shm_path := strncpy (cfg_shm_path cfg) path 255\<rparr>),
    w_stats := \<lparr>buffer_alloc = 0, buffer_free = 0, call_alloc = 0, call_free = 0\<rparr>, w_msg_timing := ie_timing E,
    w_orphaned_calls := deque_new, w_raft_pid := ie_fork E, w_raft_watcher := True,
    w_orphan_gc_thread := True, w_fsm_worker := True,
    w_finished := w_finished w - {T_raft_watcher} - {T_orphan_gc} - {T_fsm_worker}\<rparr>"

definition threads_stopped :: "'m world \<Rightarrow> bool" where
  "threads_stopped w \<longleftrightarrow> \<not> w_raft_watcher w \<and> \<not> w_orphan_gc_thread w \<and> \<not> w_fsm_worker w"

lemma raft_init_runs:
  assumes "env_good E" and "ie_map E = Some (base, zero_image)" and "threads_stopped w" and "cstr (cfg_shm_path cfg) = Some path"
  shows "raft_init E mem (Some cfg) (w, es) = bind_op wait_for_raft (\<lambda>_. gets_op w_raft_pid) (init_world E cfg path base w, es)"
proof -
  have g: "\<forall>f. ie_zlog_init E f = 0 \<and> ie_zlog_reload E f = 0" "ie_stat_ok E \<Longrightarrow> ie_unlink_ok E" "\<not> ie_stat_ok E \<Longrightarrow> ie_enoent E" "ie_fork E \<noteq> 0" "ie_fork E \<noteq> - 1"
    using assms(1) by (auto simp: env_good_def split: if_splits)
  have "raft_init E mem (Some cfg) (w, es) = then_op wait_for_raft (gets_op w_raft_pid) (init_world E cfg path base w, es)"
    using assms(2-4) g
    by (cases "ie_stat_ok E") (simp_all add: raft_init_def deque_reset_forms shm_init_def shm_init_create_def log_init_ok zero_image_def
        construct_Scoreboard_def run_raft_def start_fsm_worker_def init_world_def threads_stopped_def)
  then show ?thesis by simp
qed


definition demo_env :: init_env where
  "demo_env = \<lparr>ie_verbose = False, ie_zlog_init = (\<lambda>_. 0), ie_zlog_reload = (\<lambda>_. 0), ie_stat_ok = False, ie_enoent = True, ie_unlink_ok = False,
     ie_map = Some (0x10000000, zero_image), ie_timing = False, ie_fork = 4242\<rparr>"

definition stopped_world :: "'m \<Rightarrow> 'm world" where
  "stopped_world m = (start_world m)\<lparr>w_raft_watcher := False, w_orphan_gc_thread := False, w_fsm_worker := False\<rparr>"

lemma default_path: "cstr (cfg_shm_path (default_config demo_config)) = Some ''/tmp/raft_shm''"
proof -
  have "cstr (strncpy (cfg_shm_path demo_config) ''/tmp/raft_shm'' 255) = Some ''/tmp/raft_shm''"
    by (rule cstr_strncpy_short) (simp_all add: is_cstring_def NUL_def)
  then show ?thesis by (simp add: default_config_def Let_def SHM_PATH_def)
qed


text \<open>A thread returns.\<close>

definition finish :: "thread \<Rightarrow> 'm world \<Rightarrow> 'm world" where
  "finish t w = w\<lparr>w_finished := insert t (w_finished w)\<rparr>"

lemma join_op_forms:
  "t \<notin> w_finished w \<Longrightarrow> join_op t c (w, []) = Blocked (w, [])"
  "t \<notin> w_finished w \<Longrightarrow> join_op t c (w, finish t # es) = Ret () (c (finish t w), es)"
  by (simp_all add: join_op_def await_op_stuck await_op_step finish_def)

text \<open>
  C29. Shutdown closes every queue before it waits for the thread that serves it. With all four
  threads running, \<^verbatim>\<open>raft_cleanup\<close> waits for the FSM worker with the FSM queue closed, then for the
  snapshot worker with the snapshot queue closed, then for the collector with the request queue and
  the queue of orphans closed, then for the watcher; when all have returned it unmaps the
  segment. It joins every thread, so that the checks of a later \<^verbatim>\<open>raft_init\<close> pass, and it frees no
  call.
\<close>

theorem raft_cleanup_order:
  assumes "w_fsm_worker w" and "w_snapshot_worker w" and "w_orphan_gc_thread w" and "w_raft_watcher w" and "w_finished w = {}"
  shows "\<exists>w1 w2 w3 w4 w5.
    raft_cleanup (w, []) = Blocked (w1, []) \<and> q_closed (w_fsm_queue w1) \<and>
    raft_cleanup (w, [finish T_fsm_worker]) = Blocked (w2, []) \<and> d_closed (w_snapshot_queue w2) \<and>
    raft_cleanup (w, [finish T_fsm_worker, finish T_snapshot_worker]) = Blocked (w3, []) \<and>
      q_closed (w_api_queue w3) \<and> d_closed (w_orphaned_calls w3) \<and>
    raft_cleanup (w, [finish T_fsm_worker, finish T_snapshot_worker, finish T_orphan_gc]) = Blocked (w4, []) \<and> w_mapped w4 = w_mapped w \<and>
    raft_cleanup (w, [finish T_fsm_worker, finish T_snapshot_worker, finish T_orphan_gc, finish T_raft_watcher]) = Ret () (w5, []) \<and>
      \<not> w_mapped w5 \<and> \<not> w_fsm_worker w5 \<and> \<not> w_snapshot_worker w5 \<and> \<not> w_orphan_gc_thread w5 \<and> \<not> w_raft_watcher w5 \<and>
      w_slots w5 = w_slots w \<and> w_stats w5 = w_stats w"
  using assms
  by (simp add: raft_cleanup_def shm_cleanup_def abq_close_def deque_close_def join_op_forms)
    (simp add: finish_def join_op_forms)

theorem raft_cleanup_order_witness:
  "\<exists>w5. raft_cleanup ((start_world ())\<lparr>w_snapshot_worker := True\<rparr>,
      [finish T_fsm_worker, finish T_snapshot_worker, finish T_orphan_gc, finish T_raft_watcher]) = Ret () (w5, []) \<and> \<not> w_mapped w5"
  using raft_cleanup_order [of "(start_world ())\<lparr>w_snapshot_worker := True\<rparr>"] by (auto simp: start_world_def)

text \<open>
  The watcher decides on the first report that is not a stop of the process. If a shutdown was
  requested and the process exited with status 0, or was killed on purpose, the thread returns;
  otherwise, and when waiting itself fails, it ends the client with status 1; a status that is
  neither an exit, nor a signal, nor a stop fails an assertion.
\<close>

lemma watcher_decides:
  assumes "list_all (\<lambda>(p, st). 0 < p \<and> WIFSTOPPED st) stops" and "0 < pid" and "\<not> WIFSTOPPED status"
  shows "watch_raft_proc stops (w, es) = Ret False (w, es) \<and>
    watch_raft_proc (stops @ (pid, status) # rs) (w, es) =
      (if \<not> WIFEXITED status \<and> \<not> WIFSIGNALED status then Fail Assert_failed
       else if w_shutdown_requested w \<and> (WIFEXITED status \<and> WEXITSTATUS status = 0 \<or> w_raft_killed w) then Ret True (w, es)
       else Fail (Exited 1)) \<and>
    watch_raft_proc (stops @ (- 1, st) # rs) (w, es) = Fail (Exited 1)"
  using assms
proof (induction stops)
  case Nil
  then show ?case
    by (auto simp: report_process_status_def)
next
  case (Cons r stops)
  then show ?case by (cases r) auto
qed

lemma watcher_decides_witness:
  "watch_raft_proc ([(7, 0x137f)] @ (7, 0) # []) ((start_world ())\<lparr>w_shutdown_requested := True\<rparr>, []) =
     Ret True ((start_world ())\<lparr>w_shutdown_requested := True\<rparr>, []) \<and>
   watch_raft_proc ([] @ (7, 9) # []) (start_world (), []) = Fail (Exited 1)"
  using watcher_decides [of "[(7, 0x137f)]" 7 0 "(start_world ())\<lparr>w_shutdown_requested := True\<rparr>" "[]" "[]"]
    watcher_decides [of "[]" 7 9 "start_world ()" "[]" "[]"]
  by (simp add: WIFSTOPPED_def WIFEXITED_def WEXITSTATUS_def WIFSIGNALED_def start_world_def)

end
