(* ===== verification/Jsmn.thy ===== *)
theory Jsmn
  imports Raft_Prelude
begin

text \<open>
  The JSON tokenizer \<^verbatim>\<open>src/zserge-jsmn/jsmn.c\<close>, in its default mode and without parent
  links, as the library is built. The text is a list of exactly
  \<^verbatim>\<open>len\<close> characters; positions are natural numbers, which is what the code computes for texts of
  fewer than 2 to the 31 characters, where neither \<^verbatim>\<open>pos\<close> nor the \<^verbatim>\<open>int\<close> members of a token wrap. The
  token array is \<open>None\<close> for a null pointer and otherwise a list of its full length; its initial
  contents are arbitrary. An access outside the array is a fault.
\<close>

section \<open>Data\<close>

datatype jsmntype = JSMN_PRIMITIVE | JSMN_OBJECT | JSMN_ARRAY | JSMN_STRING

record jsmntok =
  tok_type :: jsmntype
  tok_start :: int
  tok_end :: int
  tok_size :: int

record jsmn_parser =
  jp_pos :: nat
  jp_toknext :: nat
  jp_toksuper :: int
  jp_toks :: "jsmntok list option"

definition JSMN_ERROR_NOMEM :: int where "JSMN_ERROR_NOMEM = - 1"
definition JSMN_ERROR_INVAL :: int where "JSMN_ERROR_INVAL = - 2"
definition JSMN_ERROR_PART :: int where "JSMN_ERROR_PART = - 3"

definition jsmn_init :: "jsmntok list option \<Rightarrow> jsmn_parser" where
  "jsmn_init toks = \<lparr>jp_pos = 0, jp_toknext = 0, jp_toksuper = - 1, jp_toks = toks\<rparr>"

section \<open>Tokens\<close>

text \<open>The index of the new token and the parser, or \<open>None\<close> when the array is used up. \<open>ts\<close> is the
  token array.\<close>

definition jsmn_alloc_token :: "jsmntok list \<Rightarrow> jsmn_parser \<Rightarrow> (nat \<times> jsmn_parser) option" where
  "jsmn_alloc_token ts P =
     (if jp_toknext P \<ge> length ts then None
      else let i = jp_toknext P
           in Some (i, P\<lparr>jp_toknext := i + 1,
                jp_toks := Some (ts[i := (ts ! i)\<lparr>tok_start := - 1, tok_end := - 1, tok_size := 0\<rparr>])\<rparr>))"

definition jsmn_fill_token :: "jsmntype \<Rightarrow> int \<Rightarrow> int \<Rightarrow> jsmntok \<Rightarrow> jsmntok" where
  "jsmn_fill_token ty st en t = t\<lparr>tok_type := ty, tok_start := st, tok_end := en, tok_size := 0\<rparr>"

definition set_tok :: "nat \<Rightarrow> (jsmntok \<Rightarrow> jsmntok) \<Rightarrow> jsmn_parser \<Rightarrow> jsmn_parser" where
  "set_tok i f P = P\<lparr>jp_toks := map_option (\<lambda>ts. ts[i := f (ts ! i)]) (jp_toks P)\<rparr>"

text \<open>Filling the next token; the result is an error code, 0 for success.\<close>

definition put_token :: "jsmntype \<Rightarrow> nat \<Rightarrow> nat \<Rightarrow> jsmn_parser \<Rightarrow> int \<times> jsmn_parser" where
  "put_token ty st en P = (case jp_toks P of
      None \<Rightarrow> (0, P)
    | Some ts \<Rightarrow> (case jsmn_alloc_token ts P of
        None \<Rightarrow> (JSMN_ERROR_NOMEM, P)
      | Some (i, P') \<Rightarrow> (0, set_tok i (jsmn_fill_token ty (int st) (int en)) P')))"

section \<open>Primitives and strings\<close>

text \<open>The loop of \<^verbatim>\<open>jsmn_parse_primitive\<close> on the rest of the text: the position where it stops, or
  \<open>None\<close> at an invalid character.\<close>

definition is_delim :: "char \<Rightarrow> bool" where
  "is_delim c \<longleftrightarrow> c \<in> {CHR '':'', CHR 0x09, CHR 0x0D, CHR 0x0A, CHR '' '', CHR '','', CHR '']'', CHR ''}''}"

definition not_printable :: "char \<Rightarrow> bool" where
  "not_printable c \<longleftrightarrow> of_char c < (32 :: nat) \<or> of_char c \<ge> (127 :: nat)"

fun prim_scan :: "string \<Rightarrow> nat \<Rightarrow> nat option" where
  "prim_scan [] p = Some p"
| "prim_scan (c # cs) p =
     (if c = NUL \<or> is_delim c then Some p
      else if not_printable c then None
      else prim_scan cs (p + 1))"

definition jsmn_parse_primitive :: "string \<Rightarrow> jsmn_parser \<Rightarrow> int \<times> jsmn_parser" where
  "jsmn_parse_primitive js P = (let start = jp_pos P in
     case prim_scan (drop start js) start of
       None \<Rightarrow> (JSMN_ERROR_INVAL, P)
     | Some p \<Rightarrow> (case put_token JSMN_PRIMITIVE start p P of
           (r, P') \<Rightarrow> if r < 0 then (r, P'\<lparr>jp_pos := start\<rparr>) else (0, P'\<lparr>jp_pos := p - 1\<rparr>)))"

definition is_hex :: "char \<Rightarrow> bool" where
  "is_hex c \<longleftrightarrow> (of_char c :: nat) \<in> {48..57} \<union> {65..70} \<union> {97..102}"

text \<open>Up to \<open>n\<close> hexadecimal digits after \<^verbatim>\<open>\u\<close>: the rest of the text, or \<open>None\<close> at another character.\<close>

fun hex_scan :: "nat \<Rightarrow> string \<Rightarrow> string option" where
  "hex_scan 0 s = Some s"
| "hex_scan (Suc n) [] = Some []"
| "hex_scan (Suc n) (c # cs) = (if c = NUL then Some (c # cs) else if is_hex c then hex_scan n cs else None)"

lemma hex_scan_length: "hex_scan n s = Some t \<Longrightarrow> length t \<le> length s"
  by (induction n s rule: hex_scan.induct) (auto split: if_splits)

definition is_escape :: "char \<Rightarrow> bool" where
  "is_escape c \<longleftrightarrow> c \<in> {CHR 0x22, CHR ''/'', CHR 0x5C, CHR ''b'', CHR ''f'', CHR ''r'', CHR ''n'', CHR ''t''}"

datatype str_result = Closed nat | Str_inval | Str_part

text \<open>The loop of \<^verbatim>\<open>jsmn_parse_string\<close> after the opening quote; \<open>p\<close> is the position of the rest.\<close>

function str_scan :: "string \<Rightarrow> nat \<Rightarrow> str_result" where
  "str_scan [] p = Str_part"
| "str_scan (c # cs) p =
     (if c = NUL then Str_part
      else if c = CHR 0x22 then Closed p
      else if c = CHR 0x5C \<and> cs \<noteq> [] then
        (if is_escape (hd cs) then str_scan (tl cs) (p + 2)
         else if hd cs = CHR ''u'' then
           (case hex_scan 4 (tl cs) of
              None \<Rightarrow> Str_inval
            | Some rest \<Rightarrow> str_scan rest (p + 2 + (length (tl cs) - length rest)))
         else Str_inval)
      else str_scan cs (p + 1))"
  by pat_completeness auto

termination
  by (relation "measure (length \<circ> fst)") (auto dest!: hex_scan_length)

definition jsmn_parse_string :: "string \<Rightarrow> jsmn_parser \<Rightarrow> int \<times> jsmn_parser" where
  "jsmn_parse_string js P = (let start = jp_pos P in
     case str_scan (drop (start + 1) js) (start + 1) of
       Str_inval \<Rightarrow> (JSMN_ERROR_INVAL, P)
     | Str_part \<Rightarrow> (JSMN_ERROR_PART, P)
     | Closed p \<Rightarrow> (case put_token JSMN_STRING (start + 1) p P of
           (r, P') \<Rightarrow> if r < 0 then (r, P'\<lparr>jp_pos := start\<rparr>) else (0, P'\<lparr>jp_pos := p\<rparr>)))"

section \<open>The main loop\<close>

definition tok_open :: "jsmntok \<Rightarrow> bool" where
  "tok_open t \<longleftrightarrow> tok_start t \<noteq> - 1 \<and> tok_end t = - 1"

definition is_container :: "jsmntok \<Rightarrow> bool" where
  "is_container t \<longleftrightarrow> tok_type t = JSMN_ARRAY \<or> tok_type t = JSMN_OBJECT"

text \<open>\<^verbatim>\<open>for (i = n - 1; i >= 0; i--)\<close> until the token satisfies the test.\<close>

fun search_down :: "(jsmntok \<Rightarrow> bool) \<Rightarrow> jsmntok list \<Rightarrow> nat \<Rightarrow> nat option" where
  "search_down P ts 0 = None"
| "search_down P ts (Suc i) = (if P (ts ! i) then Some i else search_down P ts i)"

text \<open>One character either ends the parse with a code or goes on, with what it adds to the count.\<close>

datatype jsmn_step = Stop int jsmn_parser | Go int jsmn_parser

definition super_index :: "jsmn_parser \<Rightarrow> jsmntok list \<Rightarrow> nat option" where
  "super_index P ts = (if 0 \<le> jp_toksuper P \<and> jp_toksuper P < int (length ts) then Some (nat (jp_toksuper P)) else None)"

text \<open>\<^verbatim>\<open>if (parser->toksuper != -1 && tokens != NULL) tokens[parser->toksuper].size++\<close>\<close>

definition grow_super :: "jsmn_parser \<Rightarrow> fault + jsmn_parser" where
  "grow_super P = (case jp_toks P of
      None \<Rightarrow> Inr P
    | Some ts \<Rightarrow>
        if jp_toksuper P = - 1 then Inr P
        else (case super_index P ts of
            None \<Rightarrow> Inl Out_of_bounds
          | Some i \<Rightarrow> Inr (set_tok i (\<lambda>t. t\<lparr>tok_size := tok_size t + 1\<rparr>) P)))"

definition jsmn_open :: "char \<Rightarrow> jsmn_parser \<Rightarrow> fault + jsmn_step" where
  "jsmn_open c P = (case jp_toks P of
      None \<Rightarrow> Inr (Go 1 P)
    | Some ts \<Rightarrow> (case jsmn_alloc_token ts P of
        None \<Rightarrow> Inr (Stop JSMN_ERROR_NOMEM P)
      | Some (i, P1) \<Rightarrow> (case grow_super P1 of
          Inl e \<Rightarrow> Inl e
        | Inr P2 \<Rightarrow> Inr (Go 1 ((set_tok i (\<lambda>t. t\<lparr>tok_type := (if c = CHR ''{'' then JSMN_OBJECT else JSMN_ARRAY),
              tok_start := int (jp_pos P)\<rparr>) P2)\<lparr>jp_toksuper := int (jp_toknext P2) - 1\<rparr>)))))"

definition jsmn_close :: "char \<Rightarrow> jsmn_parser \<Rightarrow> jsmn_step" where
  "jsmn_close c P = (case jp_toks P of
      None \<Rightarrow> Go 0 P
    | Some ts \<Rightarrow>
        let ty = (if c = CHR ''}'' then JSMN_OBJECT else JSMN_ARRAY)
        in (case search_down tok_open ts (jp_toknext P) of
            None \<Rightarrow> Stop JSMN_ERROR_INVAL P
          | Some i \<Rightarrow>
              if tok_type (ts ! i) \<noteq> ty then Stop JSMN_ERROR_INVAL P
              else let P1 = (set_tok i (\<lambda>t. t\<lparr>tok_end := int (jp_pos P) + 1\<rparr>) P)\<lparr>jp_toksuper := - 1\<rparr>
                   in (case search_down tok_open ts i of
                       None \<Rightarrow> Go 0 P1
                     | Some j \<Rightarrow> Go 0 (P1\<lparr>jp_toksuper := int j\<rparr>))))"

definition jsmn_comma :: "jsmn_parser \<Rightarrow> fault + jsmn_step" where
  "jsmn_comma P = (case jp_toks P of
      None \<Rightarrow> Inr (Go 0 P)
    | Some ts \<Rightarrow> (case super_index P ts of
        None \<Rightarrow> Inl Out_of_bounds
      | Some s \<Rightarrow>
          if \<not> is_container (ts ! s) then
            (case search_down (\<lambda>t. is_container t \<and> tok_open t) ts (jp_toknext P) of
               None \<Rightarrow> Inr (Go 0 P)
             | Some i \<Rightarrow> Inr (Go 0 (P\<lparr>jp_toksuper := int i\<rparr>)))
          else Inr (Go 0 P)))"

definition count_token :: "int \<times> jsmn_parser \<Rightarrow> fault + jsmn_step" where
  "count_token rP = (case rP of (r, P) \<Rightarrow>
     if r < 0 then Inr (Stop r P)
     else (case grow_super P of Inl e \<Rightarrow> Inl e | Inr P' \<Rightarrow> Inr (Go 1 P')))"

definition jsmn_char :: "string \<Rightarrow> jsmn_parser \<Rightarrow> fault + jsmn_step" where
  "jsmn_char js P = (let c = js ! jp_pos P in
     if c = CHR ''{'' \<or> c = CHR ''['' then jsmn_open c P
     else if c = CHR ''}'' \<or> c = CHR '']'' then Inr (jsmn_close c P)
     else if c = CHR 0x22 then count_token (jsmn_parse_string js P)
     else if c = CHR 0x09 \<or> c = CHR 0x0D \<or> c = CHR 0x0A \<or> c = CHR '' '' then Inr (Go 0 P)
     else if c = CHR '':'' then Inr (Go 0 (P\<lparr>jp_toksuper := int (jp_toknext P) - 1\<rparr>))
     else if c = CHR '','' then jsmn_comma P
     else count_token (jsmn_parse_primitive js P))"

text \<open>The characters with a case of their own in the \<^verbatim>\<open>switch\<close>.\<close>

definition structural :: "char \<Rightarrow> bool" where
  "structural c \<longleftrightarrow> c \<in> {CHR ''{'', CHR ''['', CHR ''}'', CHR '']'', CHR 0x22, CHR 0x09, CHR 0x0D, CHR 0x0A, CHR '' '', CHR '':'', CHR '',''}"

text \<open>Every character that lets the loop go on leaves the position where it was or moves it ahead.\<close>

lemma set_tok_pos [simp]: "jp_pos (set_tok i f P) = jp_pos P" "jp_toknext (set_tok i f P) = jp_toknext P"
  "jp_toksuper (set_tok i f P) = jp_toksuper P" "jp_toks (set_tok i f P) = map_option (\<lambda>ts. ts[i := f (ts ! i)]) (jp_toks P)"
  by (simp_all add: set_tok_def)

lemma jsmn_alloc_token_Some:
  "jsmn_alloc_token ts P = Some (i, P') \<Longrightarrow> i = jp_toknext P \<and> i < length ts \<and> jp_pos P' = jp_pos P \<and> jp_toknext P' = i + 1 \<and>
     jp_toksuper P' = jp_toksuper P \<and> jp_toks P' = Some (ts[i := (ts ! i)\<lparr>tok_start := - 1, tok_end := - 1, tok_size := 0\<rparr>])"
  by (auto simp: jsmn_alloc_token_def Let_def split: if_splits)

lemma grow_super_Inr:
  "grow_super P = Inr P' \<Longrightarrow> jp_pos P' = jp_pos P \<and> jp_toknext P' = jp_toknext P \<and> jp_toksuper P' = jp_toksuper P"
  by (auto simp: grow_super_def split: option.splits if_splits)

lemma prim_scan_ge: "prim_scan s p = Some q \<Longrightarrow> p \<le> q"
  by (induction s p rule: prim_scan.induct) (auto split: if_splits)

lemma str_scan_ge: "str_scan s p = Closed q \<Longrightarrow> p \<le> q"
proof (induction s p rule: str_scan.induct)
  case (2 c cs p)
  then show ?case by (fastforce split: if_splits option.splits)
qed simp

lemma put_token_frame:
  "put_token ty st en P = (r, P') \<Longrightarrow> jp_pos P' = jp_pos P \<and> jp_toksuper P' = jp_toksuper P"
  by (auto simp: put_token_def dest!: jsmn_alloc_token_Some split: option.splits)

lemma count_token_Go: "count_token (r, P) = Inr (Go n P') \<Longrightarrow> 0 \<le> r \<and> grow_super P = Inr P' \<and> n = 1"
  by (auto simp: count_token_def split: if_splits sum.splits)

lemma parse_string_Go:
  "jsmn_parse_string js P = (r, P') \<Longrightarrow> 0 \<le> r \<Longrightarrow> jp_pos P + 1 \<le> jp_pos P'"
  by (auto simp: jsmn_parse_string_def Let_def JSMN_ERROR_INVAL_def JSMN_ERROR_PART_def
      dest!: str_scan_ge split: str_result.splits prod.splits if_splits)

lemma parse_primitive_Go:
  assumes "jsmn_parse_primitive js P = (r, P')" and "0 \<le> r"
    and "jp_pos P < length js" and "js ! jp_pos P \<noteq> NUL" and "\<not> is_delim (js ! jp_pos P)"
  shows "jp_pos P \<le> jp_pos P'"
proof -
  have d: "drop (jp_pos P) js = js ! jp_pos P # drop (Suc (jp_pos P)) js"
    using assms(3) by (simp add: Cons_nth_drop_Suc)
  show ?thesis
    using assms(1,2,4,5)
    by (auto simp: jsmn_parse_primitive_def Let_def d JSMN_ERROR_INVAL_def dest!: prim_scan_ge
        split: option.splits prod.splits if_splits)
qed

text \<open>What the loop does with a character depends on the character only.\<close>

lemma jsmn_char_cases:
  obtains (opens) c where "\<And>Q. jp_pos Q = jp_pos P \<Longrightarrow> jsmn_char js Q = jsmn_open c Q"
    | (closes) c where "\<And>Q. jp_pos Q = jp_pos P \<Longrightarrow> jsmn_char js Q = Inr (jsmn_close c Q)"
    | (str) "\<And>Q. jp_pos Q = jp_pos P \<Longrightarrow> jsmn_char js Q = count_token (jsmn_parse_string js Q)"
    | (blank) "\<And>Q. jp_pos Q = jp_pos P \<Longrightarrow> jsmn_char js Q = Inr (Go 0 Q)"
    | (colon) "\<And>Q. jp_pos Q = jp_pos P \<Longrightarrow> jsmn_char js Q = Inr (Go 0 (Q\<lparr>jp_toksuper := int (jp_toknext Q) - 1\<rparr>))"
    | (comma) "js ! jp_pos P = CHR '',''" "\<And>Q. jp_pos Q = jp_pos P \<Longrightarrow> jsmn_char js Q = jsmn_comma Q"
    | (prim) "\<not> is_delim (js ! jp_pos P)" "\<And>Q. jp_pos Q = jp_pos P \<Longrightarrow> jsmn_char js Q = count_token (jsmn_parse_primitive js Q)"
proof -
  let ?c = "js ! jp_pos P"
  consider "?c = CHR ''{'' \<or> ?c = CHR ''[''" | "?c = CHR ''}'' \<or> ?c = CHR '']''" | "?c = CHR 0x22"
    | "?c = CHR 0x09 \<or> ?c = CHR 0x0D \<or> ?c = CHR 0x0A \<or> ?c = CHR '' ''" | "?c = CHR '':''" | "?c = CHR '',''"
    | "\<not> is_delim ?c" "?c \<noteq> CHR ''{''" "?c \<noteq> CHR ''[''" "?c \<noteq> CHR 0x22"
    by (auto simp: is_delim_def)
  then show thesis
  proof cases
    case 1
    then show thesis by (intro opens [of ?c]) (auto simp: jsmn_char_def Let_def)
  next
    case 2
    then show thesis by (intro closes [of ?c]) (auto simp: jsmn_char_def Let_def)
  next
    case 3
    then show thesis by (intro str) (auto simp: jsmn_char_def Let_def)
  next
    case 4
    then show thesis by (intro blank) (auto simp: jsmn_char_def Let_def)
  next
    case 5
    then show thesis by (intro colon) (auto simp: jsmn_char_def Let_def)
  next
    case 6
    then show thesis by (intro comma) (auto simp: jsmn_char_def Let_def)
  next
    case 7
    then show thesis by (intro prim) (auto simp: jsmn_char_def Let_def is_delim_def)
  qed
qed

lemma jsmn_char_pos:
  assumes "jsmn_char js P = Inr (Go n P')" and "jp_pos P < length js" and "js ! jp_pos P \<noteq> NUL"
  shows "jp_pos P \<le> jp_pos P'"
proof (cases rule: jsmn_char_cases [of P js])
  case (opens c)
  with assms(1) show ?thesis by (auto simp: jsmn_open_def dest!: jsmn_alloc_token_Some grow_super_Inr split: option.splits sum.splits)
next
  case (closes c)
  with assms(1) show ?thesis by (auto simp: jsmn_close_def Let_def split: option.splits if_splits)
next
  case str
  obtain r P1 where r: "jsmn_parse_string js P = (r, P1)" by fastforce
  with str assms(1) have "0 \<le> r" "grow_super P1 = Inr P'" by (auto dest: count_token_Go)
  with parse_string_Go [OF r] grow_super_Inr show ?thesis by fastforce
next
  case comma
  with assms(1) show ?thesis by (auto simp: jsmn_comma_def split: option.splits if_splits)
next
  case prim
  obtain r P1 where r: "jsmn_parse_primitive js P = (r, P1)" by fastforce
  with prim assms(1) have "0 \<le> r" "grow_super P1 = Inr P'" by (auto dest: count_token_Go)
  with parse_primitive_Go [OF r _ assms(2,3) prim(1)] grow_super_Inr show ?thesis by fastforce
qed (use assms(1) in auto)

definition jsmn_end :: "jsmn_parser \<Rightarrow> int \<Rightarrow> int" where
  "jsmn_end P count = (case jp_toks P of
      None \<Rightarrow> count
    | Some ts \<Rightarrow> if search_down tok_open ts (jp_toknext P) \<noteq> None then JSMN_ERROR_PART else count)"

function jsmn_loop :: "string \<Rightarrow> jsmn_parser \<Rightarrow> int \<Rightarrow> fault + int \<times> jsmn_parser" where
  "jsmn_loop js P count =
     (if jp_pos P < length js \<and> js ! jp_pos P \<noteq> NUL
      then (case jsmn_char js P of
          Inl e \<Rightarrow> Inl e
        | Inr (Stop r P') \<Rightarrow> Inr (r, P')
        | Inr (Go n P') \<Rightarrow> jsmn_loop js (P'\<lparr>jp_pos := jp_pos P' + 1\<rparr>) (count + n))
      else Inr (jsmn_end P count, P))"
  by pat_completeness auto

termination
proof (relation "measure (\<lambda>(js, P, _). length js - jp_pos P)")
  fix js P count x n P'
  assume "jp_pos P < length js \<and> js ! jp_pos P \<noteq> NUL" "jsmn_char js P = Inr x" "x = Go n P'"
  with jsmn_char_pos [of js P n P']
  show "((js, P'\<lparr>jp_pos := jp_pos P' + 1\<rparr>, count + n), js, P, count) \<in> measure (\<lambda>(js, P, _). length js - jp_pos P)"
    by auto
qed simp

declare jsmn_loop.simps [simp del]

definition jsmn_parse :: "string \<Rightarrow> jsmn_parser \<Rightarrow> fault + int \<times> jsmn_parser" where
  "jsmn_parse js P = jsmn_loop js P 0"

section \<open>Loops over the characters\<close>

text \<open>What the proofs about the main loop use of it: it applies a step to the character at the position
  and goes on behind the position that the step leaves. A step never goes back, and one that ends the
  parse gives an error code and leaves the parser as it was.\<close>

abbreviation more_text :: "string \<Rightarrow> jsmn_parser \<Rightarrow> bool" where
  "more_text js P \<equiv> jp_pos P < length js \<and> js ! jp_pos P \<noteq> NUL"

abbreviation next_char :: "jsmn_parser \<Rightarrow> jsmn_parser" where
  "next_char P \<equiv> P\<lparr>jp_pos := jp_pos P + 1\<rparr>"

locale char_loop =
  fixes step :: "string \<Rightarrow> jsmn_parser \<Rightarrow> fault + jsmn_step"
    and loop :: "string \<Rightarrow> jsmn_parser \<Rightarrow> int \<Rightarrow> fault + int \<times> jsmn_parser"
  assumes loop_eq: "loop js P c =
      (if more_text js P
       then (case step js P of
           Inl e \<Rightarrow> Inl e
         | Inr (Stop r P') \<Rightarrow> Inr (r, P')
         | Inr (Go k P') \<Rightarrow> loop js (next_char P') (c + k))
       else Inr (jsmn_end P c, P))"
    and step_ahead: "step js P = Inr (Go k P') \<Longrightarrow> more_text js P \<Longrightarrow> jp_pos P \<le> jp_pos P'"
    and step_stop: "step js P = Inr (Stop r P') \<Longrightarrow> r < 0 \<and> P' = P"
begin

lemma loop_halt: "\<not> more_text js P \<Longrightarrow> loop js P c = Inr (jsmn_end P c, P)"
  by (auto simp: loop_eq [of js P c])

lemma loop_fault: "more_text js P \<Longrightarrow> step js P = Inl e \<Longrightarrow> loop js P c = Inl e"
  by (auto simp: loop_eq [of js P c])

lemma loop_stop: "more_text js P \<Longrightarrow> step js P = Inr (Stop r P') \<Longrightarrow> loop js P c = Inr (r, P')"
  by (auto simp: loop_eq [of js P c])

lemma loop_go: "more_text js P \<Longrightarrow> step js P = Inr (Go k P') \<Longrightarrow> loop js P c = loop js (next_char P') (c + k)"
  by (auto simp: loop_eq [of js P c])

text \<open>Induction over the characters that are left, with a case for everything that a step can do.\<close>

lemma loop_induct [case_names halt fault stop go]:
  assumes halt: "\<And>P c. \<not> more_text js P \<Longrightarrow> R P c"
    and fault: "\<And>P c e. more_text js P \<Longrightarrow> step js P = Inl e \<Longrightarrow> R P c"
    and stop: "\<And>P c r. more_text js P \<Longrightarrow> step js P = Inr (Stop r P) \<Longrightarrow> r < 0 \<Longrightarrow> R P c"
    and go: "\<And>P c k P'. more_text js P \<Longrightarrow> step js P = Inr (Go k P') \<Longrightarrow> R (next_char P') (c + k) \<Longrightarrow> R P c"
  shows "R P c"
proof (induction "length js - jp_pos P" arbitrary: P c rule: less_induct)
  case less
  show ?case
  proof (cases "more_text js P")
    case True
    then consider e where "step js P = Inl e" | r where "step js P = Inr (Stop r P)" "r < 0" | k P' where "step js P = Inr (Go k P')"
      using step_stop by (metis sum.exhaust jsmn_step.exhaust)
    then show ?thesis
    proof cases
      case (3 k P')
      with step_ahead [OF 3 True] True have "length js - jp_pos (next_char P') < length js - jp_pos P" by auto
      from go [OF True 3 less [OF this]] show ?thesis .
    qed (use True fault stop in blast)+
  qed (rule halt)
qed

text \<open>What the steps keep holds where the loop ends, whichever way it does.\<close>

lemma loop_rule:
  assumes "I P c" and "\<forall>P c k P'. I P c \<longrightarrow> more_text js P \<longrightarrow> step js P = Inr (Go k P') \<longrightarrow> I (next_char P') (c + k)"
  shows "case loop js P c of
      Inl e \<Rightarrow> \<exists>Q d. I Q d \<and> more_text js Q \<and> step js Q = Inl e
    | Inr (r, F) \<Rightarrow> \<exists>d. I F d \<and> (r < 0 \<and> more_text js F \<and> step js F = Inr (Stop r F) \<or> r = jsmn_end F d \<and> \<not> more_text js F)"
  using assms(1)
proof (induction P c rule: loop_induct [of js])
  case (go P c k P')
  with assms(2) have "I (next_char P') (c + k)" by blast
  from go.IH [OF this] show ?case by (simp only: loop_go [OF go.hyps])
qed (auto simp: loop_halt loop_fault loop_stop)

end

text \<open>The main loop is such a loop.\<close>

lemma jsmn_char_Stop: "jsmn_char js P = Inr (Stop r P') \<Longrightarrow> P' = P"
  by (auto simp: jsmn_char_def Let_def jsmn_open_def jsmn_close_def jsmn_comma_def count_token_def
      jsmn_parse_string_def jsmn_parse_primitive_def put_token_def
      split: if_splits option.splits sum.splits prod.splits str_result.splits)

lemma jsmn_char_Stop_neg: "jsmn_char js P = Inr (Stop r P') \<Longrightarrow> r < 0"
  by (auto simp: jsmn_char_def Let_def jsmn_open_def jsmn_close_def jsmn_comma_def count_token_def
      JSMN_ERROR_NOMEM_def JSMN_ERROR_INVAL_def split: if_splits option.splits sum.splits prod.splits)

interpretation plain: char_loop jsmn_char jsmn_loop
  by unfold_locales (rule jsmn_loop.simps, auto dest: jsmn_char_pos jsmn_char_Stop jsmn_char_Stop_neg)

section \<open>The tokens stay inside the text and the array\<close>

definition tok_in :: "string \<Rightarrow> nat \<Rightarrow> jsmntok \<Rightarrow> bool" where
  "tok_in js p t \<longleftrightarrow> 0 \<le> tok_start t \<and> tok_start t \<le> int p \<and>
     (tok_end t = - 1 \<or> tok_start t \<le> tok_end t \<and> tok_end t \<le> int (length js))"

definition jsmn_inv :: "string \<Rightarrow> nat \<Rightarrow> jsmn_parser \<Rightarrow> int \<Rightarrow> bool" where
  "jsmn_inv js n P c \<longleftrightarrow> (\<exists>ts. jp_toks P = Some ts \<and> length ts = n \<and> jp_toknext P \<le> n \<and>
     - 1 \<le> jp_toksuper P \<and> jp_toksuper P < int (jp_toknext P) \<and> c = int (jp_toknext P) \<and>
     (\<forall>i < jp_toknext P. tok_in js (jp_pos P) (ts ! i)))"

lemma prim_scan_le: "prim_scan s p = Some q \<Longrightarrow> q \<le> p + length s"
  by (induction s p rule: prim_scan.induct) (auto split: if_splits)

lemma str_scan_le: "str_scan s p = Closed q \<Longrightarrow> q < p + length s"
proof (induction s p rule: str_scan.induct)
  case (2 c cs p)
  note IH = 2(1-3) and closed = 2(4)
  let ?esc = "c = CHR 0x5C \<and> cs \<noteq> []"
  have len: "cs \<noteq> [] \<Longrightarrow> 0 < length cs" by simp
  have c: "c \<noteq> NUL" using closed by (cases "c = NUL") simp_all
  consider "c = CHR 0x22" | "c \<noteq> CHR 0x22" "\<not> ?esc" | "c \<noteq> CHR 0x22" "?esc" "is_escape (hd cs)"
    | "c \<noteq> CHR 0x22" "?esc" "\<not> is_escape (hd cs)" by blast
  then show ?case
  proof cases
    case 1
    with closed c show ?thesis by simp
  next
    case 2
    with IH(3) [OF c] closed c show ?thesis by (simp split: if_splits)
  next
    case 3
    with IH(1) [OF c] closed c len show ?thesis by (simp; linarith)
  next
    case 4
    with closed c have u: "hd cs = CHR ''u''" by (cases "hd cs = CHR ''u''") simp_all
    show ?thesis
    proof (cases "hex_scan 4 (tl cs)")
      case None
      with 4 u closed c show ?thesis by simp
    next
      case (Some rest)
      with 4 u closed c have "str_scan rest (p + 2 + (length (tl cs) - length rest)) = Closed q" by simp
      with IH(2) [OF c 4(1,2,3) u Some] have "q < p + 2 + (length (tl cs) - length rest) + length rest" by simp
      with hex_scan_length [OF Some] len 4(2) show ?thesis by (simp; linarith)
    qed
  qed
qed simp

lemma tok_in_mono: "tok_in js p t \<Longrightarrow> p \<le> q \<Longrightarrow> tok_in js q t"
  by (auto simp: tok_in_def)

lemma put_token_inv:
  assumes "jsmn_inv js n P c" and "put_token ty st en P = (r, P')" and "0 \<le> r"
    and "st \<le> en" and "en \<le> length js" and "st \<le> q" and "jp_pos P \<le> q"
  shows "jsmn_inv js n (P'\<lparr>jp_pos := q\<rparr>) (c + 1)"
proof -
  obtain ts where ts: "jp_toks P = Some ts" "length ts = n" "jp_toknext P \<le> n" "- 1 \<le> jp_toksuper P"
    "jp_toksuper P < int (jp_toknext P)" "c = int (jp_toknext P)" "\<forall>i < jp_toknext P. tok_in js (jp_pos P) (ts ! i)"
    using assms(1) by (auto simp: jsmn_inv_def)
  have lt: "jp_toknext P < n"
    using assms(2,3) ts by (auto simp: put_token_def jsmn_alloc_token_def JSMN_ERROR_NOMEM_def split: if_splits)
  then have P': "P' = P\<lparr>jp_toknext := jp_toknext P + 1,
      jp_toks := Some (ts[jp_toknext P := jsmn_fill_token ty (int st) (int en) ((ts ! jp_toknext P)\<lparr>tok_start := - 1, tok_end := - 1, tok_size := 0\<rparr>)])\<rparr>"
    using assms(2) ts by (auto simp: put_token_def jsmn_alloc_token_def Let_def set_tok_def)
  have "tok_in js q (ts[jp_toknext P := jsmn_fill_token ty (int st) (int en) t] ! i)" if "i < jp_toknext P + 1" for i t
  proof (cases "i = jp_toknext P")
    case True
    with lt ts(2) assms(4-6) show ?thesis by (simp add: jsmn_fill_token_def tok_in_def)
  next
    case False
    with that ts(7) have "tok_in js (jp_pos P) (ts ! i)" by simp
    with False assms(7) show ?thesis by (simp add: tok_in_mono)
  qed
  then show ?thesis
    using lt ts by (simp add: jsmn_inv_def P')
qed

lemma grow_super_inv:
  assumes "jsmn_inv js n P c"
  shows "\<exists>P'. grow_super P = Inr P' \<and> jsmn_inv js n P' c"
proof -
  obtain ts where ts: "jp_toks P = Some ts" "length ts = n" "jp_toknext P \<le> n" "- 1 \<le> jp_toksuper P"
    "jp_toksuper P < int (jp_toknext P)" "c = int (jp_toknext P)" "\<forall>i < jp_toknext P. tok_in js (jp_pos P) (ts ! i)"
    using assms by (auto simp: jsmn_inv_def)
  show ?thesis
  proof (cases "jp_toksuper P = - 1")
    case True
    with assms ts(1) show ?thesis by (simp add: grow_super_def)
  next
    case False
    let ?s = "nat (jp_toksuper P)"
    have "tok_in js (jp_pos P) (ts[?s := (ts ! ?s)\<lparr>tok_size := x\<rparr>] ! i)" if "i < jp_toknext P" for i x
      using that ts by (cases "i = ?s") (auto simp: tok_in_def)
    with False ts show ?thesis
      by (auto simp: grow_super_def super_index_def jsmn_inv_def)
  qed
qed

lemma search_down_Some: "search_down Q ts k = Some i \<Longrightarrow> i < k \<and> Q (ts ! i)"
  by (induction Q ts k rule: search_down.induct) (auto split: if_splits)

lemma search_down_None: "search_down Q ts k = None \<longleftrightarrow> (\<forall>i < k. \<not> Q (ts ! i))"
  by (induction Q ts k rule: search_down.induct) (auto simp: less_Suc_eq)

lemma jsmn_open_inv:
  assumes "jsmn_inv js n P c" and "jp_pos P < length js"
  shows "case jsmn_open d P of Inl e \<Rightarrow> False | Inr (Stop r P') \<Rightarrow> r < 0 | Inr (Go k P') \<Rightarrow> jsmn_inv js n P' (c + k)"
proof -
  obtain ts where ts: "jp_toks P = Some ts" "length ts = n" "jp_toknext P \<le> n" "- 1 \<le> jp_toksuper P"
    "jp_toksuper P < int (jp_toknext P)" "c = int (jp_toknext P)" "\<forall>i < jp_toknext P. tok_in js (jp_pos P) (ts ! i)"
    using assms(1) by (auto simp: jsmn_inv_def)
  show ?thesis
  proof (cases "jp_toknext P < n")
    case False
    with ts show ?thesis by (simp add: jsmn_open_def jsmn_alloc_token_def JSMN_ERROR_NOMEM_def)
  next
    case True
    let ?i = "jp_toknext P"
    let ?ts1 = "ts[?i := (ts ! ?i)\<lparr>tok_start := - 1, tok_end := - 1, tok_size := 0\<rparr>]"
    let ?P1 = "P\<lparr>jp_toknext := ?i + 1, jp_toks := Some ?ts1\<rparr>"
    have al: "jsmn_alloc_token ts P = Some (?i, ?P1)"
      using True ts(2) by (simp add: jsmn_alloc_token_def Let_def)
    obtain ts2 where g: "grow_super ?P1 = Inr (?P1\<lparr>jp_toks := Some ts2\<rparr>)" and ts2: "length ts2 = n" "tok_end (ts2 ! ?i) = - 1"
      "\<forall>j < ?i. tok_start (ts2 ! j) = tok_start (ts ! j) \<and> tok_end (ts2 ! j) = tok_end (ts ! j)"
    proof (cases "jp_toksuper P = - 1")
      case t: True
      show thesis
        by (rule that [of ?ts1]) (use t True ts in \<open>simp_all add: grow_super_def\<close>)
    next
      case f: False
      let ?s = "nat (jp_toksuper P)"
      have s: "?s < ?i" using f ts by auto
      show thesis
        by (rule that [of "?ts1[?s := (?ts1 ! ?s)\<lparr>tok_size := tok_size (?ts1 ! ?s) + 1\<rparr>]"])
          (use f True ts s in \<open>auto simp: grow_super_def super_index_def set_tok_def nth_list_update\<close>)
    qed
    have "tok_in js (jp_pos P) (ts2[?i := (ts2 ! ?i)\<lparr>tok_type := ty, tok_start := int (jp_pos P)\<rparr>] ! j)" if "j < ?i + 1" for j ty
    proof (cases "j = ?i")
      case t: True
      then show ?thesis using ts2(1,2) True by (simp add: tok_in_def)
    next
      case False
      with that have "j < ?i" by simp
      with ts(7) ts2(3) False show ?thesis by (auto simp: tok_in_def)
    qed
    then show ?thesis
      using True ts al g ts2(1) by (simp add: jsmn_open_def set_tok_def jsmn_inv_def)
  qed
qed

lemma jsmn_close_inv:
  assumes "jsmn_inv js n P c" and "jp_pos P < length js"
  shows "case jsmn_close d P of Stop r P' \<Rightarrow> r < 0 | Go k P' \<Rightarrow> jsmn_inv js n P' (c + k)"
proof -
  obtain ts where ts: "jp_toks P = Some ts" "length ts = n" "jp_toknext P \<le> n" "- 1 \<le> jp_toksuper P"
    "jp_toksuper P < int (jp_toknext P)" "c = int (jp_toknext P)" "\<forall>i < jp_toknext P. tok_in js (jp_pos P) (ts ! i)"
    using assms(1) by (auto simp: jsmn_inv_def)
  show ?thesis
  proof (cases "search_down tok_open ts (jp_toknext P)")
    case None
    with ts show ?thesis by (simp add: jsmn_close_def JSMN_ERROR_INVAL_def)
  next
    case (Some i)
    note i = search_down_Some [OF Some]
    have "tok_in js (jp_pos P) (ts[i := (ts ! i)\<lparr>tok_end := int (jp_pos P) + 1\<rparr>] ! j)" if "j < jp_toknext P" for j
      using that ts i assms(2) by (cases "j = i") (auto simp: tok_in_def)
    with Some ts i show ?thesis
      by (auto simp: jsmn_close_def Let_def JSMN_ERROR_INVAL_def jsmn_inv_def dest!: search_down_Some split: option.split)
  qed
qed

lemma jsmn_comma_inv:
  assumes "jsmn_inv js n P c"
  shows "case jsmn_comma P of Inl e \<Rightarrow> jp_toksuper P = - 1 | Inr (Stop r P') \<Rightarrow> False | Inr (Go k P') \<Rightarrow> jsmn_inv js n P' (c + k)"
  using assms
  by (auto simp: jsmn_comma_def jsmn_inv_def super_index_def dest!: search_down_Some split: option.split)

lemma count_token_inv:
  assumes "0 \<le> r \<Longrightarrow> jsmn_inv js n P c"
  shows "case count_token (r, P) of Inl e \<Rightarrow> False | Inr (Stop r P') \<Rightarrow> r < 0 | Inr (Go k P') \<Rightarrow> jsmn_inv js n P' (c - 1 + k)"
proof (cases "r < 0")
  case False
  with assms grow_super_inv [of js n P c] show ?thesis by (auto simp: count_token_def)
qed (simp add: count_token_def)

lemma parse_string_inv:
  assumes "jsmn_inv js n P c" and "jp_pos P < length js" and "jsmn_parse_string js P = (r, P')" and "0 \<le> r"
  shows "jsmn_inv js n P' (c + 1)"
proof -
  obtain q where q: "str_scan (drop (jp_pos P + 1) js) (jp_pos P + 1) = Closed q"
    using assms(3,4)
    by (auto simp: jsmn_parse_string_def Let_def JSMN_ERROR_INVAL_def JSMN_ERROR_PART_def split: str_result.splits)
  obtain r1 P1 where p: "put_token JSMN_STRING (jp_pos P + 1) q P = (r1, P1)" by fastforce
  have r: "0 \<le> r1" "P' = P1\<lparr>jp_pos := q\<rparr>"
    using assms(3,4) q p by (auto simp: jsmn_parse_string_def Let_def split: if_splits)
  have "jp_pos P + 1 \<le> q" "q \<le> length js"
    using str_scan_ge [OF q] str_scan_le [OF q] assms(2) by auto
  then show ?thesis
    unfolding r(2) by (intro put_token_inv [OF assms(1) p r(1)]) auto
qed

lemma parse_primitive_inv:
  assumes "jsmn_inv js n P c" and "jp_pos P < length js" and "jsmn_parse_primitive js P = (r, P')" and "0 \<le> r"
    and "js ! jp_pos P \<noteq> NUL" and "\<not> is_delim (js ! jp_pos P)"
  shows "jsmn_inv js n P' (c + 1)"
proof -
  have d: "drop (jp_pos P) js = js ! jp_pos P # drop (Suc (jp_pos P)) js"
    using assms(2) by (simp add: Cons_nth_drop_Suc)
  obtain q where q: "prim_scan (drop (jp_pos P) js) (jp_pos P) = Some q"
    using assms(3,4) by (auto simp: jsmn_parse_primitive_def Let_def JSMN_ERROR_INVAL_def split: option.splits)
  obtain r1 P1 where p: "put_token JSMN_PRIMITIVE (jp_pos P) q P = (r1, P1)" by fastforce
  have r: "0 \<le> r1" "P' = P1\<lparr>jp_pos := q - 1\<rparr>"
    using assms(3,4) q p by (auto simp: jsmn_parse_primitive_def Let_def split: if_splits)
  have "jp_pos P + 1 \<le> q"
    using q assms(5,6) prim_scan_ge [of "drop (Suc (jp_pos P)) js" "jp_pos P + 1" q] by (simp add: d split: if_splits)
  moreover have "q \<le> length js" using prim_scan_le [OF q] assms(2) by simp
  ultimately show ?thesis
    unfolding r(2) by (intro put_token_inv [OF assms(1) p r(1)]) auto
qed

lemma jsmn_char_inv:
  assumes "jsmn_inv js n P c" and "jp_pos P < length js" and "js ! jp_pos P \<noteq> NUL"
  shows "case jsmn_char js P of
      Inl e \<Rightarrow> js ! jp_pos P = CHR '','' \<and> jp_toksuper P = - 1
    | Inr (Stop r P') \<Rightarrow> r < 0
    | Inr (Go k P') \<Rightarrow> jsmn_inv js n P' (c + k)"
proof (cases rule: jsmn_char_cases [of P js])
  case (opens c')
  with jsmn_open_inv [OF assms(1,2), of c'] show ?thesis by (auto split: sum.splits jsmn_step.splits)
next
  case (closes c')
  with jsmn_close_inv [OF assms(1,2), of c'] show ?thesis by (auto split: jsmn_step.splits)
next
  case str
  obtain r P1 where r: "jsmn_parse_string js P = (r, P1)" by fastforce
  with str count_token_inv [of r js n P1 "c + 1"] parse_string_inv [OF assms(1,2) r] show ?thesis
    by (auto split: sum.splits jsmn_step.splits)
next
  case comma
  with jsmn_comma_inv [OF assms(1)] show ?thesis by (auto split: sum.splits jsmn_step.splits)
next
  case prim
  obtain r P1 where r: "jsmn_parse_primitive js P = (r, P1)" by fastforce
  with prim count_token_inv [of r js n P1 "c + 1"] parse_primitive_inv [OF assms(1,2) r _ assms(3) prim(1)] show ?thesis
    by (auto split: sum.splits jsmn_step.splits)
qed (use assms(1) in \<open>auto simp: jsmn_inv_def\<close>)

lemma jsmn_inv_advance: "jsmn_inv js n P c \<Longrightarrow> jsmn_inv js n (P\<lparr>jp_pos := Suc (jp_pos P)\<rparr>) c"
  by (simp add: jsmn_inv_def) (metis tok_in_mono le_SucI order_refl)

lemma jsmn_end_closed:
  "jp_toks P = Some ts \<Longrightarrow> 0 \<le> jsmn_end P c \<Longrightarrow> jsmn_end P c = c \<and> search_down tok_open ts (jp_toknext P) = None"
  by (auto simp: jsmn_end_def JSMN_ERROR_PART_def split: if_splits)

lemma tok_in_closed:
  "tok_in js p t \<Longrightarrow> \<not> tok_open t \<Longrightarrow> 0 \<le> tok_start t \<and> tok_start t \<le> tok_end t \<and> tok_end t \<le> int (length js)"
  by (auto simp: tok_in_def tok_open_def)

lemma jsmn_inv_closed:
  "jsmn_inv js n P r \<Longrightarrow> search_down tok_open (the (jp_toks P)) (jp_toknext P) = None \<Longrightarrow>
     \<exists>ts. jp_toks P = Some ts \<and> length ts = n \<and> r = int (jp_toknext P) \<and> jp_toknext P \<le> n \<and>
       (\<forall>i < jp_toknext P. 0 \<le> tok_start (ts ! i) \<and> tok_start (ts ! i) \<le> tok_end (ts ! i) \<and>
          tok_end (ts ! i) \<le> int (length js))"
  unfolding jsmn_inv_def search_down_None by (metis option.sel tok_in_closed)

text \<open>Loops whose steps keep the invariant, and go outside of the array at some characters only.\<close>

locale token_loop = char_loop +
  fixes bad :: "char \<Rightarrow> bool"
  assumes step_inv: "jsmn_inv js n P c \<Longrightarrow> more_text js P \<Longrightarrow> step js P = Inr (Go k P') \<Longrightarrow> jsmn_inv js n P' (c + k) \<and> (k = 0 \<or> k = 1)"
    and step_fault: "jsmn_inv js n P c \<Longrightarrow> more_text js P \<Longrightarrow> step js P = Inl e \<Longrightarrow> bad (js ! jp_pos P)"
begin

lemma loop_inv:
  assumes "jsmn_inv js n P c"
  shows "case loop js P c of
      Inl e \<Rightarrow> \<exists>c \<in> set js. bad c
    | Inr (r, F) \<Rightarrow> r < 0 \<or> jsmn_inv js n F r \<and> search_down tok_open (the (jp_toks F)) (jp_toknext F) = None"
proof -
  have "\<forall>P c k P'. jsmn_inv js n P c \<longrightarrow> more_text js P \<longrightarrow> step js P = Inr (Go k P') \<longrightarrow> jsmn_inv js n (next_char P') (c + k)"
    using step_inv jsmn_inv_advance by fastforce
  note rule = loop_rule [OF assms this]
  have halt: "jsmn_end F d < 0 \<or> jsmn_inv js n F (jsmn_end F d) \<and> search_down tok_open (the (jp_toks F)) (jp_toknext F) = None"
    if "jsmn_inv js n F d" for F d
    using that jsmn_end_closed [of F _ d] by (auto simp: jsmn_inv_def)
  show ?thesis
  proof (cases "loop js P c")
    case (Inl e)
    with rule obtain Q d where "jsmn_inv js n Q d" "more_text js Q" "step js Q = Inl e" by auto
    then have "bad (js ! jp_pos Q)" by (rule step_fault)
    with \<open>more_text js Q\<close> Inl show ?thesis by (auto intro: nth_mem)
  next
    case (Inr x)
    with rule halt show ?thesis by (cases x) auto
  qed
qed

lemma loop_safe:
  "case loop js (jsmn_init (Some mem)) 0 of
     Inl e \<Rightarrow> \<exists>c \<in> set js. bad c
   | Inr (r, P) \<Rightarrow> r < 0 \<or>
       (\<exists>ts. jp_toks P = Some ts \<and> length ts = length mem \<and> r = int (jp_toknext P) \<and> jp_toknext P \<le> length mem \<and>
         (\<forall>i < jp_toknext P. 0 \<le> tok_start (ts ! i) \<and> tok_start (ts ! i) \<le> tok_end (ts ! i) \<and>
            tok_end (ts ! i) \<le> int (length js)))"
proof -
  have "jsmn_inv js (length mem) (jsmn_init (Some mem)) 0"
    by (simp add: jsmn_inv_def jsmn_init_def)
  from loop_inv [OF this] show ?thesis
    using jsmn_inv_closed by (fastforce split: sum.splits prod.splits)
qed

end

lemma jsmn_char_count: "jsmn_char js P = Inr (Go k P') \<Longrightarrow> k = 0 \<or> k = 1"
  by (auto simp: jsmn_char_def Let_def jsmn_open_def jsmn_close_def jsmn_comma_def count_token_def
      split: if_splits option.splits sum.splits prod.splits)

interpretation plain_tokens: token_loop jsmn_char jsmn_loop "\<lambda>c. c = CHR '',''"
proof
  fix js n P c k P'
  assume "jsmn_inv js n P c" "more_text js P" "jsmn_char js P = Inr (Go k P')"
  with jsmn_char_inv [of js n P c] jsmn_char_count show "jsmn_inv js n P' (c + k) \<and> (k = 0 \<or> k = 1)" by auto
next
  fix js n P c e
  assume "jsmn_inv js n P c" "more_text js P" "jsmn_char js P = Inl e"
  with jsmn_char_inv [of js n P c] show "js ! jp_pos P = CHR '',''" by auto
qed


definition blank_tokens :: "nat \<Rightarrow> jsmntok list" where
  "blank_tokens n = replicate n \<lparr>tok_type = JSMN_PRIMITIVE, tok_start = 0, tok_end = 0, tok_size = 0\<rparr>"

lemma jsmn_example:
  "\<exists>P. jsmn_parse ''{k: [1, 2]}'' (jsmn_init (Some (blank_tokens 5))) = Inr (5, P)"
proof -
  have "map_sum id fst (jsmn_parse ''{k: [1, 2]}'' (jsmn_init (Some (blank_tokens 5)))) = Inr 5" by code_simp
  then show ?thesis by (cases "jsmn_parse ''{k: [1, 2]}'' (jsmn_init (Some (blank_tokens 5)))") auto
qed


section \<open>The counting pass\<close>

lemma parse_string_Q:
  assumes "jsmn_parse_string js P = (r, P')" and "0 \<le> r" and "jp_toks Q = None" and "jp_pos Q = jp_pos P"
  shows "jsmn_parse_string js Q = (0, Q\<lparr>jp_pos := jp_pos P'\<rparr>)"
  using assms
  by (auto simp: jsmn_parse_string_def Let_def put_token_def JSMN_ERROR_INVAL_def JSMN_ERROR_PART_def
      split: str_result.splits prod.splits if_splits)

lemma parse_primitive_Q:
  assumes "jsmn_parse_primitive js P = (r, P')" and "0 \<le> r" and "jp_toks Q = None" and "jp_pos Q = jp_pos P"
  shows "jsmn_parse_primitive js Q = (0, Q\<lparr>jp_pos := jp_pos P'\<rparr>)"
  using assms
  by (auto simp: jsmn_parse_primitive_def Let_def put_token_def JSMN_ERROR_INVAL_def
      split: option.splits prod.splits if_splits)

lemma put_token_codes:
  "put_token ty st en P = (r, P') \<Longrightarrow> r = 0 \<or> r = JSMN_ERROR_NOMEM \<and> (\<exists>ts. jp_toks P = Some ts \<and> length ts \<le> jp_toknext P)"
  by (auto simp: put_token_def jsmn_alloc_token_def Let_def split: option.splits if_splits)

text \<open>What a pass without tokens does at the characters where the pass with tokens goes on or runs
  out of them.\<close>

definition counted :: "string \<Rightarrow> nat \<Rightarrow> jsmn_parser \<Rightarrow> jsmn_parser \<Rightarrow> int \<Rightarrow> fault + jsmn_step \<Rightarrow> bool" where
  "counted js n P Q c x = (case x of
      Inl e \<Rightarrow> True
    | Inr (Go k P') \<Rightarrow> (\<exists>Q'. jsmn_char js Q = Inr (Go k Q') \<and> jp_toks Q' = None \<and> jp_pos Q' = jp_pos P')
    | Inr (Stop r P') \<Rightarrow> r = JSMN_ERROR_INVAL \<or> r = JSMN_ERROR_PART \<or>
        r = JSMN_ERROR_NOMEM \<and> c = int n \<and> (\<exists>Q'. jsmn_char js Q = Inr (Go 1 Q') \<and> jp_toks Q' = None))"

lemma count_token_counted:
  assumes "jsmn_inv js n P c" and "p P = (r, P1)" and "jsmn_char js P = count_token (r, P1)" and "jsmn_char js Q = count_token (p Q)"
    and "jp_toks Q = None"
    and go: "0 \<le> r \<Longrightarrow> p Q = (0, Q\<lparr>jp_pos := jp_pos P1\<rparr>)"
    and stop: "r < 0 \<Longrightarrow> r = JSMN_ERROR_INVAL \<or> r = JSMN_ERROR_PART \<or>
      r = JSMN_ERROR_NOMEM \<and> (\<exists>ts. jp_toks P = Some ts \<and> length ts \<le> jp_toknext P) \<and> (\<exists>q. p Q = (0, Q\<lparr>jp_pos := q\<rparr>))"
  shows "counted js n P Q c (jsmn_char js P)"
proof (cases "r < 0")
  case True
  then have "counted js n P Q c (Inr (Stop r P1))"
    using stop [OF True] assms(1,4,5)
    by (auto simp: counted_def jsmn_inv_def count_token_def grow_super_def JSMN_ERROR_NOMEM_def JSMN_ERROR_INVAL_def JSMN_ERROR_PART_def)
  with True assms(3) show ?thesis by (simp add: count_token_def)
next
  case False
  with go have "jsmn_char js Q = Inr (Go 1 (Q\<lparr>jp_pos := jp_pos P1\<rparr>))"
    using assms(4,5) by (simp add: count_token_def grow_super_def)
  with False assms(3,5) show ?thesis
    by (auto simp: counted_def count_token_def dest!: grow_super_Inr split: sum.splits)
qed

lemma parse_string_stop:
  "jsmn_parse_string js P = (r, P') \<Longrightarrow> r < 0 \<Longrightarrow> jp_toks Q = None \<Longrightarrow> jp_pos Q = jp_pos P \<Longrightarrow>
     r = JSMN_ERROR_INVAL \<or> r = JSMN_ERROR_PART \<or>
     r = JSMN_ERROR_NOMEM \<and> (\<exists>ts. jp_toks P = Some ts \<and> length ts \<le> jp_toknext P) \<and> (\<exists>q. jsmn_parse_string js Q = (0, Q\<lparr>jp_pos := q\<rparr>))"
  by (cases "str_scan (drop (jp_pos P + 1) js) (jp_pos P + 1)")
    (auto simp: jsmn_parse_string_def Let_def put_token_def jsmn_alloc_token_def split: option.splits prod.splits if_splits)

lemma parse_primitive_stop:
  "jsmn_parse_primitive js P = (r, P') \<Longrightarrow> r < 0 \<Longrightarrow> jp_toks Q = None \<Longrightarrow> jp_pos Q = jp_pos P \<Longrightarrow>
     r = JSMN_ERROR_INVAL \<or> r = JSMN_ERROR_PART \<or>
     r = JSMN_ERROR_NOMEM \<and> (\<exists>ts. jp_toks P = Some ts \<and> length ts \<le> jp_toknext P) \<and> (\<exists>q. jsmn_parse_primitive js Q = (0, Q\<lparr>jp_pos := q\<rparr>))"
  by (cases "prim_scan (drop (jp_pos P) js) (jp_pos P)")
    (auto simp: jsmn_parse_primitive_def Let_def put_token_def jsmn_alloc_token_def split: option.splits prod.splits if_splits)

lemma jsmn_char_counted:
  assumes "jsmn_inv js n P c" and Q: "jp_toks Q = None" "jp_pos Q = jp_pos P"
  shows "counted js n P Q c (jsmn_char js P)"
proof (cases rule: jsmn_char_cases [of P js])
  case (opens c')
  have "jsmn_char js Q = Inr (Go 1 Q)" using Q by (simp add: opens jsmn_open_def)
  with Q assms(1) show ?thesis
    unfolding opens [OF refl]
    by (auto simp: counted_def jsmn_open_def jsmn_inv_def jsmn_alloc_token_def Let_def dest!: grow_super_Inr
        split: option.splits sum.splits if_splits)
next
  case (closes c')
  have "jsmn_char js Q = Inr (Go 0 Q)" using Q by (simp add: closes jsmn_close_def)
  with Q show ?thesis
    unfolding closes [OF refl] by (auto simp: counted_def jsmn_close_def Let_def split: option.split)
next
  case str
  obtain r P1 where r: "jsmn_parse_string js P = (r, P1)" by fastforce
  show ?thesis
    by (rule count_token_counted [where p = "jsmn_parse_string js", OF assms(1) r])
      (use str r Q parse_string_Q [OF r _ Q] parse_string_stop [OF r _ Q] in simp_all)
next
  case comma
  have "jsmn_char js Q = Inr (Go 0 Q)" using Q by (simp add: comma jsmn_comma_def)
  with Q show ?thesis
    unfolding comma(2) [OF refl] by (auto simp: counted_def jsmn_comma_def split: option.split)
next
  case prim
  obtain r P1 where r: "jsmn_parse_primitive js P = (r, P1)" by fastforce
  show ?thesis
    by (rule count_token_counted [where p = "jsmn_parse_primitive js", OF assms(1) r])
      (use prim r Q parse_primitive_Q [OF r _ Q] parse_primitive_stop [OF r _ Q] in simp_all)
qed (use Q in \<open>auto simp: counted_def\<close>)

lemma jsmn_char_null_form:
  "jp_toks Q = None \<Longrightarrow> (\<exists>k Q'. jsmn_char js Q = Inr (Go k Q') \<and> 0 \<le> k \<and> jp_toks Q' = None) \<or>
    jsmn_char js Q = count_token (jsmn_parse_string js Q) \<or> jsmn_char js Q = count_token (jsmn_parse_primitive js Q)"
  by (simp add: jsmn_char_def Let_def jsmn_open_def jsmn_close_def jsmn_comma_def)

lemma count_token_null:
  "jp_toks Q = None \<Longrightarrow> count_token (jsmn_parse_string js Q) = Inr x \<Longrightarrow>
     (\<exists>q. x = Go 1 (Q\<lparr>jp_pos := q\<rparr>)) \<or> (\<exists>r Q'. x = Stop r Q' \<and> r < 0)"
  "jp_toks Q = None \<Longrightarrow> count_token (jsmn_parse_primitive js Q) = Inr x \<Longrightarrow>
     (\<exists>q. x = Go 1 (Q\<lparr>jp_pos := q\<rparr>)) \<or> (\<exists>r Q'. x = Stop r Q' \<and> r < 0)"
  by (auto simp: count_token_def grow_super_def jsmn_parse_string_def jsmn_parse_primitive_def put_token_def Let_def
      JSMN_ERROR_INVAL_def JSMN_ERROR_PART_def split: str_result.splits option.splits)

lemma jsmn_char_null:
  "jp_toks Q = None \<Longrightarrow> jsmn_char js Q = Inr (Go k Q') \<Longrightarrow> 0 \<le> k \<and> jp_toks Q' = None"
  using jsmn_char_null_form [of Q js] count_token_null [of Q js "Go k Q'"] by auto

lemma jsmn_char_null_stop: "jp_toks Q = None \<Longrightarrow> jsmn_char js Q = Inr (Stop r Q') \<Longrightarrow> r < 0"
  using jsmn_char_null_form [of Q js] count_token_null [of Q js "Stop r Q'"] by auto

lemma jsmn_loop_null_ge:
  assumes "jp_toks Q = None" and "jsmn_loop js Q c = Inr (r, Q')" and "0 \<le> r"
  shows "c \<le> r"
proof -
  let ?I = "\<lambda>P d. jp_toks P = None \<and> c \<le> d"
  have step: "\<forall>P d k P'. ?I P d \<longrightarrow> more_text js P \<longrightarrow> jsmn_char js P = Inr (Go k P') \<longrightarrow> ?I (next_char P') (d + k)"
    by (auto dest: jsmn_char_null)
  have "?I Q c" using assms(1) by simp
  from plain.loop_rule [OF this step] assms(2,3) show ?thesis by (auto simp: jsmn_end_def)
qed

lemma jsmn_loop_counted:
  "jsmn_inv js n P c \<Longrightarrow> jp_toks Q = None \<Longrightarrow> jp_pos Q = jp_pos P \<Longrightarrow> jsmn_loop js P c = Inr (r, P') \<Longrightarrow>
     (0 \<le> r \<longrightarrow> (\<exists>Q'. jsmn_loop js Q c = Inr (r, Q'))) \<and>
     (r = JSMN_ERROR_NOMEM \<longrightarrow> (\<forall>r' Q'. jsmn_loop js Q c = Inr (r', Q') \<longrightarrow> 0 \<le> r' \<longrightarrow> int n < r'))"
proof (induction P c arbitrary: Q rule: plain.loop_induct [of js])
  case (halt P c)
  then show ?case
    by (auto simp: plain.loop_halt jsmn_end_def JSMN_ERROR_NOMEM_def JSMN_ERROR_PART_def split: option.splits if_splits)
next
  case (fault P c e)
  then show ?case by (simp add: plain.loop_fault)
next
  case (stop P c e)
  have "int n < r'" if "r = JSMN_ERROR_NOMEM" and l: "jsmn_loop js Q c = Inr (r', Q')" "0 \<le> r'" for r' Q'
  proof -
    have "e = JSMN_ERROR_NOMEM" using that(1) stop by (simp add: plain.loop_stop)
    with jsmn_char_counted [OF stop.prems(1-3)] stop.hyps(2) obtain Q1
      where q: "c = int n" "jsmn_char js Q = Inr (Go 1 Q1)" "jp_toks Q1 = None"
      by (auto simp: counted_def JSMN_ERROR_NOMEM_def JSMN_ERROR_INVAL_def JSMN_ERROR_PART_def)
    with l stop.hyps(1) stop.prems(3) have "jsmn_loop js (next_char Q1) (c + 1) = Inr (r', Q')"
      by (simp add: plain.loop_go [OF _ q(2)])
    from jsmn_loop_null_ge [OF _ this l(2)] q show ?thesis by simp
  qed
  with stop show ?case by (simp add: plain.loop_stop)
next
  case (go P c k P1)
  with jsmn_char_counted [OF go.prems(1-3)] obtain Q1 where q: "jsmn_char js Q = Inr (Go k Q1)" "jp_toks Q1 = None" "jp_pos Q1 = jp_pos P1"
    by (auto simp: counted_def)
  have "jsmn_inv js n (next_char P1) (c + k)" using jsmn_char_inv [OF go.prems(1)] go.hyps by (simp add: jsmn_inv_advance)
  from go.IH [OF this, of "next_char Q1"] q go show ?case
    by (simp add: plain.loop_go [OF _ go.hyps(2)] plain.loop_go [OF _ q(1)])
qed

text \<open>
  C11. A pass without tokens gives the number of tokens that a text needs. If a pass with tokens
  returns a count, the pass without tokens returns the same count; and with an array of at least that
  many tokens a pass never runs out of them.
\<close>

theorem jsmn_counting_pass:
  "(\<forall>r P. jsmn_parse js (jsmn_init (Some mem)) = Inr (r, P) \<longrightarrow> 0 \<le> r \<longrightarrow>
      (\<exists>Q. jsmn_parse js (jsmn_init None) = Inr (r, Q))) \<and>
   (\<forall>r Q P. jsmn_parse js (jsmn_init None) = Inr (r, Q) \<longrightarrow> 0 \<le> r \<longrightarrow> r \<le> int (length mem) \<longrightarrow>
      jsmn_parse js (jsmn_init (Some mem)) \<noteq> Inr (JSMN_ERROR_NOMEM, P))"
proof -
  have i: "jsmn_inv js (length mem) (jsmn_init (Some mem)) 0"
    by (simp add: jsmn_inv_def jsmn_init_def)
  have "jp_toks (jsmn_init None) = None" "jp_pos (jsmn_init None) = jp_pos (jsmn_init (Some mem))"
    by (simp_all add: jsmn_init_def)
  from jsmn_loop_counted [OF i this] show ?thesis
    unfolding jsmn_parse_def by fastforce
qed

theorem jsmn_counting_pass_witness:
  "\<exists>Q. jsmn_parse ''{k: [1, 2]}'' (jsmn_init None) = Inr (5, Q)"
proof -
  obtain P where "jsmn_parse ''{k: [1, 2]}'' (jsmn_init (Some (blank_tokens 5))) = Inr (5, P)"
    using jsmn_example ..
  with jsmn_counting_pass [of "''{k: [1, 2]}''" "blank_tokens 5"] show ?thesis by auto
qed

end
