(* ===== verification/Json_Tree.thy ===== *)
theory Json_Tree
  imports Jsmn
begin

text \<open>
  The tokenizer on JSON texts. \<open>json_text\<close> is the compact text of a JSON value and \<open>json_toks\<close> the tokens
  of that text, in the order of their first characters; the size of a token is the number of its
  direct children, where the child of a key is its value. The tokenizer computes exactly these
  tokens, for values of any depth.
\<close>

section \<open>Values, texts and tokens\<close>

text \<open>The characters of strings and primitives are kept as they are written.\<close>

datatype json = J_prim string | J_str string | J_arr "json list" | J_obj "(string \<times> json) list"

fun commas :: "string list \<Rightarrow> string" where
  "commas [] = []"
| "commas [x] = x"
| "commas (x # xs) = x @ CHR '','' # commas xs"

definition quoted :: "string \<Rightarrow> string" where
  "quoted s = CHR 0x22 # s @ [CHR 0x22]"

fun json_text :: "json \<Rightarrow> string" where
  "json_text (J_prim s) = s"
| "json_text (J_str s) = quoted s"
| "json_text (J_arr vs) = CHR ''['' # commas (map json_text vs) @ '']''"
| "json_text (J_obj kvs) = CHR ''{'' # commas (map (\<lambda>(k, v). quoted k @ CHR '':'' # json_text v) kvs) @ ''}''"

definition mk_tok :: "jsmntype \<Rightarrow> nat \<Rightarrow> nat \<Rightarrow> int \<Rightarrow> jsmntok" where
  "mk_tok ty st n sz = \<lparr>tok_type = ty, tok_start = int st, tok_end = int (st + n), tok_size = sz\<rparr>"

fun json_toks :: "nat \<Rightarrow> json \<Rightarrow> jsmntok list"
and items_toks :: "nat \<Rightarrow> json list \<Rightarrow> jsmntok list"
and pairs_toks :: "nat \<Rightarrow> (string \<times> json) list \<Rightarrow> jsmntok list" where
  "json_toks p (J_prim s) = [mk_tok JSMN_PRIMITIVE p (length s) 0]"
| "json_toks p (J_str s) = [mk_tok JSMN_STRING (p + 1) (length s) 0]"
| "json_toks p (J_arr vs) = mk_tok JSMN_ARRAY p (length (json_text (J_arr vs))) (int (length vs)) # items_toks (p + 1) vs"
| "json_toks p (J_obj kvs) = mk_tok JSMN_OBJECT p (length (json_text (J_obj kvs))) (int (length kvs)) # pairs_toks (p + 1) kvs"
| "items_toks p [] = []"
| "items_toks p (v # vs) = json_toks p v @ items_toks (p + length (json_text v) + 1) vs"
| "pairs_toks p [] = []"
| "pairs_toks p ((k, v) # kvs) = mk_tok JSMN_STRING (p + 1) (length k) 1 # json_toks (p + length k + 3) v @
     pairs_toks (p + length k + length (json_text v) + 4) kvs"

text \<open>A string is what stands between two quotes that the scanner matches; a primitive is a word of
  printable characters.\<close>

definition str_ok :: "string \<Rightarrow> bool" where
  "str_ok s \<longleftrightarrow> str_scan (s @ [CHR 0x22]) 0 = Closed (length s)"

definition prim_ok :: "string \<Rightarrow> bool" where
  "prim_ok s \<longleftrightarrow> s \<noteq> [] \<and> hd s \<notin> {CHR ''{'', CHR ''['', CHR 0x22} \<and> list_all (\<lambda>c. c \<noteq> NUL \<and> \<not> is_delim c \<and> \<not> not_printable c) s"

fun json_ok :: "json \<Rightarrow> bool" where
  "json_ok (J_prim s) = prim_ok s"
| "json_ok (J_str s) = str_ok s"
| "json_ok (J_arr vs) = list_all json_ok vs"
| "json_ok (J_obj kvs) = list_all (\<lambda>(k, v). str_ok k \<and> json_ok v) kvs"

fun tok_count :: "json \<Rightarrow> nat" where
  "tok_count (J_prim s) = 1"
| "tok_count (J_str s) = 1"
| "tok_count (J_arr vs) = Suc (sum_list (map tok_count vs))"
| "tok_count (J_obj kvs) = Suc (sum_list (map (\<lambda>(k, v). Suc (tok_count v)) kvs))"

lemma length_json_toks:
  "length (json_toks p v) = tok_count v"
  "length (items_toks p vs) = sum_list (map tok_count vs)"
  "length (pairs_toks p kvs) = sum_list (map (\<lambda>(k, v). Suc (tok_count v)) kvs)"
  by (induction p v and p vs and p kvs rule: json_toks_items_toks_pairs_toks.induct) simp_all

section \<open>Scanning strings and primitives\<close>

lemma hex_scan_append:
  "hex_scan n (u @ [q]) = Some r \<Longrightarrow> r \<noteq> [] \<Longrightarrow> \<exists>u'. r = u' @ [q] \<and> hex_scan n (u @ q # t) = Some (u' @ q # t)"
proof (induction n arbitrary: u)
  case (Suc n)
  show ?case
  proof (cases u)
    case Nil
    with Suc.prems show ?thesis by (cases n) (auto split: if_splits)
  next
    case (Cons c u')
    with Suc show ?thesis by (auto split: if_splits)
  qed
qed simp

lemma str_scan_pos: "str_scan s (p + k) = (case str_scan s p of Closed q \<Rightarrow> Closed (q + k) | r \<Rightarrow> r)"
proof (induction s p rule: str_scan.induct)
  case (2 c cs p)
  show ?case
  proof (cases "c = NUL \<or> c = CHR 0x22 \<or> \<not> (c = CHR 0x5C \<and> cs \<noteq> [])")
    case True
    with 2(3) show ?thesis by auto
  next
    case False
    then show ?thesis using 2(1,2) by (auto split: option.split simp: algebra_simps)
  qed
qed simp

lemma str_scan_append:
  "str_scan (s @ [CHR 0x22]) p = Closed (p + length s) \<Longrightarrow> str_scan (s @ CHR 0x22 # t) p = Closed (p + length s)"
proof (induction s arbitrary: p rule: length_induct)
  case (1 s)
  note IH = 1(1) and closed = 1(2)
  show ?case
  proof (cases s)
    case Nil
    then show ?thesis by (simp add: NUL_def)
  next
    case (Cons c cs)
    let ?esc = "c = CHR 0x5C"
    have c: "c \<noteq> NUL" "c \<noteq> CHR 0x22" using closed Cons by (auto split: if_splits)
    show ?thesis
    proof (cases ?esc)
      case False
      with IH closed Cons c show ?thesis by auto
    next
      case True
      have "cs \<noteq> []"
        using closed Cons True by (auto simp: NUL_def is_escape_def)
      then obtain d ds where cs: "cs = d # ds" by (cases cs) auto
      show ?thesis
      proof (cases "is_escape d")
        case True
        with IH [rule_format, of ds "p + 2"] closed Cons \<open>?esc\<close> cs c show ?thesis by auto
      next
        case False
        then have u: "d = CHR ''u''" using closed Cons \<open>?esc\<close> cs c by (auto split: if_splits)
        obtain r where r: "hex_scan 4 (ds @ [CHR 0x22]) = Some r"
          using closed Cons \<open>?esc\<close> cs c False u by (auto split: option.splits)
        have sc: "str_scan r (p + 2 + (length ds + 1 - length r)) = Closed (p + length s)"
          using closed Cons \<open>?esc\<close> cs c False u r by auto
        then have "r \<noteq> []" by (cases r) auto
        from hex_scan_append [OF r this, of t] obtain u' where u': "r = u' @ [CHR 0x22]" "hex_scan 4 (ds @ CHR 0x22 # t) = Some (u' @ CHR 0x22 # t)"
          by blast
        have len: "length u' \<le> length ds" using hex_scan_length [OF r] u'(1) by simp
        then have "p + 2 + (length ds + 1 - length r) + length u' = p + length s" using u'(1) Cons cs by simp
        with IH [rule_format, of u' "p + 2 + (length ds + 1 - length r)"] sc u'(1) len Cons cs
        have "str_scan (u' @ CHR 0x22 # t) (p + 2 + (length ds + 1 - length r)) = Closed (p + length s)" by simp
        with Cons \<open>?esc\<close> cs c False u u' len show ?thesis by simp
      qed
    qed
  qed
qed

lemma str_scan_ok: "str_ok s \<Longrightarrow> str_scan (s @ CHR 0x22 # t) p = Closed (p + length s)"
  using str_scan_append [of s p t] str_scan_pos [of "s @ [CHR 0x22]" 0 p] by (simp add: str_ok_def add.commute)

definition stops :: "string \<Rightarrow> bool" where
  "stops rest \<longleftrightarrow> rest = [] \<or> hd rest = NUL \<or> is_delim (hd rest)"

lemma prim_scan_ok: "list_all (\<lambda>c. c \<noteq> NUL \<and> \<not> is_delim c \<and> \<not> not_printable c) s \<Longrightarrow> stops rest \<Longrightarrow> prim_scan (s @ rest) p = Some (p + length s)"
proof (induction s arbitrary: p)
  case Nil
  then show ?case by (cases rest) (auto simp: stops_def)
qed simp

section \<open>Steps of the tokenizer\<close>

text \<open>The state at position \<open>p\<close>, with the tokens \<open>ds\<close> filled and the tokens \<open>free\<close> left.\<close>

definition pst :: "nat \<Rightarrow> jsmntok list \<Rightarrow> int \<Rightarrow> jsmntok list \<Rightarrow> jsmn_parser" where
  "pst p ds sp free = \<lparr>jp_pos = p, jp_toknext = length ds, jp_toksuper = sp, jp_toks = Some (ds @ free)\<rparr>"

definition grow_at :: "int \<Rightarrow> jsmntok list \<Rightarrow> jsmntok list" where
  "grow_at sp ds = (if sp = - 1 then ds else ds[nat sp := (ds ! nat sp)\<lparr>tok_size := tok_size (ds ! nat sp) + 1\<rparr>])"

definition super_ok :: "int \<Rightarrow> jsmntok list \<Rightarrow> bool" where
  "super_ok sp ds \<longleftrightarrow> - 1 \<le> sp \<and> sp < int (length ds)"

text \<open>The innermost object or array that is not yet closed.\<close>

definition innermost :: "jsmntok list \<Rightarrow> int" where
  "innermost ds = (case search_down tok_open ds (length ds) of None \<Rightarrow> - 1 | Some i \<Rightarrow> int i)"

lemma length_grow_at [simp]: "length (grow_at sp ds) = length ds"
  by (simp add: grow_at_def)

lemma pst_simps [simp]:
  "jp_pos (pst p ds sp free) = p" "jp_toknext (pst p ds sp free) = length ds" "jp_toksuper (pst p ds sp free) = sp"
  "jp_toks (pst p ds sp free) = Some (ds @ free)" "(pst p ds sp free)\<lparr>jp_pos := q\<rparr> = pst q ds sp free"
  "(pst p ds sp free)\<lparr>jp_toksuper := sp'\<rparr> = pst p ds sp' free"
  by (simp_all add: pst_def)

lemma grow_super_at:
  "super_ok sp ds \<Longrightarrow> grow_super (pst p (ds @ ts) sp free) = Inr (pst p (grow_at sp ds @ ts) sp free)"
  by (auto simp: grow_super_def super_ok_def super_index_def grow_at_def pst_def set_tok_def nth_append list_update_append)

lemma put_token_at:
  "put_token ty st (st + n) (pst p ds sp (f # free)) = (0, pst p (ds @ [mk_tok ty st n 0]) sp free)"
  by (cases f) (simp add: put_token_def jsmn_alloc_token_def pst_def set_tok_def jsmn_fill_token_def mk_tok_def Let_def)

lemma char_str:
  assumes "js = pre @ quoted s @ rest" and "str_ok s" and "super_ok sp ds"
  shows "jsmn_char js (pst (length pre) ds sp (f # free)) =
    Inr (Go 1 (pst (length pre + 1 + length s) (grow_at sp ds @ [mk_tok JSMN_STRING (length pre + 1) (length s) 0]) sp free))"
proof -
  have js: "js = pre @ CHR 0x22 # s @ CHR 0x22 # rest" using assms(1) by (simp add: quoted_def)
  have "jsmn_parse_string js (pst (length pre) ds sp (f # free)) =
      (0, pst (length pre + 1 + length s) (ds @ [mk_tok JSMN_STRING (length pre + 1) (length s) 0]) sp free)"
    using assms(2) js put_token_at [of JSMN_STRING "length pre + 1" "length s"]
    by (simp add: jsmn_parse_string_def Let_def str_scan_ok)
  then show ?thesis using js assms(3) by (simp add: jsmn_char_def Let_def count_token_def grow_super_at)
qed

lemma char_prim:
  assumes "js = pre @ s @ rest" and "prim_ok s" and "stops rest" and "super_ok sp ds"
  shows "jsmn_char js (pst (length pre) ds sp (f # free)) =
    Inr (Go 1 (pst (length pre + length s - 1) (grow_at sp ds @ [mk_tok JSMN_PRIMITIVE (length pre) (length s) 0]) sp free))"
proof -
  obtain c cs where s: "s = c # cs" using assms(2) by (cases s) (auto simp: prim_ok_def)
  have c: "c \<noteq> NUL" "\<not> is_delim c" "c \<notin> {CHR ''{'', CHR ''['', CHR 0x22}" using assms(2) s by (auto simp: prim_ok_def)
  have js: "js = pre @ c # cs @ rest" using assms(1) s by simp
  have "prim_scan (s @ rest) (length pre) = Some (length pre + length s)"
    using assms(2,3) by (intro prim_scan_ok) (simp_all add: prim_ok_def)
  then have "jsmn_parse_primitive js (pst (length pre) ds sp (f # free)) =
      (0, pst (length pre + length s - 1) (ds @ [mk_tok JSMN_PRIMITIVE (length pre) (length s) 0]) sp free)"
    using assms(1) put_token_at [of JSMN_PRIMITIVE "length pre" "length s"]
    by (simp add: jsmn_parse_primitive_def Let_def)
  then show ?thesis using js c assms(4) by (simp add: jsmn_char_def Let_def count_token_def grow_super_at is_delim_def)
qed

definition open_tok :: "jsmntype \<Rightarrow> nat \<Rightarrow> int \<Rightarrow> jsmntok" where
  "open_tok ty p n = \<lparr>tok_type = ty, tok_start = int p, tok_end = - 1, tok_size = n\<rparr>"

lemma char_open:
  assumes "js = pre @ c # rest" and "c = (if ty = JSMN_OBJECT then CHR ''{'' else CHR ''['')" and "ty = JSMN_OBJECT \<or> ty = JSMN_ARRAY"
    and "super_ok sp ds"
  shows "jsmn_char js (pst (length pre) ds sp (f # free)) =
    Inr (Go 1 (pst (length pre) (grow_at sp ds @ [open_tok ty (length pre) 0]) (int (length ds)) free))"
proof -
  let ?P = "pst (length pre) ds sp (f # free)" and ?f = "f\<lparr>tok_start := - 1, tok_end := - 1, tok_size := 0\<rparr>"
  have al: "jsmn_alloc_token (ds @ f # free) ?P = Some (length ds, pst (length pre) (ds @ [?f]) sp free)"
    by (simp add: jsmn_alloc_token_def Let_def pst_def)
  have "jsmn_char js ?P = jsmn_open c ?P" using assms(1-3) by (auto simp: jsmn_char_def Let_def)
  also have "\<dots> = Inr (Go 1 (pst (length pre) (grow_at sp ds @ [open_tok ty (length pre) 0]) (int (length ds)) free))"
  proof -
    have "set_tok (length ds) (\<lambda>t. t\<lparr>tok_type := ty, tok_start := int (length pre)\<rparr>) (pst (length pre) (grow_at sp ds @ [?f]) sp free) =
        pst (length pre) (grow_at sp ds @ [open_tok ty (length pre) 0]) sp free"
      by (cases f) (simp add: pst_def set_tok_def open_tok_def nth_append list_update_append)
    moreover have "(if c = CHR ''{'' then JSMN_OBJECT else JSMN_ARRAY) = ty" using assms(2,3) by auto
    ultimately show ?thesis by (simp add: jsmn_open_def al grow_super_at [OF assms(4)] del: append_assoc)
  qed
  finally show ?thesis .
qed

text \<open>A token list whose innermost open container is at the end of \<open>es\<close>: what follows is closed.\<close>

lemma search_down_closed:
  "(\<And>t. t \<in> set cl \<Longrightarrow> \<not> Q t) \<Longrightarrow> search_down Q (es @ cl @ free) (length es + length cl) = search_down Q (es @ cl @ free) (length es)"
proof (induction cl arbitrary: free rule: rev_induct)
  case (snoc t cl)
  from snoc.IH [of "t # free"] snoc.prems show ?case by (simp add: nth_append)
qed simp

lemma search_down_take: "k \<le> length es \<Longrightarrow> search_down Q (es @ free) k = search_down Q es k"
  by (induction k) (simp_all add: nth_append)

lemma search_down_last:
  assumes "Q x" and "\<And>t. t \<in> set cl \<Longrightarrow> \<not> Q t"
  shows "search_down Q (es @ x # cl @ free) (length es + Suc (length cl)) = Some (length es)"
proof -
  have "search_down Q ((es @ [x]) @ cl @ free) (length (es @ [x]) + length cl) = search_down Q ((es @ [x]) @ cl @ free) (length (es @ [x]))"
    by (rule search_down_closed) (use assms in auto)
  with assms(1) show ?thesis by (simp add: nth_append)
qed

lemma char_comma:
  assumes "js = pre @ CHR '','' # rest" and "is_container c" "tok_open c" and "list_all (\<lambda>t. \<not> tok_open t) cl"
    and "sp = int (length es) \<or> 0 \<le> sp \<and> nat sp < length (es @ c # cl) \<and> \<not> is_container ((es @ c # cl) ! nat sp)"
  shows "jsmn_char js (pst (length pre) (es @ c # cl) sp free) = Inr (Go 0 (pst (length pre) (es @ c # cl) (int (length es)) free))"
proof -
  have "search_down (\<lambda>t. is_container t \<and> tok_open t) (es @ c # cl @ free) (length es + Suc (length cl)) = Some (length es)"
    by (rule search_down_last) (use assms(2-4) in \<open>auto simp: list_all_iff\<close>)
  moreover have sp: "nat sp < length (es @ c # cl)" using assms(5) by auto
  moreover have "((es @ c # cl) @ free) ! nat sp = (es @ c # cl) ! nat sp" using sp by (simp only: nth_append if_True)
  moreover have "super_index (pst (length pre) (es @ c # cl) sp free) ((es @ c # cl) @ free) = Some (nat sp)"
    using assms(5) by (auto simp: super_index_def)
  moreover have "sp = int (length es) \<Longrightarrow> is_container ((es @ c # cl) ! nat sp)" using assms(2) by simp
  ultimately show ?thesis using assms(1,5) by (auto simp: jsmn_char_def Let_def jsmn_comma_def)
qed

lemma char_close:
  assumes "js = pre @ c # rest" and "c = (if ty = JSMN_OBJECT then CHR ''}'' else CHR '']'')" and "ty = JSMN_OBJECT \<or> ty = JSMN_ARRAY"
    and "list_all (\<lambda>t. \<not> tok_open t) cl" and "p \<le> length pre"
  shows "jsmn_char js (pst (length pre) (es @ open_tok ty p k # cl) sp free) =
    Inr (Go 0 (pst (length pre) (es @ mk_tok ty p (length pre + 1 - p) k # cl) (innermost es) free))"
proof -
  let ?P = "pst (length pre) (es @ open_tok ty p k # cl) sp free"
  have "search_down tok_open (es @ open_tok ty p k # cl @ free) (length es + Suc (length cl)) = Some (length es)"
    by (rule search_down_last) (use assms(4) in \<open>auto simp: list_all_iff tok_open_def open_tok_def\<close>)
  moreover have "search_down tok_open (es @ open_tok ty p k # cl @ free) (length es) = search_down tok_open es (length es)"
    by (rule search_down_take) simp
  moreover have "set_tok (length es) (\<lambda>t. t\<lparr>tok_end := int (length pre) + 1\<rparr>) ?P = pst (length pre) (es @ mk_tok ty p (length pre + 1 - p) k # cl) sp free"
    using assms(5) by (simp add: pst_def set_tok_def open_tok_def mk_tok_def)
  moreover have "(if c = CHR ''}'' then JSMN_OBJECT else JSMN_ARRAY) = ty" using assms(2,3) by auto
  ultimately have "jsmn_close c ?P = Go 0 (pst (length pre) (es @ mk_tok ty p (length pre + 1 - p) k # cl) (innermost es) free)"
    by (simp add: jsmn_close_def Let_def innermost_def open_tok_def split: option.split)
  moreover have "jsmn_char js ?P = Inr (jsmn_close c ?P)" using assms(1-3) by (auto simp: jsmn_char_def Let_def)
  ultimately show ?thesis by simp
qed
section \<open>Whole values\<close>

fun scalar :: "json \<Rightarrow> bool" where
  "scalar (J_prim s) = True"
| "scalar (J_str s) = True"
| "scalar (J_arr vs) = False"
| "scalar (J_obj kvs) = False"

fun is_prim :: "json \<Rightarrow> bool" where
  "is_prim (J_prim s) = True"
| "is_prim (J_str s) = False"
| "is_prim (J_arr vs) = False"
| "is_prim (J_obj kvs) = False"

text \<open>The loop reads the value \<open>v\<close> and fills its tokens, where \<open>fits\<close> is what a primitive needs of the token it belongs to
  and \<open>ends\<close> what it needs of the text behind it.\<close>

definition value_ok :: "(string \<Rightarrow> jsmn_parser \<Rightarrow> int \<Rightarrow> fault + int \<times> jsmn_parser) \<Rightarrow> (int \<Rightarrow> jsmntok list \<Rightarrow> bool) \<Rightarrow> (string \<Rightarrow> bool) \<Rightarrow>
    json \<Rightarrow> bool" where
  "value_ok loop fits ends v \<longleftrightarrow> (\<forall>js pre rest ds sp free n. js = pre @ json_text v @ rest \<longrightarrow> super_ok sp ds \<longrightarrow>
     (is_prim v \<longrightarrow> ends rest \<and> fits sp ds) \<longrightarrow> length (json_toks (length pre) v) \<le> length free \<longrightarrow>
     loop js (pst (length pre) ds sp free) n =
     loop js (pst (length pre + length (json_text v)) (grow_at sp ds @ json_toks (length pre) v)
       (if scalar v then sp else innermost ds) (drop (length (json_toks (length pre) v)) free)) (n + int (length (json_toks (length pre) v))))"

lemma value_okD:
  "value_ok loop fits ends v \<Longrightarrow> js = pre @ json_text v @ rest \<Longrightarrow> super_ok sp ds \<Longrightarrow> (is_prim v \<Longrightarrow> ends rest \<and> fits sp ds) \<Longrightarrow>
     length (json_toks (length pre) v) \<le> length free \<Longrightarrow>
     loop js (pst (length pre) ds sp free) n =
     loop js (pst (length pre + length (json_text v)) (grow_at sp ds @ json_toks (length pre) v)
       (if scalar v then sp else innermost ds) (drop (length (json_toks (length pre) v)) free)) (n + int (length (json_toks (length pre) v)))"
  unfolding value_ok_def by blast

lemma toks_closed:
  "list_all (\<lambda>t. \<not> tok_open t) (json_toks p v)" "list_all (\<lambda>t. \<not> tok_open t) (items_toks p vs)" "list_all (\<lambda>t. \<not> tok_open t) (pairs_toks p kvs)"
  by (induction p v and p vs and p kvs rule: json_toks_items_toks_pairs_toks.induct) (simp_all add: mk_tok_def tok_open_def)

lemma stops_simps [simp]: "stops (CHR '','' # r)" "stops (CHR '']'' # r)" "stops (CHR ''}'' # r)" "stops []"
  by (simp_all add: stops_def is_delim_def)

lemma grow_open:
  "grow_at (int (length es)) (es @ open_tok ty p k # cl) = es @ open_tok ty p (k + 1) # cl"
  by (simp add: grow_at_def open_tok_def)

lemma open_tok_simps [simp]: "tok_open (open_tok ty p k)" "is_container (open_tok JSMN_ARRAY p k)" "is_container (open_tok JSMN_OBJECT p k)"
  by (simp_all add: tok_open_def open_tok_def is_container_def)

lemma innermost_open:
  assumes "list_all (\<lambda>t. \<not> tok_open t) cl"
  shows "innermost (es @ open_tok ty p k # cl) = int (length es)"
proof -
  have "search_down tok_open (es @ open_tok ty p k # cl @ []) (length es + Suc (length cl)) = Some (length es)"
    by (rule search_down_last) (use assms in \<open>auto simp: list_all_iff\<close>)
  then show ?thesis by (simp del: search_down.simps add: innermost_def)
qed

lemma innermost_grow: "super_ok sp ds \<Longrightarrow> innermost (grow_at sp ds) = innermost ds"
proof -
  assume "super_ok sp ds"
  have "tok_open (grow_at sp ds ! i) = tok_open (ds ! i)" if "i < length ds" for i
    using that by (cases "i = nat sp") (auto simp: grow_at_def tok_open_def)
  then have "search_down tok_open (grow_at sp ds) k = search_down tok_open ds k" if "k \<le> length ds" for k
    using that by (induction k) auto
  then show ?thesis by (simp add: innermost_def)
qed

abbreviation pair_string :: "string \<times> json \<Rightarrow> string" where
  "pair_string \<equiv> \<lambda>(k, v). quoted k @ CHR '':'' # json_text v"

text \<open>White space around a value.\<close>

definition blanks :: "string \<Rightarrow> bool" where
  "blanks s \<longleftrightarrow> list_all (\<lambda>c. c \<in> {CHR 0x09, CHR 0x0D, CHR 0x0A, CHR '' ''}) s"

lemma blanks_stop: "blanks ws \<Longrightarrow> stops ws"
  by (cases ws) (auto simp: blanks_def stops_def is_delim_def)

definition padded :: "string \<Rightarrow> json \<Rightarrow> string \<Rightarrow> string" where
  "padded ws v ws' = ws @ json_text v @ ws'"

section \<open>Loops that read JSON\<close>

text \<open>Both modes of the tokenizer share the steps for everything but primitives. A loop with these steps fills the
  tokens of every value whose primitives it accepts: those that satisfy \<open>word\<close>, before a text that satisfies \<open>ends\<close>, and
  as the child of a token that \<open>fits\<close>, as every array and every new key does.\<close>

fun all_prims :: "(string \<Rightarrow> bool) \<Rightarrow> json \<Rightarrow> bool" where
  "all_prims w (J_prim s) = w s"
| "all_prims w (J_str s) = True"
| "all_prims w (J_arr vs) = list_all (all_prims w) vs"
| "all_prims w (J_obj kvs) = list_all (\<lambda>(k, v). all_prims w v) kvs"

locale json_loop = char_loop +
  fixes word :: "string \<Rightarrow> bool" and ends :: "string \<Rightarrow> bool" and fits :: "int \<Rightarrow> jsmntok list \<Rightarrow> bool"
  assumes step_structural: "structural (js ! jp_pos P) \<Longrightarrow> step js P = jsmn_char js P"
    and step_prim: "js = pre @ s @ rest \<Longrightarrow> prim_ok s \<Longrightarrow> word s \<Longrightarrow> ends rest \<Longrightarrow> super_ok sp ds \<Longrightarrow> fits sp ds \<Longrightarrow>
      step js (pst (length pre) ds sp (f # free)) =
      Inr (Go 1 (pst (length pre + length s - 1) (grow_at sp ds @ [mk_tok JSMN_PRIMITIVE (length pre) (length s) 0]) sp free))"
    and ends_delim: "ends (CHR '','' # r)" "ends (CHR '']'' # r)" "ends (CHR ''}'' # r)"
    and fits_array: "fits (int (length es)) (es @ open_tok JSMN_ARRAY p k # cl)"
    and fits_key: "fits (int (length es + length cl + 1)) (es @ open_tok JSMN_OBJECT p k # cl @ [mk_tok JSMN_STRING q m 0])"
begin

lemma loop_at:
  assumes "js = pre @ c # rest" and "c \<noteq> NUL" and "step js (pst (length pre) ds sp free) = Inr (Go k (pst q ds' sp' free'))"
  shows "loop js (pst (length pre) ds sp free) n = loop js (pst (q + 1) ds' sp' free') (n + k)"
  using assms loop_go [of "pst (length pre) ds sp free" js k "pst q ds' sp' free'" n] by simp

lemma loop_structural:
  assumes "js = pre @ c # rest" and "structural c" and "jsmn_char js (pst (length pre) ds sp free) = Inr (Go k (pst q ds' sp' free'))"
  shows "loop js (pst (length pre) ds sp free) n = loop js (pst (q + 1) ds' sp' free') (n + k)"
proof -
  have "c \<noteq> NUL" using assms(2) by (auto simp: structural_def NUL_def)
  moreover have "step js (pst (length pre) ds sp free) = jsmn_char js (pst (length pre) ds sp free)"
    using assms(1,2) by (intro step_structural) simp
  ultimately show ?thesis using loop_at [OF assms(1), of ds sp free k q ds' sp' free' n] assms(3) by simp
qed

lemma loop_str:
  assumes "js = pre @ quoted s @ rest" and "str_ok s" and "super_ok sp ds"
  shows "loop js (pst (length pre) ds sp (f # free)) n =
    loop js (pst (length pre + length s + 2) (grow_at sp ds @ [mk_tok JSMN_STRING (length pre + 1) (length s) 0]) sp free) (n + 1)"
  using loop_structural [OF _ _ char_str [OF assms], of "CHR 0x22" _ f free n] assms(1) by (simp add: structural_def quoted_def)

lemma loop_prim:
  assumes "js = pre @ s @ rest" and "prim_ok s" and "word s" and "ends rest" and "super_ok sp ds" and "fits sp ds"
  shows "loop js (pst (length pre) ds sp (f # free)) n =
    loop js (pst (length pre + length s) (grow_at sp ds @ [mk_tok JSMN_PRIMITIVE (length pre) (length s) 0]) sp free) (n + 1)"
proof -
  obtain c cs where s: "s = c # cs" "c \<noteq> NUL" using assms(2) by (cases s) (auto simp: prim_ok_def)
  then show ?thesis using loop_at [OF _ s(2) step_prim [OF assms], of "cs @ rest" f free n] assms(1) by simp
qed

lemma loop_open:
  assumes "js = pre @ c # rest" and "c = (if ty = JSMN_OBJECT then CHR ''{'' else CHR ''['')" and "ty = JSMN_OBJECT \<or> ty = JSMN_ARRAY"
    and "super_ok sp ds"
  shows "loop js (pst (length pre) ds sp (f # free)) n =
    loop js (pst (length pre + 1) (grow_at sp ds @ [open_tok ty (length pre) 0]) (int (length ds)) free) (n + 1)"
  using loop_structural [OF assms(1) _ char_open [OF assms], of f free n] assms(2) by (simp add: structural_def)

lemma loop_colon:
  assumes "js = pre @ CHR '':'' # rest"
  shows "loop js (pst (length pre) ds sp free) n = loop js (pst (length pre + 1) ds (int (length ds) - 1) free) n"
  using loop_structural [OF assms, of ds sp free 0 "length pre" ds "int (length ds) - 1" free n] assms
  by (simp add: jsmn_char_def Let_def structural_def)

lemma loop_comma:
  assumes "js = pre @ CHR '','' # rest" and "is_container c" "tok_open c" and "list_all (\<lambda>t. \<not> tok_open t) cl"
    and "sp = int (length es) \<or> 0 \<le> sp \<and> nat sp < length (es @ c # cl) \<and> \<not> is_container ((es @ c # cl) ! nat sp)"
  shows "loop js (pst (length pre) (es @ c # cl) sp free) n = loop js (pst (length pre + 1) (es @ c # cl) (int (length es)) free) n"
  using loop_structural [OF assms(1) _ char_comma [OF assms], of free n] by (simp add: structural_def)

lemma loop_close:
  assumes "js = pre @ c # rest" and "c = (if ty = JSMN_OBJECT then CHR ''}'' else CHR '']'')" and "ty = JSMN_OBJECT \<or> ty = JSMN_ARRAY"
    and "list_all (\<lambda>t. \<not> tok_open t) cl" and "p \<le> length pre"
  shows "loop js (pst (length pre) (es @ open_tok ty p k # cl) sp free) n =
    loop js (pst (length pre + 1) (es @ mk_tok ty p (length pre + 1 - p) k # cl) (innermost es) free) n"
  using loop_structural [OF assms(1) _ char_close [OF assms], of es k sp free n] assms(2) by (simp add: structural_def)

lemma loop_blanks:
  "blanks ws \<Longrightarrow> js = pre @ ws @ rest \<Longrightarrow>
     loop js (pst (length pre) ds sp free) n = loop js (pst (length (pre @ ws)) ds sp free) n"
proof (induction ws arbitrary: pre)
  case (Cons c ws)
  then have js: "js = pre @ c # ws @ rest" and c: "structural c" by (auto simp: blanks_def structural_def)
  have "jsmn_char js (pst (length pre) ds sp free) = Inr (Go 0 (pst (length pre) ds sp free))"
    using Cons.prems(1) js by (auto simp: jsmn_char_def Let_def blanks_def)
  from loop_structural [OF js c this, of n] Cons.IH [of "pre @ [c]"] Cons.prems show ?case by (simp add: blanks_def)
qed simp

abbreviation reads :: "json \<Rightarrow> bool" where
  "reads \<equiv> value_ok loop fits ends"

lemma loop_items:
  assumes "js = pre @ commas (map json_text vs) @ rest" and "ends rest" and "\<forall>v \<in> set vs. reads v"
    and "list_all (\<lambda>t. \<not> tok_open t) cl" and "length (items_toks (length pre) vs) \<le> length free"
  shows "loop js (pst (length pre) (es @ open_tok JSMN_ARRAY p k # cl) (int (length es)) free) n =
    loop js (pst (length pre + length (commas (map json_text vs))) (es @ open_tok JSMN_ARRAY p (k + int (length vs)) # cl @ items_toks (length pre) vs)
      (int (length es)) (drop (length (items_toks (length pre) vs)) free)) (n + int (length (items_toks (length pre) vs)))"
  using assms
proof (induction vs arbitrary: pre cl k free n)
  case Nil
  then show ?case by simp
next
  case (Cons v vs)
  let ?ds = "es @ open_tok JSMN_ARRAY p k # cl" and ?toks = "json_toks (length pre) v"
  obtain rest' where js: "js = pre @ json_text v @ rest'" "ends rest'" "vs \<noteq> [] \<Longrightarrow> rest' = CHR '','' # commas (map json_text vs) @ rest"
      "vs = [] \<Longrightarrow> rest' = rest"
    using Cons.prems(1,2) by (cases vs) (auto simp: ends_delim)
  have sp: "super_ok (int (length es)) ?ds" by (simp add: super_ok_def)
  have first: "loop js (pst (length pre) ?ds (int (length es)) free) n =
      loop js (pst (length pre + length (json_text v)) (es @ open_tok JSMN_ARRAY p (k + 1) # cl @ ?toks) (int (length es)) (drop (length ?toks) free))
        (n + int (length ?toks))"
    using value_okD [OF _ js(1) sp, of loop fits ends free n] js(2) fits_array Cons.prems(3-5) by (simp add: grow_open innermost_open)
  show ?case
  proof (cases "vs = []")
    case True
    with first show ?thesis by simp
  next
    case False
    let ?pre = "pre @ json_text v @ [CHR '','']"
    have c: "list_all (\<lambda>t. \<not> tok_open t) (cl @ ?toks)" using Cons.prems(4) toks_closed(1) by simp
    have comma: "loop js (pst (length (pre @ json_text v)) (es @ open_tok JSMN_ARRAY p (k + 1) # cl @ ?toks) (int (length es)) (drop (length ?toks) free)) m =
        loop js (pst (length ?pre) (es @ open_tok JSMN_ARRAY p (k + 1) # cl @ ?toks) (int (length es)) (drop (length ?toks) free)) m" for m
      using loop_comma [of js "pre @ json_text v" "commas (map json_text vs) @ rest" "open_tok JSMN_ARRAY p (k + 1)" "cl @ ?toks"] js False c by simp
    have "js = ?pre @ commas (map json_text vs) @ rest" using js False by simp
    from Cons.IH [OF this Cons.prems(2) _ c, of "drop (length ?toks) free" "k + 1" "n + int (length ?toks)"] Cons.prems(3,5) False first comma
    show ?thesis by (cases vs) (simp_all add: algebra_simps)
  qed
qed

lemma loop_one_pair:
  assumes "js = pre @ quoted key @ CHR '':'' # json_text v @ rest" and "ends rest" and "str_ok key" and "reads v"
    and "list_all (\<lambda>t. \<not> tok_open t) cl" and "length (pairs_toks (length pre) [(key, v)]) \<le> length free"
  shows "\<exists>sp. loop js (pst (length pre) (es @ open_tok JSMN_OBJECT p k # cl) (int (length es)) free) n =
      loop js (pst (length pre + length key + length (json_text v) + 3) (es @ open_tok JSMN_OBJECT p (k + 1) # cl @ pairs_toks (length pre) [(key, v)])
        sp (drop (length (pairs_toks (length pre) [(key, v)])) free)) (n + int (length (pairs_toks (length pre) [(key, v)]))) \<and>
    (sp = int (length es) \<or> sp = int (length es + length cl + 1))"
proof -
  let ?ds = "es @ open_tok JSMN_OBJECT p k # cl"
  obtain f free' where free: "free = f # free'" using assms(6) by (cases free) auto
  let ?key = "\<lambda>sz. mk_tok JSMN_STRING (length pre + 1) (length key) sz"
  let ?ds1 = "es @ open_tok JSMN_OBJECT p (k + 1) # cl @ [?key 0]"
  let ?pre1 = "pre @ quoted key" and ?pre2 = "pre @ quoted key @ '':''"
  have len: "length ?pre2 = length pre + length key + 3" by (simp add: quoted_def)
  have "loop js (pst (length pre) ?ds (int (length es)) free) n = loop js (pst (length ?pre1) ?ds1 (int (length es)) free') (n + 1)"
    using loop_str [OF assms(1,3), of "int (length es)" ?ds f free' n] free by (simp add: super_ok_def grow_open quoted_def)
  also have "\<dots> = loop js (pst (length ?pre2) ?ds1 (int (length es + length cl + 1)) free') (n + 1)"
    using loop_colon [of js ?pre1 "json_text v @ rest" ?ds1 "int (length es)" free' "n + 1"] assms(1) by (simp add: algebra_simps)
  also have "\<dots> = loop js (pst (length ?pre2 + length (json_text v)) (es @ open_tok JSMN_OBJECT p (k + 1) # cl @ ?key 1 # json_toks (length ?pre2) v)
      (if scalar v then int (length es + length cl + 1) else int (length es)) (drop (length (json_toks (length ?pre2) v)) free'))
      (n + 1 + int (length (json_toks (length ?pre2) v)))"
  proof -
    have js: "js = ?pre2 @ json_text v @ rest" using assms(1) by simp
    have "grow_at (int (length es + length cl + 1)) ?ds1 = es @ open_tok JSMN_OBJECT p (k + 1) # cl @ [?key 1]"
      by (simp add: grow_at_def nat_add_distrib nth_append list_update_append mk_tok_def)
    moreover have "innermost ?ds1 = int (length es)"
      using assms(5) by (intro innermost_open) (simp add: tok_open_def mk_tok_def)
    moreover have "super_ok (int (length es + length cl + 1)) ?ds1" by (simp add: super_ok_def)
    moreover have "length (json_toks (length ?pre2) v) \<le> length free'" unfolding len using assms(6) free by simp
    ultimately show ?thesis
      using value_okD [OF assms(4) js, of "int (length es + length cl + 1)" ?ds1 free' "n + 1"] assms(2) fits_key by simp
  qed
  finally show ?thesis using free by (intro exI [of _ "if scalar v then int (length es + length cl + 1) else int (length es)"])
    (simp add: len algebra_simps del: length_append)
qed

lemma loop_pairs:
  assumes "js = pre @ commas (map pair_string kvs) @ rest" and "ends rest" and "\<forall>(key, v) \<in> set kvs. str_ok key \<and> reads v"
    and "list_all (\<lambda>t. \<not> tok_open t) cl" and "length (pairs_toks (length pre) kvs) \<le> length free"
  shows "\<exists>sp. loop js (pst (length pre) (es @ open_tok JSMN_OBJECT p k # cl) (int (length es)) free) n =
    loop js (pst (length pre + length (commas (map pair_string kvs))) (es @ open_tok JSMN_OBJECT p (k + int (length kvs)) # cl @ pairs_toks (length pre) kvs)
      sp (drop (length (pairs_toks (length pre) kvs)) free)) (n + int (length (pairs_toks (length pre) kvs)))"
  using assms
proof (induction kvs arbitrary: pre cl k free n)
  case Nil
  then show ?case by auto
next
  case (Cons kv kvs)
  obtain key v where kv: "kv = (key, v)" by (cases kv)
  let ?toks = "pairs_toks (length pre) [(key, v)]"
  obtain rest' where js: "js = pre @ quoted key @ CHR '':'' # json_text v @ rest'" "ends rest'"
      "kvs \<noteq> [] \<Longrightarrow> rest' = CHR '','' # commas (map pair_string kvs) @ rest" "kvs = [] \<Longrightarrow> rest' = rest"
    using Cons.prems(1,2) kv by (cases kvs) (auto simp: ends_delim)
  have ok: "str_ok key" "reads v" "length ?toks \<le> length free" using Cons.prems(3,5) kv by auto
  obtain sp where first: "loop js (pst (length pre) (es @ open_tok JSMN_OBJECT p k # cl) (int (length es)) free) n =
      loop js (pst (length pre + length key + length (json_text v) + 3) (es @ open_tok JSMN_OBJECT p (k + 1) # cl @ ?toks)
        sp (drop (length ?toks) free)) (n + int (length ?toks))" and sp: "sp = int (length es) \<or> sp = int (length es + length cl + 1)"
    using loop_one_pair [OF js(1,2) ok(1,2) Cons.prems(4) ok(3), of es p k n] by blast
  have lt: "length (pair_string kv) = length key + length (json_text v) + 3" by (simp add: kv quoted_def)
  show ?case
  proof (cases "kvs = []")
    case True
    with first kv show ?thesis by (intro exI [of _ sp]) (simp add: quoted_def eval_nat_numeral add.assoc)
  next
    case False
    let ?pre = "pre @ pair_string kv @ [CHR '','']"
    have c: "list_all (\<lambda>t. \<not> tok_open t) (cl @ ?toks)" using Cons.prems(4) toks_closed(3) [of "length pre" "[(key, v)]"] by simp
    have "\<not> is_container ((es @ open_tok JSMN_OBJECT p (k + 1) # cl @ ?toks) ! (length es + length cl + 1))"
      by (simp add: nth_append is_container_def mk_tok_def)
    then have "loop js (pst (length (pre @ pair_string kv)) (es @ open_tok JSMN_OBJECT p (k + 1) # cl @ ?toks) sp (drop (length ?toks) free)) m =
        loop js (pst (length ?pre) (es @ open_tok JSMN_OBJECT p (k + 1) # cl @ ?toks) (int (length es)) (drop (length ?toks) free)) m" for m
      using loop_comma [of js "pre @ pair_string kv" "commas (map pair_string kvs) @ rest" "open_tok JSMN_OBJECT p (k + 1)" "cl @ ?toks" sp es] js False c sp kv
      by (auto simp: nat_add_distrib)
    with first lt have step: "loop js (pst (length pre) (es @ open_tok JSMN_OBJECT p k # cl) (int (length es)) free) n =
      loop js (pst (length ?pre) (es @ open_tok JSMN_OBJECT p (k + 1) # cl @ ?toks) (int (length es)) (drop (length ?toks) free)) (n + int (length ?toks))"
      by (simp add: eval_nat_numeral add.assoc)
    have pos: "length ?pre = length pre + length key + length (json_text v) + 4" using lt by simp
    have js': "js = ?pre @ commas (map pair_string kvs) @ rest" using js False kv by simp
    have ok': "\<forall>(key, v) \<in> set kvs. str_ok key \<and> reads v" using Cons.prems(3) by simp
    have room: "length (pairs_toks (length ?pre) kvs) \<le> length (drop (length ?toks) free)" unfolding pos using Cons.prems(5) kv by simp
    from Cons.IH [OF js' Cons.prems(2) ok' c room, of "k + 1" "n + int (length ?toks)"]
    obtain sp' where "loop js (pst (length ?pre) (es @ open_tok JSMN_OBJECT p (k + 1) # (cl @ ?toks)) (int (length es)) (drop (length ?toks) free)) (n + int (length ?toks)) =
      loop js (pst (length ?pre + length (commas (map pair_string kvs)))
        (es @ open_tok JSMN_OBJECT p (k + 1 + int (length kvs)) # (cl @ ?toks) @ pairs_toks (length ?pre) kvs)
        sp' (drop (length (pairs_toks (length ?pre) kvs)) (drop (length ?toks) free))) (n + int (length ?toks) + int (length (pairs_toks (length ?pre) kvs)))"
      by blast
    with step False show ?thesis unfolding pos
      by (intro exI [of _ sp']) (cases kvs, simp_all add: kv quoted_def eval_nat_numeral algebra_simps)
  qed
qed

lemma value_okI:
  assumes "\<And>js pre rest ds sp f free n. js = pre @ json_text v @ rest \<Longrightarrow> super_ok sp ds \<Longrightarrow> (is_prim v \<Longrightarrow> ends rest \<and> fits sp ds) \<Longrightarrow>
     length (json_toks (length pre) v) \<le> Suc (length free) \<Longrightarrow>
     loop js (pst (length pre) ds sp (f # free)) n =
     loop js (pst (length pre + length (json_text v)) (grow_at sp ds @ json_toks (length pre) v)
       (if scalar v then sp else innermost ds) (drop (length (json_toks (length pre) v)) (f # free))) (n + int (length (json_toks (length pre) v)))"
  shows "value_ok loop fits ends v"
  unfolding value_ok_def
proof (intro allI impI, goal_cases)
  case (1 js pre rest ds sp free n)
  have "json_toks p v \<noteq> []" for p by (cases v) simp_all
  then obtain f fs where "free = f # fs" using 1(4) by (cases free) auto
  with assms [OF 1(1,2), of fs f n] 1(3,4) show ?case by simp
qed

lemma value_ok_scalar: "str_ok s \<Longrightarrow> reads (J_str s)" "prim_ok s \<Longrightarrow> word s \<Longrightarrow> reads (J_prim s)"
  by (rule value_okI, simp add: loop_str quoted_def) (rule value_okI, simp add: loop_prim)

lemma value_ok_arr:
  assumes "\<forall>v \<in> set vs. reads v"
  shows "reads (J_arr vs)"
proof (rule value_okI, goal_cases)
  case (1 js pre rest ds sp f fs n)
  let ?text = "commas (map json_text vs)" and ?items = "items_toks (length pre + 1) vs" and ?es = "grow_at sp ds"
  have js: "js = pre @ CHR ''['' # ?text @ '']'' @ rest" "js = (pre @ ''['') @ ?text @ '']'' @ rest" "js = (pre @ CHR ''['' # ?text) @ CHR '']'' # rest"
    using 1(1) by simp_all
  have "loop js (pst (length pre) ds sp (f # fs)) n = loop js (pst (length (pre @ ''['')) (?es @ [open_tok JSMN_ARRAY (length pre) 0]) (int (length ?es)) fs) (n + 1)"
    using loop_open [OF js(1), of JSMN_ARRAY sp ds f fs n] 1(2) by simp
  also have "\<dots> = loop js (pst (length (pre @ CHR ''['' # ?text)) (?es @ open_tok JSMN_ARRAY (length pre) (int (length vs)) # ?items) (int (length ?es)) (drop (length ?items) fs))
      (n + 1 + int (length ?items))"
    using loop_items [OF js(2) _ assms, of "[]" fs ?es "length pre" 0 "n + 1"] 1(4) ends_delim(2) by (simp add: ac_simps)
  also have "\<dots> = loop js (pst (length pre + length ?text + 2) (?es @ mk_tok JSMN_ARRAY (length pre) (length ?text + 2) (int (length vs)) # ?items)
      (innermost ?es) (drop (length ?items) fs)) (n + 1 + int (length ?items))"
    using loop_close [OF js(3), of JSMN_ARRAY ?items "length pre" ?es "int (length vs)"] toks_closed(2) by (simp add: ac_simps)
  finally show ?case by (simp add: innermost_grow [OF 1(2)] ac_simps)
qed

lemma value_ok_obj:
  assumes "\<forall>(key, v) \<in> set kvs. str_ok key \<and> reads v"
  shows "reads (J_obj kvs)"
proof (rule value_okI, goal_cases)
  case (1 js pre rest ds sp f fs n)
  let ?text = "commas (map pair_string kvs)" and ?items = "pairs_toks (length pre + 1) kvs" and ?es = "grow_at sp ds"
  have js: "js = pre @ CHR ''{'' # ?text @ ''}'' @ rest" "js = (pre @ ''{'') @ ?text @ ''}'' @ rest" "js = (pre @ CHR ''{'' # ?text) @ CHR ''}'' # rest"
    using 1(1) by simp_all
  have "loop js (pst (length pre) ds sp (f # fs)) n = loop js (pst (length (pre @ ''{'')) (?es @ [open_tok JSMN_OBJECT (length pre) 0]) (int (length ?es)) fs) (n + 1)"
    using loop_open [OF js(1), of JSMN_OBJECT sp ds f fs n] 1(2) by simp
  also obtain sp' where "\<dots> = loop js (pst (length (pre @ CHR ''{'' # ?text)) (?es @ open_tok JSMN_OBJECT (length pre) (int (length kvs)) # ?items) sp' (drop (length ?items) fs))
      (n + 1 + int (length ?items))"
    using loop_pairs [OF js(2) _ assms, of "[]" fs ?es "length pre" 0 "n + 1"] 1(4) ends_delim(3) by (auto simp: ac_simps)
  also have "\<dots> = loop js (pst (length pre + length ?text + 2) (?es @ mk_tok JSMN_OBJECT (length pre) (length ?text + 2) (int (length kvs)) # ?items)
      (innermost ?es) (drop (length ?items) fs)) (n + 1 + int (length ?items))"
    using loop_close [OF js(3), of JSMN_OBJECT ?items "length pre" ?es "int (length kvs)"] toks_closed(3) by (simp add: ac_simps)
  finally show ?case by (simp add: innermost_grow [OF 1(2)] ac_simps)
qed

lemma json_value_ok: "json_ok v \<Longrightarrow> all_prims word v \<Longrightarrow> reads v"
proof (induction v)
  case (J_arr vs)
  then show ?case by (intro value_ok_arr) (simp add: list_all_iff)
next
  case (J_obj kvs)
  then show ?case by (intro value_ok_obj) (fastforce simp: list_all_iff)
qed (simp_all add: value_ok_scalar)

lemma parse_padded:
  assumes "json_ok v" and "all_prims word v" and "tok_count v \<le> length mem" and "blanks ws" and "blanks ws'"
    and "is_prim v \<Longrightarrow> ends ws' \<and> fits (- 1) []"
  shows "\<exists>sp. loop (padded ws v ws') (jsmn_init (Some mem)) 0 =
    Inr (int (tok_count v), pst (length (padded ws v ws')) (json_toks (length ws) v) sp (drop (tok_count v) mem))"
proof -
  let ?js = "padded ws v ws'" and ?toks = "json_toks (length ws) v"
  have len [simp]: "length ?toks = tok_count v" by (rule length_json_toks)
  have init: "jsmn_init (Some mem) = pst 0 [] (- 1) mem" by (simp add: jsmn_init_def pst_def)
  have "loop ?js (pst 0 [] (- 1) mem) 0 = loop ?js (pst (length ws) [] (- 1) mem) 0"
    using loop_blanks [OF assms(4), of ?js "[]" "json_text v @ ws'"] by (simp add: padded_def)
  also have "\<dots> = loop ?js (pst (length ws + length (json_text v)) ?toks (if scalar v then - 1 else innermost []) (drop (length ?toks) mem)) (int (length ?toks))"
    using value_okD [OF json_value_ok [OF assms(1,2)], of ?js ws ws' "- 1" "[]" mem 0] assms(3,6)
    by (simp add: super_ok_def grow_at_def padded_def)
  also have "\<dots> = loop ?js (pst (length ?js) ?toks (if scalar v then - 1 else innermost []) (drop (length ?toks) mem)) (int (length ?toks))"
    using loop_blanks [OF assms(5), of ?js "ws @ json_text v" "[]"] by (simp add: padded_def add.assoc)
  finally have "loop ?js (pst 0 [] (- 1) mem) 0 = \<dots>" .
  moreover have "search_down tok_open (?toks @ free) (length ?toks) = None" for free
    using toks_closed(1) [of "length ws" v] by (simp add: search_down_None nth_append list_all_length)
  then have "loop ?js (pst (length ?js) ?toks sp free) n = Inr (n, pst (length ?js) ?toks sp free)" for sp free n
    by (simp add: loop_halt jsmn_end_def)
  ultimately show ?thesis unfolding init by auto
qed

end

interpretation plain_json: json_loop jsmn_char jsmn_loop "\<lambda>s. True" stops "\<lambda>sp ds. True"
  by unfold_locales (simp_all add: char_prim)

lemma all_prims_True [simp]: "all_prims (\<lambda>s. True) v"
  by (induction v) (auto simp: list_all_iff)

lemma jsmn_parse_padded:
  assumes "json_ok v" and "tok_count v \<le> length mem" and "blanks ws" and "blanks ws'"
  shows "\<exists>sp. jsmn_parse (padded ws v ws') (jsmn_init (Some mem)) =
    Inr (int (tok_count v), pst (length (padded ws v ws')) (json_toks (length ws) v) sp (drop (tok_count v) mem))"
  using plain_json.parse_padded [OF assms(1) all_prims_True assms(2-4)] blanks_stop [OF assms(4)] by (simp add: jsmn_parse_def)

lemma jsmn_parse_tokens:
  assumes "json_ok v" and "length (json_toks 0 v) \<le> length mem"
  shows "\<exists>sp. jsmn_parse (json_text v) (jsmn_init (Some mem)) =
    Inr (int (length (json_toks 0 v)), pst (length (json_text v)) (json_toks 0 v) sp (drop (length (json_toks 0 v)) mem))"
  using jsmn_parse_padded [of v mem "[]" "[]"] assms by (simp add: padded_def blanks_def length_json_toks)


definition demo_json :: json where
  "demo_json = J_obj [(''k'', J_arr [J_prim ''1'', J_str ''a'', J_obj []]), (''l'', J_prim ''null'')]"


end
