(* ===== verification/Stats_Print.thy ===== *)
theory Stats_Print
  imports Json_Tree
begin

text \<open>
  \<^verbatim>\<open>raft_print_stats\<close> of \<^verbatim>\<open>src/raft_c_if.cc\<close>, the only user of the tokenizer, and its round trip with the
  JSON text of a flat table of strings. The statistics are a C string, the list of its
  characters before the terminator; \<open>mem\<close> is what the array \<^verbatim>\<open>tokens\<close>, which the code does not
  initialise, holds at first.
\<close>

section \<open>Printing the statistics\<close>

text \<open>What \<^verbatim>\<open>raft_print_stats\<close> prints: an error, or the pairs up to the end or up to the first token that
  is not a string, whose position is then reported.\<close>

datatype stats_out =
    Bad_pointer
  | Parse_error int
  | Invalid_data
  | Stats_lines "(string \<times> string) list" "int option"

text \<open>\<^verbatim>\<open>std::string(&stats[start], end - start)\<close>; reading outside the text is a fault.\<close>

definition text_of :: "string \<Rightarrow> jsmntok \<Rightarrow> string option" where
  "text_of js t = (if 0 \<le> tok_start t \<and> tok_start t \<le> tok_end t \<and> tok_end t \<le> int (length js)
     then Some (take (nat (tok_end t - tok_start t)) (drop (nat (tok_start t)) js)) else None)"

fun print_pairs :: "string \<Rightarrow> jsmntok list \<Rightarrow> nat \<Rightarrow> nat \<Rightarrow> fault + stats_out" where
  "print_pairs js ts key 0 = Inr (Stats_lines [] None)"
| "print_pairs js ts key (Suc n) =
     (let key_i = 1 + 2 * key in
      if length ts \<le> key_i + 1 then Inl Out_of_bounds
      else let key_t = ts ! key_i; val_t = ts ! (key_i + 1) in
        if tok_type key_t \<noteq> JSMN_STRING \<or> tok_type val_t \<noteq> JSMN_STRING
        then Inr (Stats_lines [] (Some (tok_start key_t)))
        else (case (text_of js key_t, text_of js val_t) of
            (Some k, Some v) \<Rightarrow>
              (case print_pairs js ts (key + 1) n of
                 Inr (Stats_lines ls e) \<Rightarrow> Inr (Stats_lines ((k, v) # ls) e)
               | r \<Rightarrow> r)
          | _ \<Rightarrow> Inl Out_of_bounds))"

definition raft_print_stats :: "jsmntok list \<Rightarrow> string option \<Rightarrow> fault + stats_out" where
  "raft_print_stats mem stats = (case stats of
      None \<Rightarrow> Inr Bad_pointer
    | Some js \<Rightarrow> (case jsmn_parse js (jsmn_init (Some mem)) of
        Inl e \<Rightarrow> Inl e
      | Inr (parsed, P) \<Rightarrow>
          if parsed < 1 then Inr (Parse_error parsed)
          else let ts = the (jp_toks P) in
            if tok_type (ts ! 0) \<noteq> JSMN_OBJECT then Inr Invalid_data
            else print_pairs js ts 0 (nat (tok_size (ts ! 0)))))"

section \<open>Tables of strings\<close>

text \<open>The JSON text of a table whose strings need no escapes.\<close>

definition plain :: "string \<Rightarrow> bool" where
  "plain s \<longleftrightarrow> NUL \<notin> set s \<and> CHR 0x22 \<notin> set s \<and> CHR 0x5C \<notin> set s"

definition pair_text :: "string \<Rightarrow> string \<Rightarrow> string" where
  "pair_text k v = CHR 0x22 # k @ CHR 0x22 # CHR '':'' # CHR 0x22 # v @ [CHR 0x22]"

fun pairs_text :: "(string \<times> string) list \<Rightarrow> string" where
  "pairs_text [] = []"
| "pairs_text [(k, v)] = pair_text k v"
| "pairs_text ((k, v) # kvs) = pair_text k v @ CHR '','' # pairs_text kvs"

definition stats_text :: "(string \<times> string) list \<Rightarrow> string" where
  "stats_text kvs = CHR ''{'' # pairs_text kvs @ ''}''"

text \<open>The tokens of the pairs of a table whose text starts at position \<open>p\<close>.\<close>

definition str_tok :: "nat \<Rightarrow> string \<Rightarrow> int \<Rightarrow> jsmntok" where
  "str_tok p s n = \<lparr>tok_type = JSMN_STRING, tok_start = int p, tok_end = int (p + length s), tok_size = n\<rparr>"

fun pair_toks :: "nat \<Rightarrow> (string \<times> string) list \<Rightarrow> jsmntok list" where
  "pair_toks p [] = []"
| "pair_toks p ((k, v) # kvs) =
     str_tok (p + 1) k 1 # str_tok (p + 4 + length k) v 0 # pair_toks (p + 6 + length k + length v) kvs"

lemma length_pair_toks [simp]: "length (pair_toks p kvs) = 2 * length kvs"
  by (induction p kvs rule: pair_toks.induct) simp_all

text \<open>Such a table is a JSON object whose values are strings.\<close>

definition table :: "(string \<times> string) list \<Rightarrow> json" where
  "table kvs = J_obj (map (\<lambda>(k, v). (k, J_str v)) kvs)"

lemma length_pair_text [simp]: "length (pair_text k v) = length k + length v + 5"
  by (simp add: pair_text_def)

lemma pairs_text_commas: "pairs_text kvs = commas (map (\<lambda>(k, v). quoted k @ CHR '':'' # quoted v) kvs)"
  by (induction kvs rule: pairs_text.induct) (simp_all add: pair_text_def quoted_def)

lemma stats_text_table: "stats_text kvs = json_text (table kvs)"
  by (simp add: stats_text_def table_def pairs_text_commas comp_def case_prod_unfold)

lemma table_toks: "pairs_toks p (map (\<lambda>(k, v). (k, J_str v)) kvs) = pair_toks p kvs"
  by (induction p kvs rule: pair_toks.induct) (simp_all add: mk_tok_def str_tok_def quoted_def algebra_simps eval_nat_numeral)

lemma plain_str_ok: "plain s \<Longrightarrow> str_ok s"
proof -
  have "plain s \<Longrightarrow> str_scan (s @ [CHR 0x22]) p = Closed (p + length s)" for p
    by (induction s arbitrary: p) (auto simp: plain_def NUL_def)
  from this [of 0] show "plain s \<Longrightarrow> str_ok s" by (simp add: str_ok_def)
qed

lemma table_ok: "list_all (\<lambda>(k, v). plain k \<and> plain v) kvs \<Longrightarrow> json_ok (table kvs)"
  by (induction kvs) (auto simp: table_def plain_str_ok)

lemma parse_stats_text:
  assumes "list_all (\<lambda>(k, v). plain k \<and> plain v) kvs" and "2 * length kvs < length mem"
  shows "\<exists>sp n. jsmn_parse (stats_text kvs) (jsmn_init (Some mem)) = Inr (1 + 2 * int (length kvs),
    pst n (mk_tok JSMN_OBJECT 0 (length (stats_text kvs)) (int (length kvs)) # pair_toks 1 kvs) sp (drop (Suc (2 * length kvs)) mem))"
proof -
  have "json_toks 0 (table kvs) = mk_tok JSMN_OBJECT 0 (length (stats_text kvs)) (int (length kvs)) # pair_toks 1 kvs"
    by (simp add: stats_text_table table_toks) (simp add: table_def table_toks)
  with jsmn_parse_tokens [OF table_ok [OF assms(1)], of mem] assms(2) show ?thesis by (auto simp: stats_text_table)
qed

lemma str_tok_type [simp]: "tok_type (str_tok p s n) = JSMN_STRING"
  by (simp add: str_tok_def)

lemma text_of_str_tok: "js = pre @ s @ rest \<Longrightarrow> p = length pre \<Longrightarrow> text_of js (str_tok p s n) = Some s"
  by (simp add: text_of_def str_tok_def)

lemma print_pairs_toks:
  assumes "js = pre @ pairs_text kvs @ rest" and "length ds = 1 + 2 * key"
  shows "print_pairs js (ds @ pair_toks (length pre) kvs @ free) key (length kvs) = Inr (Stats_lines kvs None)"
  using assms
proof (induction kvs arbitrary: pre ds key rule: pairs_text.induct)
  case 1
  then show ?case by simp
next
  case (2 k v)
  have t: "text_of js (str_tok (Suc (length pre)) k 1) = Some k" "text_of js (str_tok (4 + length pre + length k) v 0) = Some v"
    using 2(1) by (auto simp: pair_text_def intro: text_of_str_tok [of _ "pre @ [CHR 0x22]"]
        text_of_str_tok [of _ "pre @ CHR 0x22 # k @ [CHR 0x22, CHR '':'', CHR 0x22]"])
  show ?case using 2(2) t by (simp add: nth_append add.commute add.left_commute)
next
  case (3 k v kv kvs)
  let ?pre = "pre @ pair_text k v @ [CHR '','']" and ?ds = "ds @ pair_toks (length pre) [(k, v)]"
  have t: "text_of js (str_tok (Suc (length pre)) k 1) = Some k" "text_of js (str_tok (4 + length pre + length k) v 0) = Some v"
    using 3(2) by (auto simp: pair_text_def intro: text_of_str_tok [of _ "pre @ [CHR 0x22]"]
        text_of_str_tok [of _ "pre @ CHR 0x22 # k @ [CHR 0x22, CHR '':'', CHR 0x22]"])
  have "print_pairs js (?ds @ pair_toks (length ?pre) (kv # kvs) @ free) (key + 1) (length (kv # kvs)) = Inr (Stats_lines (kv # kvs) None)"
    using 3(2,3) by (intro "3.IH") simp_all
  with t 3(3) show ?case
    by (simp add: nth_append add.commute add.left_commute)
qed

lemma print_table:
  assumes "list_all (\<lambda>(k, v). plain k \<and> plain v) kvs" and "2 * length kvs < length mem"
  shows "raft_print_stats mem (Some (stats_text kvs)) = Inr (Stats_lines kvs None)"
proof -
  have "print_pairs (stats_text kvs) ([t] @ pair_toks (length ''{'') kvs @ free) 0 (length kvs) = Inr (Stats_lines kvs None)" for t free
    by (rule print_pairs_toks [of _ _ _ "''}''"]) (simp_all add: stats_text_def)
  then show ?thesis
    using parse_stats_text [OF assms] by (auto simp: raft_print_stats_def mk_tok_def)
qed

text \<open>
  C21. Printing inverts the JSON encoding of a table of strings. For a table whose keys and values
  need no escapes and whose tokens fit the array, the code parses the text and prints exactly
  the pairs of the table in their order, whatever the uninitialised array held.
\<close>

theorem stats_round_trip:
  assumes "list_all (\<lambda>(k, v). plain k \<and> plain v) kvs" and "2 * length kvs < length mem"
  shows "raft_print_stats mem (Some (stats_text kvs)) = Inr (Stats_lines kvs None)"
  using assms by (rule print_table)

theorem stats_round_trip_witness:
  "raft_print_stats (blank_tokens 64) (Some (stats_text [(''term'', ''7''), (''state'', ''Leader'')])) =
     Inr (Stats_lines [(''term'', ''7''), (''state'', ''Leader'')] None) \<and>
   length (stats_text [(''term'', ''7''), (''state'', ''Leader'')]) = 29"
  using stats_round_trip [of "[(''term'', ''7''), (''state'', ''Leader'')]" "blank_tokens 64"]
  by (simp add: plain_def NUL_def blank_tokens_def stats_text_def)

text \<open>
  A comma outside of every value makes the tokenizer read the token before the array. Both a
  text that starts with a comma and one that has a comma after its closing brace do so.
\<close>

lemma stray_comma_out_of_bounds:
  "raft_print_stats mem (Some (CHR '','' # rest)) = Inl Out_of_bounds \<and>
   raft_print_stats (t # mem) (Some (''{},'' @ rest)) = Inl Out_of_bounds"
proof
  have "jsmn_parse (CHR '','' # rest) (jsmn_init (Some mem)) = Inl Out_of_bounds"
    by (simp add: jsmn_parse_def jsmn_loop.simps [of "CHR '','' # rest"] jsmn_init_def NUL_def jsmn_char_def jsmn_comma_def super_index_def)
  then show "raft_print_stats mem (Some (CHR '','' # rest)) = Inl Out_of_bounds"
    by (simp add: raft_print_stats_def)
  let ?js = "''{},'' @ rest"
  have "jsmn_parse ?js (jsmn_init (Some (t # mem))) = Inl Out_of_bounds"
    unfolding jsmn_parse_def
    by (simp add: jsmn_loop.simps [of "CHR ''{'' # _"] jsmn_init_def NUL_def jsmn_char_def jsmn_open_def jsmn_close_def jsmn_comma_def
        jsmn_alloc_token_def grow_super_def set_tok_def super_index_def tok_open_def Let_def)
  then show "raft_print_stats (t # mem) (Some ?js) = Inl Out_of_bounds"
    by (simp only: raft_print_stats_def option.simps sum.simps)
qed

end
