(* ===== verification/Client_Main.thy ===== *)
theory Client_Main
  imports Client Lifecycle Stats_Print
begin

text \<open>
  \<^verbatim>\<open>main\<close> of the example client \<^verbatim>\<open>src/raft_client.c\<close> and its help text: the options, the start of the
  library, the wait for leadership, the command loop, the statistics and the shutdown. The
  results of the two rounds of \<^verbatim>\<open>getopt_long\<close> and what the uninitialised local variables hold are
  parameters.
\<close>

section \<open>The help text\<close>

definition print_opt_desc :: "option_row \<Rightarrow> string" where
  "print_opt_desc opt = (case opt_has_arg opt of
      no_argument \<Rightarrow> ''  --'' @ opt_name opt @ [CHR 0x0A]
    | required_argument \<Rightarrow> ''  --'' @ opt_name opt @ ''=ARG'' @ [CHR 0x0A]
    | optional_argument \<Rightarrow> ''  --'' @ opt_name opt @ ''[=ARG]'' @ [CHR 0x0A])"

text \<open>The loop runs to the row without a name; a table without one is read past its end.\<close>

fun print_opt_summary :: "option_row list \<Rightarrow> fault + string" where
  "print_opt_summary [] = Inl Out_of_bounds"
| "print_opt_summary (opt # rows) =
     (if opt_name opt = [] then Inr []
      else case print_opt_summary rows of Inl e \<Rightarrow> Inl e | Inr t \<Rightarrow> Inr (print_opt_desc opt @ t))"

definition print_help :: "string \<Rightarrow> fault + string" where
  "print_help argv0 = (case (print_opt_summary LONG_OPTS, print_opt_summary raft_getopt_long_opts) of
      (Inr a, Inr b) \<Rightarrow> Inr (''usage: '' @ argv0 @ '' [options]'' @ [CHR 0x0A] @
         ''Client options:'' @ [CHR 0x0A] @ a @ ''Raft options:'' @ [CHR 0x0A] @ b)
    | _ \<Rightarrow> Inl Out_of_bounds)"

section \<open>The main program\<close>

definition or_fail :: "fault + 'a \<Rightarrow> ('m, 'a) wop" where
  "or_fail r = (case r of Inl e \<Rightarrow> fail_op e | Inr x \<Rightarrow> ret_op x)"

definition parse_opts_op :: "bool \<Rightarrow> (int \<times> string option) list \<Rightarrow> RaftConfig \<Rightarrow> (client_mem, int \<times> RaftConfig) wop" where
  "parse_opts_op malloc_succeeds rs cfg =
     bind_op (gets_op (\<lambda>w. parse_opts malloc_succeeds rs cfg (w_fsm w))) (\<lambda>r. case r of
       Inl e \<Rightarrow> fail_op e
     | Inr (rc, cfg', m) \<Rightarrow> then_op (set_fsm (\<lambda>_. m)) (ret_op (rc, cfg')))"

text \<open>The C string behind the pointer \<open>p\<close> into the segment.\<close>

definition shm_string :: "addr \<Rightarrow> ('m, string option) wop" where
  "shm_string p = (if p = 0 then ret_op None
     else bind_op (gets_op (\<lambda>w. w_bufs w p)) (\<lambda>b. case b of
       None \<Rightarrow> fail_op (Use_after_free p)
     | Some text \<Rightarrow> (case cstr text of None \<Rightarrow> fail_op Out_of_bounds | Some s \<Rightarrow> ret_op (Some s))))"

text \<open>The end of \<^verbatim>\<open>main\<close>, from the request for the statistics on: the exit status and what
  \<^verbatim>\<open>raft_print_stats\<close> printed. \<open>toks\<close> is the array in \<^verbatim>\<open>raft_print_stats\<close>.\<close>

definition main_end :: "client_mem boost \<Rightarrow> jsmntok list \<Rightarrow> (client_mem, int \<times> stats_out option) wop" where
  "main_end B toks =
     bind_op (raft_stats B) (\<lambda>sf.
     bind_op (raft_future_get_stats B sf True) (\<lambda>(err, stats).
       if err \<noteq> RAFT_SUCCESS then ret_op (1, None)
       else bind_op (case stats of None \<Rightarrow> fail_op Out_of_bounds | Some p \<Rightarrow> shm_string p) (\<lambda>text.
         bind_op (or_fail (raft_print_stats toks text)) (\<lambda>printed.
         bind_op (raft_shutdown B) (\<lambda>sf.
         bind_op (raft_future_wait sf) (\<lambda>err.
           if err \<noteq> RAFT_SUCCESS then ret_op (1, Some printed)
           else then_op raft_cleanup (ret_op (0, Some printed))))))))"

record main_params =
  mp_argv0 :: string
  mp_config :: RaftConfig
  mp_malloc1 :: bool
  mp_opts1 :: "(int \<times> string option) list"
  mp_malloc2 :: bool
  mp_opts2 :: "(int \<times> string option) list"
  mp_lines :: "string list"
  mp_toks :: "jsmntok list"

text \<open>The result is the exit status, the help text and the statistics.\<close>

definition client_main ::
  "client_mem boost \<Rightarrow> init_env \<Rightarrow> main_params \<Rightarrow> (client_mem, int \<times> string option \<times> stats_out option) wop" where
  "client_main B E P =
     bind_op (parse_opts_op (mp_malloc1 P) (mp_opts1 P) (raft_default_config (mp_config P))) (\<lambda>(rc, config).
       if rc = - 1 then bind_op (or_fail (print_help (mp_argv0 P))) (\<lambda>h. ret_op (2, Some h, None))
       else if rc = - 2 then ret_op (1, None, None)
       else if rc = - 3 then bind_op (or_fail (print_help (mp_argv0 P))) (\<lambda>h. ret_op (0, Some h, None))
       else then_op (raft_init E (mp_config P) (Some config))
         (then_op (parse_opts_op (mp_malloc2 P) (mp_opts2 P) config)
         (then_op (await_op (\<lambda>w. \<not> w_is_leader w) (\<lambda>_. None))
         (bind_op (gets_op (\<lambda>w. interactive (w_fsm w))) (\<lambda>i.
          then_op (if i then run_interactive B (mp_lines P) else then_op (run_auto B) (ret_op ()))
         (bind_op (main_end B (mp_toks P)) (\<lambda>(status, printed). ret_op (status, None, printed))))))))"

section \<open>Options\<close>

lemma print_opt_summary_table:
  assumes "opt_table t rows"
  shows "print_opt_summary t = Inr (concat (map print_opt_desc rows))"
proof -
  obtain e junk where t: "opt_name e = []" "list_all (\<lambda>p. opt_name p \<noteq> []) rows" "t = rows @ e # junk"
    using assms by (auto simp: opt_table_def)
  show ?thesis unfolding t(3) using t(2) by (induction rows) (simp_all add: t(1))
qed

lemma print_help_text:
  "print_help argv0 = Inr (''usage: '' @ argv0 @ '' [options]'' @ [CHR 0x0A] @
     ''Client options:'' @ [CHR 0x0A] @ concat (map print_opt_desc (butlast LONG_OPTS)) @
     ''Raft options:'' @ [CHR 0x0A] @ concat (map print_opt_desc (butlast raft_LONG_OPTS)))"
proof -
  have "opt_table LONG_OPTS (butlast LONG_OPTS)" "opt_table raft_getopt_long_opts (butlast raft_LONG_OPTS)"
    by (simp_all add: opt_table_def LONG_OPTS_def raft_getopt_long_opts_def raft_LONG_OPTS_def)
  then show ?thesis by (simp add: print_help_def print_opt_summary_table)
qed

lemma parse_loop_rc: "parse_loop rs cfg m = Inr (rc, cfg', m') \<Longrightarrow> rc \<in> {0, - 1, - 3}"
  by (induction rs cfg m rule: parse_loop.induct)
    (auto simp: with_arg_def Let_def split: if_splits sum.splits option.splits prod.splits)

lemma parse_opts_rc: "parse_opts ok rs cfg m = Inr (rc, cfg', m') \<Longrightarrow> rc \<in> {0, - 1, - 2, - 3}"
  using parse_loop_rc [of rs cfg m rc cfg' m'] by (auto simp: parse_opts_def split: sum.splits option.splits)


definition demo_params :: main_params where
  "demo_params = \<lparr>mp_argv0 = ''raft_client'', mp_config = demo_config, mp_malloc1 = True, mp_opts1 = [(114, Some ''5'')],
     mp_malloc2 = True, mp_opts2 = [], mp_lines = [], mp_toks = blank_tokens 64\<rparr>"


section \<open>The end of the program\<close>

text \<open>The state in which a request without arguments has just been queued.\<close>

definition asked :: "CallTag \<Rightarrow> addr \<Rightarrow> 'm world \<Rightarrow> 'm world" where
  "asked t a w = w_api_queue_update (abq_insert 8 (t, a)) (slot_made a (sent_slot w t NoArgs) w)"

lemma asked_open:
  assumes "api_open w" and "bo_allocate_one B (call_counted w) = Some a"
  shows "send_api_request B t NoArgs (w, es) = Ret a (asked t a w, es)"
  using assms by (simp add: send_api_request_open api_open_def asked_def call_counted_def)

text \<open>The call \<open>a\<close> is answered while the client waits: the others run \<open>pre\<close> after the request and leave the
  world \<open>w'\<close>, where the call is terminal and unlocked.\<close>

definition answered :: "CallTag \<Rightarrow> addr \<Rightarrow> 'm world \<Rightarrow> 'm world sched \<Rightarrow> 'm world \<Rightarrow> slot \<Rightarrow> bool" where
  "answered t a w pre w' s \<longleftrightarrow> pends a (asked t a w) pre \<and> after pre (asked t a w) = w' \<and> w_slots w' a = Some s \<and>
     sl_tag s = t \<and> \<not> sl_owned s \<and> is_terminal (sl_state s)"

lemma answered_wait:
  assumes "boost_ok B" and "bo_allocate_one B (call_counted w) = Some a" and "answered t a w pre w' s"
  shows "raft_future_wait a (asked t a w, pre @ es) = Ret (sl_error s) (waited a s w', es)"
proof -
  note al = boost_alloc_one [OF assms(1,2)]
  have "in_shm_bounds (asked t a w) a" using al by (simp add: asked_def slot_made_def in_shm_bounds_def)
  with raft_future_wait_along [OF al(1), of "asked t a w" pre s es] assms(3) show ?thesis by (simp add: answered_def)
qed

lemma answered_stats:
  assumes "boost_ok B" and "bo_allocate_one B (call_counted w) = Some a" and "answered Tag_Stats a w pre w' s"
    and "sl_error s = RAFT_SUCCESS" "sl_retval s = h" "h \<noteq> 0"
  shows "raft_future_get_stats B a True (asked Tag_Stats a w, pre @ es) =
    Ret (RAFT_SUCCESS, Some (bo_get_address_from_handle B w' h)) (waited a s w', es)"
proof -
  note al = boost_alloc_one [OF assms(1,2)]
  have s: "w_slots (asked Tag_Stats a w) a = Some (sent_slot w Tag_Stats NoArgs)" by (simp add: asked_def slot_made_def)
  have b: "bo_get_address_from_handle B (waited a s w') h = bo_get_address_from_handle B w' h"
    by (rule boost_handle [OF assms(1)]) (simp add: waited_def)
  show ?thesis
    using s al(1) assms(3-6) b answered_wait [OF assms(1-3), of es]
    by (simp add: raft_future_get_stats_def future_tag_def future_get_def future_state_def slot_value_def answered_def)
qed

lemma cleanup_runs:
  assumes "w_fsm_worker w" and "\<not> w_snapshot_worker w" and "w_orphan_gc_thread w" and "w_raft_watcher w" and "w_finished w = {}"
  shows "\<exists>w'. raft_cleanup (w, finish T_fsm_worker # finish T_orphan_gc # finish T_raft_watcher # es) = Ret () (w', es) \<and>
    \<not> w_mapped w' \<and> threads_stopped w' \<and> w_slots w' = w_slots w"
  using assms
  by (simp add: raft_cleanup_def shm_cleanup_def abq_close_def deque_close_def join_op_forms)
    (simp add: finish_def join_op_forms threads_stopped_def)

lemma NUL_pairs_text: "list_all (\<lambda>(k, v). plain k \<and> plain v) kvs \<Longrightarrow> NUL \<notin> set (pairs_text kvs)"
  by (induction kvs rule: pairs_text.induct) (auto simp: pair_text_def plain_def NUL_def)

lemma shm_stats_text:
  assumes "p \<noteq> 0" and "w_bufs w p = Some (stats_text kvs @ NUL # junk)" and "list_all (\<lambda>(k, v). plain k \<and> plain v) kvs"
  shows "shm_string p (w, es) = Ret (Some (stats_text kvs)) (w, es)"
proof -
  have "NUL \<notin> set (stats_text kvs)" using NUL_pairs_text [OF assms(3)] by (auto simp: stats_text_def NUL_def)
  then have "cstr (stats_text kvs @ NUL # junk) = Some (stats_text kvs)" by (simp add: cstr_def takeWhile_append)
  with assms(1,2) show ?thesis by (simp add: shm_string_def)
qed


text \<open>An example: a table of one pair, answered and shut down at once.\<close>

lemma answered_at_once:
  assumes "\<not> is_terminal (sl_state (sent_slot w t NoArgs))"
    and "reply (asked t a w, []) = Ret u ((asked t a w)\<lparr>w_slots := (w_slots (asked t a w))(a \<mapsto> s)\<rparr>, [])"
    and "sl_tag s = t" "\<not> sl_owned s" "is_terminal (sl_state s)"
  shows "answered t a w [as_env reply] ((asked t a w)\<lparr>w_slots := (w_slots (asked t a w))(a \<mapsto> s)\<rparr>) s"
  using assms by (simp add: answered_def as_env_def slot_pending_def) (simp add: asked_def slot_made_def)

lemma asked_slot [simp]: "w_slots (asked t a w) a = Some (sent_slot w t NoArgs)"
  by (simp add: asked_def slot_made_def)

lemma asked_fields [simp]:
  "w_bufs (asked t a w) = w_bufs w" "w_shm_base (asked t a w) = w_shm_base w" "w_shm_size (asked t a w) = w_shm_size w"
  "w_fsm_worker (asked t a w) = w_fsm_worker w" "w_snapshot_worker (asked t a w) = w_snapshot_worker w"
  "w_orphan_gc_thread (asked t a w) = w_orphan_gc_thread w" "w_raft_watcher (asked t a w) = w_raft_watcher w"
  "w_finished (asked t a w) = w_finished w" "w_api_queue (asked t a w) = abq_insert 8 (t, a) (w_api_queue w)"
  "w_slots (asked t a w) = (w_slots w)(a \<mapsto> sent_slot w t NoArgs)"
  by (simp_all add: asked_def slot_made_def)


end
