(* ===== verification/Sys_Inv.thy ===== *)
theory Sys_Inv
  imports Client Lifecycle
begin

text \<open>
  An invariant of the shared state that every operation of the library keeps: the counters of
  \<^verbatim>\<open>src/stats.h\<close> agree with the calls and buffers that exist, the ring buffers are well-formed, and the
  state of a call agrees with its error code. There is one lemma per operation, from the
  accesses to a slot up to the threads and the main loops of the example client; whatever the
  other threads do while an operation waits only has to keep the invariant too.
\<close>

section \<open>The invariant\<close>

definition slot_coherent :: "slot \<Rightarrow> bool" where
  "slot_coherent s \<longleftrightarrow> (sl_state s = Success \<longrightarrow> sl_error s = RAFT_SUCCESS) \<and> (sl_state s = Error \<longrightarrow> sl_error s \<noteq> RAFT_SUCCESS)"

definition accounted :: "'m world \<Rightarrow> bool" where
  "accounted w \<longleftrightarrow>
     call_alloc (w_stats w) - call_free (w_stats w) = of_nat (card (dom (w_slots w))) \<and>
     buffer_alloc (w_stats w) - buffer_free (w_stats w) = of_nat (card (dom (w_bufs w))) \<and>
     w_slots w 0 = None \<and> w_bufs w 0 = None"

definition sys_inv :: "'m world \<Rightarrow> bool" where
  "sys_inv w \<longleftrightarrow> accounted w \<and> w_shm_base w \<noteq> 0 \<and> abq_wf 8 (w_api_queue w) \<and> abq_wf 8 (w_fsm_queue w) \<and>
     (\<forall>a s. w_slots w a = Some s \<longrightarrow> slot_coherent s)"

lemma sys_inv_frame:
  "w_slots w' = w_slots w \<Longrightarrow> w_bufs w' = w_bufs w \<Longrightarrow> w_stats w' = w_stats w \<Longrightarrow> w_shm_base w' = w_shm_base w \<Longrightarrow>
   w_api_queue w' = w_api_queue w \<Longrightarrow> w_fsm_queue w' = w_fsm_queue w \<Longrightarrow> sys_inv w \<Longrightarrow> sys_inv w'"
  by (simp add: sys_inv_def accounted_def)

lemma keeps_frame [keeps_rules]:
  assumes "\<And>w. w_slots (f w) = w_slots w" and "\<And>w. w_bufs (f w) = w_bufs w" and "\<And>w. w_stats (f w) = w_stats w"
    and "\<And>w. w_shm_base (f w) = w_shm_base w" and "\<And>w. w_api_queue (f w) = w_api_queue w" and "\<And>w. w_fsm_queue (f w) = w_fsm_queue w"
  shows "keeps sys_inv (modify_op f)"
  by (rule keeps_modify) (rule sys_inv_frame [OF assms])

section \<open>Slots and buffers\<close>

lemma card_dom_insert:
  fixes m :: "addr \<Rightarrow> 'b option"
  shows "m a = None \<Longrightarrow> of_nat (card (dom (m(a \<mapsto> s)))) = (of_nat (card (dom m)) + 1 :: u64)"
  by (simp add: card_insert_if domIff)

lemma card_dom_remove:
  fixes m :: "addr \<Rightarrow> 'b option"
  assumes "m a \<noteq> None"
  shows "of_nat (card (dom (m(a := None)))) = (of_nat (card (dom m)) - 1 :: u64)"
proof -
  have "a \<in> dom m" using assms by blast
  then have "Suc (card (dom m - {a})) = card (dom m)" by (intro card_Suc_Diff1) simp_all
  then show ?thesis by (metis add_diff_cancel_left' dom_fun_upd of_nat_Suc)
qed

lemma dom_update_same: "m a = Some x \<Longrightarrow> dom (m(a \<mapsto> y)) = dom m"
  by (simp add: insert_absorb domIff)

lemma keeps_get_slot [keeps_rules]: "keeps sys_inv (get_slot a)"
  unfolding get_slot_def by (intro keeps_rules)

lemma keeps_mod_slot:
  assumes "\<And>s. slot_coherent s \<Longrightarrow> slot_coherent (f s)"
  shows "keeps (sys_inv :: 'm world \<Rightarrow> bool) (mod_slot a f)"
proof (rule keepsI)
  fix w :: "'m world" and es :: "'m world sched" assume i: "sys_inv w" "rely sys_inv es"
  show "good_end sys_inv (\<lambda>_. True) (mod_slot a f (w, es))"
  proof (cases "w_slots w a")
    case (Some s)
    moreover have "a \<noteq> 0" using i Some by (auto simp: sys_inv_def accounted_def)
    ultimately have "sys_inv (w\<lparr>w_slots := (w_slots w)(a \<mapsto> f s)\<rparr>)"
      using i assms [of s] dom_update_same [of "w_slots w" a s "f s"]
      by (auto simp: sys_inv_def accounted_def simp del: dom_fun_upd)
    with Some i show ?thesis by simp
  qed simp
qed

lemma counter_steps:
  "x - y = z \<Longrightarrow> x + 1 - y = z + 1" "x - y = z \<Longrightarrow> x - (y + 1) = z - 1" for x y z :: u64
  by (simp_all add: algebra_simps)

lemma sys_inv_alloc_slot:
  assumes "sys_inv w" and "fresh_addr w a" and "slot_coherent s"
  shows "sys_inv (slot_made a s w)"
proof -
  have "accounted (slot_made a s w)"
    using assms(1,2) unfolding sys_inv_def accounted_def slot_made_def fresh_addr_def
    by (simp add: card_dom_insert counter_steps del: dom_fun_upd)
  with assms(1,3) show ?thesis by (simp add: sys_inv_def slot_made_def)
qed

lemma sys_inv_free_slot:
  assumes "sys_inv w" and "w_slots w a \<noteq> None"
  shows "sys_inv (slot_freed a w)"
proof -
  have "accounted (slot_freed a w)"
    using assms unfolding sys_inv_def accounted_def slot_freed_def
    by (simp add: card_dom_remove counter_steps del: dom_fun_upd)
  with assms(1) show ?thesis by (simp add: sys_inv_def slot_freed_def)
qed

lemma mk_slot_coherent: "slot_coherent (mk_slot t args)"
  by (simp add: slot_coherent_def mk_slot_def)

lemma fresh_addr_cong: "fresh_addr (w\<lparr>w_stats := st\<rparr>) a = fresh_addr w a"
  by (simp add: fresh_addr_def in_shm_bounds_def)

lemma keeps_alloc_request:
  assumes "boost_ok B"
  shows "keeps (sys_inv :: 'm world \<Rightarrow> bool) (alloc_request B t args)"
proof (rule keepsI)
  fix w :: "'m world" and es :: "'m world sched" assume i: "sys_inv w" "rely sys_inv es"
  let ?w = "w\<lparr>w_stats := (w_stats w)\<lparr>call_alloc := call_alloc (w_stats w) + 1\<rparr>\<rparr>"
  show "good_end sys_inv (\<lambda>_. True) (alloc_request B t args (w, es))"
  proof (cases "bo_allocate_one B ?w")
    case None
    then show ?thesis by (simp add: alloc_request_def)
  next
    case (Some a)
    then have "fresh_addr w a" using assms fresh_addr_cong by (metis boost_ok_def)
    from sys_inv_alloc_slot [OF i(1) this mk_slot_coherent, of t args]
    have "sys_inv (?w\<lparr>w_slots := (w_slots w)(a \<mapsto> mk_slot t args)\<rparr>)"
      by (rule sys_inv_frame [rotated -1]) (simp_all add: slot_made_def)
    with Some i(2) show ?thesis by (simp add: alloc_request_def)
  qed
qed

lemma keeps_allocate_buf:
  assumes "boost_ok B"
  shows "keeps_res (sys_inv :: 'm world \<Rightarrow> bool) (allocate_buf B len) (\<lambda>b. b \<noteq> 0)"
proof (rule keeps_resI)
  fix w :: "'m world" and es :: "'m world sched" assume i: "sys_inv w" "rely sys_inv es"
  show "good_end sys_inv (\<lambda>b. b \<noteq> 0) (allocate_buf B len (w, es))"
  proof (cases "bo_allocate B w len")
    case None
    then show ?thesis by (simp add: allocate_buf_def)
  next
    case (Some a)
    then have f: "fresh_addr w a" using assms by (simp add: boost_ok_def)
    let ?w = "w\<lparr>w_bufs := (w_bufs w)(a \<mapsto> garbage (unat len) w), w_stats := (w_stats w)\<lparr>buffer_alloc := buffer_alloc (w_stats w) + 1\<rparr>\<rparr>"
    have "accounted ?w"
      using i(1) f unfolding sys_inv_def accounted_def fresh_addr_def
      by (simp add: card_dom_insert counter_steps del: dom_fun_upd)
    with i have "sys_inv ?w" by (simp add: sys_inv_def)
    with i f show ?thesis by (simp add: allocate_buf_Some [OF Some] fresh_addr_def)
  qed
qed

lemma good_end_weaken: "good_end I Q r \<Longrightarrow> good_end I (\<lambda>_. True) r"
  by (cases r) (auto simp: good_end_def)

lemma keeps_res_keeps: "keeps_res I m Q \<Longrightarrow> keeps I m"
  unfolding keeps_def keeps_res_def by (metis good_end_weaken)

lemma keeps_free_buf:
  assumes "buf \<noteq> 0"
  shows "keeps (sys_inv :: 'm world \<Rightarrow> bool) (free_buf buf)"
proof (rule keepsI)
  fix w :: "'m world" and es :: "'m world sched" assume i: "sys_inv w" "rely sys_inv es"
  show "good_end sys_inv (\<lambda>_. True) (free_buf buf (w, es))"
  proof (cases "w_bufs w buf")
    case None
    with assms show ?thesis by (simp add: free_buf_None)
  next
    case (Some b)
    let ?w = "w\<lparr>w_bufs := (w_bufs w)(buf := None), w_stats := (w_stats w)\<lparr>buffer_free := buffer_free (w_stats w) + 1\<rparr>\<rparr>"
    have "accounted ?w"
      using i(1) Some unfolding sys_inv_def accounted_def
      by (simp add: card_dom_remove counter_steps del: dom_fun_upd)
    with i have "sys_inv ?w" by (simp add: sys_inv_def)
    with i show ?thesis by (simp add: free_buf_Some [OF Some assms])
  qed
qed

lemma in_shm_bounds_null: "w_shm_base w \<noteq> 0 \<Longrightarrow> \<not> in_shm_bounds w 0"
  by (simp add: in_shm_bounds_def)

lemma keeps_orphan_cleanup [keeps_rules]: "keeps (sys_inv :: 'm world \<Rightarrow> bool) (orphan_cleanup args)"
proof (rule keepsI)
  fix w :: "'m world" and es :: "'m world sched" assume i: "sys_inv w" "rely sys_inv es"
  show "good_end sys_inv (\<lambda>_. True) (orphan_cleanup args (w, es))"
  proof (cases args)
    case (Args_Apply aa)
    show ?thesis
    proof (cases "in_shm_bounds w (cmd_buf aa)")
      case True
      with i(1) have "cmd_buf aa \<noteq> 0" by (auto simp: sys_inv_def in_shm_bounds_null)
      from keepsD [OF keeps_free_buf [OF this] i] True Args_Apply show ?thesis
        by (simp add: orphan_cleanup_def free_raft_buffer_def)
    qed (use i Args_Apply in \<open>simp add: orphan_cleanup_def\<close>)
  qed (use i in \<open>simp_all add: orphan_cleanup_def\<close>)
qed

section \<open>Operations on slots\<close>

lemma keeps_queues [keeps_rules]:
  "keeps sys_inv (abq_put CALLQUEUE_CAPACITY w_api_queue w_api_queue_update v)"
  "keeps sys_inv (abq_put CALLQUEUE_CAPACITY w_fsm_queue w_fsm_queue_update v)"
  "keeps sys_inv (abq_take CALLQUEUE_CAPACITY w_api_queue w_api_queue_update)"
  "keeps sys_inv (abq_take CALLQUEUE_CAPACITY w_fsm_queue w_fsm_queue_update)"
  "keeps sys_inv (abq_close w_api_queue_update)" "keeps sys_inv (abq_close w_fsm_queue_update)"
  unfolding CALLQUEUE_CAPACITY_def
  by (intro keeps_abq_put keeps_abq_take keeps_abq_close [where cap = 8 and g = w_api_queue]
      keeps_abq_close [where cap = 8 and g = w_fsm_queue]; simp add: sys_inv_def accounted_def)+

lemma keeps_deques [keeps_rules]:
  "keeps sys_inv (deque_put w_orphaned_calls w_orphaned_calls_update v)"
  "keeps sys_inv (deque_take w_orphaned_calls w_orphaned_calls_update)"
  "keeps sys_inv (deque_close w_orphaned_calls_update)"
  "keeps sys_inv (deque_poll_until l c e d w_orphaned_calls w_orphaned_calls_update)"
  "keeps sys_inv (deque_emplace w_snapshot_queue w_snapshot_queue_update mk args)"
  "keeps sys_inv (deque_take w_snapshot_queue w_snapshot_queue_update)"
  "keeps sys_inv (deque_close w_snapshot_queue_update)"
  by (intro keeps_deque; simp add: sys_inv_def accounted_def)+

text \<open>The kind of update that a slot undergoes while it is in use.\<close>

lemma slot_coherent_updates [simp]:
  "slot_coherent (s\<lparr>sl_timings := t\<rparr>) = slot_coherent s" "slot_coherent (s\<lparr>sl_owned := b\<rparr>) = slot_coherent s"
  "slot_coherent (s\<lparr>sl_client_state := c\<rparr>) = slot_coherent s" "slot_coherent (s\<lparr>sl_retval := v\<rparr>) = slot_coherent s"
  "slot_coherent (s\<lparr>sl_state := Dispatched\<rparr>)"
  "e \<noteq> RAFT_SUCCESS \<Longrightarrow> slot_coherent (s\<lparr>sl_error := e, sl_state := Error\<rparr>)"
  by (simp_all add: slot_coherent_def)

lemma keeps_trace_op [keeps_rules]: "keeps sys_inv (trace_op e)"
  unfolding trace_op_def by (rule keeps_frame) simp_all

lemma keeps_record_op [keeps_rules]: "keeps sys_inv (record_op a tag)"
  unfolding record_op_def by (intro keeps_rules keeps_mod_slot) simp

lemma keeps_lock_op [keeps_rules]: "keeps sys_inv (lock_op a)"
  unfolding lock_op_def by (intro keeps_rules keeps_mod_slot) simp

lemma unlock_op_Ret: "\<exists>w'. unlock_op a (w, es) = Ret () (w', es)"
  by (simp add: unlock_op_def)

lemma keeps_unlock_op [keeps_rules]: "keeps (sys_inv :: 'm world \<Rightarrow> bool) (unlock_op a)"
proof (rule keepsI)
  fix w :: "'m world" and es :: "'m world sched" assume i: "sys_inv w" "rely sys_inv es"
  show "good_end sys_inv (\<lambda>_. True) (unlock_op a (w, es))"
  proof (cases "w_slots w a")
    case None
    then show ?thesis using i sys_inv_frame [of "w\<lparr>w_trace := w_trace w @ [Ev_unlock a]\<rparr>" w] by (simp add: unlock_op_def)
  next
    case (Some s)
    have "keeps sys_inv (then_op (mod_slot a (\<lambda>s. s\<lparr>sl_owned := False\<rparr>)) (trace_op (Ev_unlock a)))"
      by (intro keeps_rules keeps_mod_slot) simp
    from keepsD [OF this i] Some show ?thesis by (simp add: unlock_op_def)
  qed
qed

lemma keeps_finally [keeps_rules]:
  fixes m :: "('m, 'b) wop"
  assumes "keeps sys_inv m"
  shows "keeps sys_inv (finally_op m (unlock_op a))"
proof (rule keepsI)
  fix w :: "'m world" and es :: "'m world sched" assume i: "sys_inv w" "rely sys_inv es"
  note m = keepsD [OF assms i]
  have u: "good_end sys_inv (\<lambda>_. True) (unlock_op a (v, fs))" if "sys_inv v" "rely sys_inv fs" for v :: "'m world" and fs
    using keepsD [OF keeps_unlock_op that] .
  show "good_end sys_inv (\<lambda>_. True) (finally_op m (unlock_op a) (w, es))"
  proof (cases "m (w, es)")
    case (Ret r t)
    obtain v fs where t: "t = (v, fs)" by (cases t)
    obtain v' where "unlock_op a (v, fs) = Ret () (v', fs)" using unlock_op_Ret by blast
    with m u [of v fs] Ret t show ?thesis by (simp add: finally_op_def)
  next
    case (Throw x t)
    obtain v fs where t: "t = (v, fs)" by (cases t)
    obtain v' where "unlock_op a (v, fs) = Ret () (v', fs)" using unlock_op_Ret by blast
    with m u [of v fs] Throw t show ?thesis by (auto simp: finally_op_def)
  qed (use m in \<open>simp_all add: finally_op_def\<close>)
qed

lemma keeps_slot_dispose [keeps_rules]: "keeps (sys_inv :: 'm world \<Rightarrow> bool) (slot_dispose a)"
proof (rule keepsI)
  fix w :: "'m world" and es :: "'m world sched" assume i: "sys_inv w" "rely sys_inv es"
  show "good_end sys_inv (\<lambda>_. True) (slot_dispose a (w, es))"
  proof (cases "w_slots w a")
    case None
    then show ?thesis by (simp add: slot_dispose_def)
  next
    case (Some s)
    have free: "then_op (deallocate_one a) (stats_op (call_free_update counter_inc)) (v, fs) = Ret () (slot_freed a v, fs)" for v :: "'m world" and fs
      by (simp add: deallocate_one_def slot_freed_def counter_inc_def)
    show ?thesis
    proof (cases "sl_client_state s")
      case Issued
      have "keeps (sys_inv :: 'm world \<Rightarrow> bool) (then_op (mod_slot a (\<lambda>s. s\<lparr>sl_client_state := Abandoned\<rparr>)) (track_orphan a))"
        unfolding track_orphan_def by (intro keeps_rules keeps_mod_slot) simp
      from keepsD [OF this i] Some Issued show ?thesis by (simp add: slot_dispose_def)
    next
      case Observed
      with Some i sys_inv_free_slot [OF i(1), of a] show ?thesis by (simp add: slot_dispose_Observed)
    next
      case Abandoned
      note c = keepsD [OF keeps_orphan_cleanup [of "sl_args s"] i]
      show ?thesis
      proof (cases "orphan_cleanup (sl_args s) (w, es)")
        case (Ret x t)
        obtain v fs where t: "t = (v, fs)" by (cases t)
        have "w_slots v = w_slots w"
          using Ret t by (auto simp: orphan_cleanup_def free_raft_buffer_def free_buf_def shm_deallocate_def bind_op_app
              split: call_args.splits if_splits option.splits)
        with c Ret t Some sys_inv_free_slot [of v a] have "sys_inv (slot_freed a v)" "rely sys_inv fs" by simp_all
        with Ret t Some Abandoned free show ?thesis by (simp add: slot_dispose_def)
      qed (use c Some Abandoned in \<open>simp_all add: slot_dispose_def\<close>)
    qed
  qed
qed

lemma keeps_slot_reply_err [keeps_rules]: "keeps (sys_inv :: 'm world \<Rightarrow> bool) (slot_reply_err a err)"
proof (rule keepsI)
  fix w :: "'m world" and es :: "'m world sched" assume i: "sys_inv w" "rely sys_inv es"
  show "good_end sys_inv (\<lambda>_. True) (slot_reply_err a err (w, es))"
  proof (cases "w_slots w a")
    case None
    then show ?thesis by (simp add: slot_reply_err_def)
  next
    case (Some s)
    show ?thesis
    proof (cases "is_terminal (sl_state s)")
      case True
      with Some show ?thesis by (simp add: slot_reply_err_twice)
    next
      case False
      have "keeps (sys_inv :: 'm world \<Rightarrow> bool) (mod_slot a (replied_slot err (w_clock w)))"
        by (rule keeps_mod_slot) (simp add: replied_slot_def slot_coherent_def)
      from keepsD [OF this i] Some False show ?thesis by (simp add: slot_reply_err_ok)
    qed
  qed
qed

lemma keeps_slot_ops [keeps_rules]:
  "keeps sys_inv (slot_reply_val a v)" "keeps sys_inv (slot_wait a)" "keeps sys_inv (slot_poll a)"
  "keeps sys_inv (slot_get_ptr a r)" "keeps sys_inv (slot_value a)" "keeps sys_inv (slot_rec a)"
proof -
  have w: "keeps sys_inv (slot_wait a)"
    unfolding slot_wait_def by (intro keeps_rules keeps_mod_slot) simp
  show "keeps sys_inv (slot_reply_val a v)"
    unfolding slot_reply_val_def by (intro keeps_rules keeps_mod_slot) simp
  show "keeps sys_inv (slot_wait a)" by (fact w)
  show "keeps sys_inv (slot_poll a)" "keeps sys_inv (slot_value a)" "keeps sys_inv (slot_rec a)" "keeps sys_inv (slot_get_ptr a r)"
    unfolding slot_poll_def slot_value_def slot_rec_def slot_get_ptr_def by (intro keeps_rules w)+
qed

lemma keeps_slot_wait_for [keeps_rules]: "keeps (sys_inv :: 'm world \<Rightarrow> bool) (slot_wait_for a t)"
proof -
  have "good_end sys_inv (\<lambda>_. True) (timed_lock_loop a d w es)" if "sys_inv w" "rely sys_inv es" for w :: "'m world" and es d
    using that by (induction es arbitrary: w) auto
  then have "keeps (sys_inv :: 'm world \<Rightarrow> bool) (\<lambda>(w, es). timed_lock_loop a (make_ptime (w_clock w) t) w es)" by (intro keepsI) simp
  then show ?thesis
    unfolding slot_wait_for_def by (intro keeps_rules)
qed

section \<open>The C interface\<close>

lemma keeps_requests [keeps_rules]:
  assumes "boost_ok B"
  shows "keeps sys_inv (send_api_request B t args)" "keeps sys_inv (send_fsm_request B t args)"
    "keeps sys_inv (make_error_request B err t args)"
proof -
  have e: "keeps sys_inv (mod_slot a (\<lambda>s. s\<lparr>sl_error := RAFT_E_IN_SHUTDOWN, sl_state := Error\<rparr>))"
    "keeps sys_inv (mod_slot a (\<lambda>s. s\<lparr>sl_timings := f s\<rparr>))" for a f
    by (rule keeps_mod_slot; simp)+
  show "keeps sys_inv (send_api_request B t args)" "keeps sys_inv (send_fsm_request B t args)"
    unfolding send_api_request_def send_fsm_request_def send_request_def fst_conv snd_conv
    by (intro keeps_rules keeps_alloc_request assms e)+
  show "keeps sys_inv (make_error_request B err t args)"
  proof (cases "err = RAFT_SUCCESS")
    case True
    then show ?thesis by (intro keepsI) (simp add: make_error_request_def)
  next
    case False
    then have "keeps sys_inv (mod_slot a (\<lambda>s. s\<lparr>sl_error := err, sl_state := Error\<rparr>))" for a
      by (intro keeps_mod_slot) simp
    then show ?thesis
      unfolding make_error_request_def by (intro keeps_rules keeps_alloc_request assms)
  qed
qed

lemma keeps_futures [keeps_rules]:
  "keeps sys_inv (raft_future_wait f)" "keeps sys_inv (raft_future_poll f)" "keeps sys_inv (raft_future_wait_for f t)"
  "keeps sys_inv (raft_future_get_fsm_reply f r)" "keeps sys_inv (future_get f r)" "keeps sys_inv (raft_future_get_stats B f r)"
  "keeps sys_inv (future_get_f f)" "keeps sys_inv (raft_future_dispose f)" "keeps sys_inv (future_eat f r)"
proof -
  have p: "keeps sys_inv (print_op f)"
    unfolding print_op_def by (intro keeps_rules) simp_all
  have w: "keeps sys_inv (raft_future_wait f)"
    unfolding raft_future_wait_def by (intro keeps_rules p)
  have g: "keeps sys_inv (future_get f r)" for r
    unfolding future_get_def future_state_def by (intro keeps_rules w)
  show "keeps sys_inv (raft_future_wait f)" "keeps sys_inv (future_get f r)" by (fact w g)+
  show "keeps sys_inv (raft_future_poll f)" "keeps sys_inv (raft_future_wait_for f t)"
    "keeps sys_inv (raft_future_get_fsm_reply f r)" "keeps sys_inv (raft_future_get_stats B f r)"
    "keeps sys_inv (future_get_f f)" "keeps sys_inv (raft_future_dispose f)" "keeps sys_inv (future_eat f r)"
    unfolding raft_future_poll_def raft_future_wait_for_def raft_future_get_fsm_reply_def raft_future_get_stats_def
      future_get_f_def raft_future_dispose_def future_eat_def future_tag_def future_state_def
    by (intro keeps_rules w g)+
qed

lemma keeps_calls [keeps_rules]:
  assumes "boost_ok B"
  shows "keeps sys_inv (raft_apply B c l t)" "keeps sys_inv (raft_apply_sync B c l t r)" "keeps sys_inv (raft_barrier B t)"
    "keeps sys_inv (raft_verify_leader B)" "keeps sys_inv (raft_state B)" "keeps sys_inv (raft_last_contact B)"
    "keeps sys_inv (raft_last_index B)" "keeps sys_inv (raft_leader B r)" "keeps sys_inv (raft_snapshot B)"
    "keeps sys_inv (raft_add_peer B h p)" "keeps sys_inv (raft_remove_peer B h p)" "keeps sys_inv (raft_stats B)"
    "keeps sys_inv (raft_shutdown B)" "keeps sys_inv raft_is_leader"
proof -
  have a: "keeps sys_inv (raft_apply B c l t)"
    unfolding raft_apply_def by (intro keeps_rules assms)
  show "keeps sys_inv (raft_apply B c l t)" by (fact a)
  show "keeps sys_inv (raft_shutdown B)"
    unfolding raft_shutdown_def by (intro keeps_rules assms) simp_all
  show "keeps sys_inv (raft_apply_sync B c l t r)" "keeps sys_inv (raft_barrier B t)"
    "keeps sys_inv (raft_verify_leader B)" "keeps sys_inv (raft_state B)" "keeps sys_inv (raft_last_contact B)"
    "keeps sys_inv (raft_last_index B)" "keeps sys_inv (raft_leader B r)" "keeps sys_inv (raft_snapshot B)"
    "keeps sys_inv (raft_add_peer B h p)" "keeps sys_inv (raft_remove_peer B h p)" "keeps sys_inv (raft_stats B)"
    "keeps sys_inv raft_is_leader"
    unfolding raft_apply_sync_def raft_barrier_def raft_verify_leader_def raft_state_def raft_last_contact_def
      raft_last_index_def raft_leader_def raft_snapshot_def raft_add_peer_def raft_remove_peer_def raft_stats_def raft_is_leader_def
    by (intro keeps_rules a assms)+
qed

section \<open>Threads\<close>

lemma keeps_gc [keeps_rules]: "keeps sys_inv (run_orphan_gc ls)"
proof -
  have d: "keeps sys_inv (try_dispose_orphan a)" for a
    unfolding try_dispose_orphan_def by (intro keeps_rules)
  have s: "keeps sys_inv (scan_loop kept as)" for kept as
    by (induction kept as rule: scan_loop.induct) (simp_all only: scan_loop.simps, (intro keeps_rules d; simp)+)
  have t: "keeps sys_inv (orphan_gc_turn l n)" for l n
    unfolding orphan_gc_turn_def scan_orphans_def by (intro keeps_rules d s) simp_all
  have "keeps sys_inv (orphan_gc_loop ls n)" for n
    by (induction ls arbitrary: n) (simp_all only: orphan_gc_loop.simps, (intro keeps_rules t; assumption?)+)
  then show ?thesis
    unfolding run_orphan_gc_def by (intro keeps_rules) simp_all
qed

text \<open>The callbacks of the state machine have to keep the invariant.\<close>

definition fsm_keeps :: "'m RaftFSM \<Rightarrow> bool" where
  "fsm_keeps fsm \<longleftrightarrow> (\<forall>i t y b l. keeps sys_inv (fsm_apply fsm i t y b l)) \<and>
     (\<forall>p a. keeps sys_inv (fsm_begin_snapshot fsm p a)) \<and> (\<forall>p. keeps sys_inv (fsm_restore fsm p))"

lemma keeps_args [keeps_rules]: "keeps sys_inv (log_args a)" "keeps sys_inv (path_args a)"
  unfolding log_args_def path_args_def
  by (rule keeps_rules; (rule keeps_rules)?; simp add: keeps_basic keeps_case_option split: call_args.split)+

lemma keeps_fsm_worker:
  assumes "fsm_keeps fsm"
  shows "keeps sys_inv (run_fsm_worker B fsm n)"
proof -
  have f: "keeps sys_inv (fsm_apply fsm i t y b l)" "keeps sys_inv (fsm_begin_snapshot fsm p a)" "keeps sys_inv (fsm_restore fsm p)" for i t y b l p a
    using assms by (simp_all add: fsm_keeps_def)
  have c: "keeps sys_inv (mod_slot a (\<lambda>s. s\<lparr>sl_state := Dispatched\<rparr>))" for a
    by (rule keeps_mod_slot) simp
  have a1: "keeps sys_inv (dispatch_fsm_apply_cmd B fsm a)" for a
    unfolding dispatch_fsm_apply_cmd_def by (intro keeps_rules f c)
  have a: "keeps sys_inv (dispatch_fsm_apply B fsm a)" for a
    unfolding dispatch_fsm_apply_def by (rule keeps_bind [OF keeps_args(1)]) (simp add: a1 keeps_basic split: RaftLogType.split)
  have s: "keeps sys_inv (dispatch_fsm_snapshot fsm a)" "keeps sys_inv (dispatch_fsm_restore fsm a)" for a
    unfolding dispatch_fsm_snapshot_def dispatch_fsm_restore_def by (intro keeps_rules f)+
  have k: "keeps sys_inv (case tag of Tag_FSMApply \<Rightarrow> m1 | Tag_FSMSnapshot \<Rightarrow> m2 | Tag_FSMRestore \<Rightarrow> m3 | _ \<Rightarrow> m4)"
    if "keeps sys_inv m1" "keeps sys_inv m2" "keeps sys_inv m3" "keeps sys_inv m4" for tag and m1 m2 m3 m4 :: "('a, unit) wop"
    using that by (simp split: CallTag.split)
  have "keeps sys_inv (fsm_worker_step B fsm)"
    unfolding fsm_worker_step_def by (intro keeps_rules k a s)
  then have "keeps sys_inv (fsm_worker_loop B fsm n)"
    by (induction n) (simp_all add: keeps_basic keeps_then)
  then show ?thesis
    unfolding run_fsm_worker_def by (intro keeps_rules)
qed

lemma keeps_snapshots [keeps_rules]:
  "keeps sys_inv (raft_fsm_snapshot_complete a b)" "keeps sys_inv (raft_fsm_take_snapshot a h f)"
  unfolding raft_fsm_snapshot_complete_def raft_fsm_take_snapshot_def
  by (intro keeps_rules; simp)+

lemma keeps_snapshot_worker:
  assumes "\<And>f h. keeps sys_inv (F f h)"
  shows "keeps sys_inv (run_snapshot_worker F ls)"
proof -
  have j: "keeps sys_inv (run_snapshot_job F ok c job)" for ok c job
    unfolding run_snapshot_job_def by (intro keeps_rules assms) simp_all
  have "keeps sys_inv (snapshot_worker_loop F ls)"
  proof (induction ls)
    case (Cons l ls)
    then show ?case by (cases l) (simp only: snapshot_worker_loop.simps, intro keeps_rules j)
  qed (simp only: snapshot_worker_loop.simps keeps_basic)
  then show ?thesis
    unfolding run_snapshot_worker_def by (intro keeps_rules)
qed

lemma keeps_watcher [keeps_rules]: "keeps sys_inv (watch_raft_proc rs)"
proof (induction rs rule: watch_raft_proc.induct)
  case (2 pid status rs)
  then show ?case
    by (cases "report_process_status status") (simp_all add: keeps_basic keeps_then keeps_bind)
qed (simp only: watch_raft_proc.simps keeps_basic)

lemma keeps_lifecycle [keeps_rules]: "keeps sys_inv raft_cleanup" "keeps sys_inv (kill_raft rc)"
proof -
  have j: "keeps sys_inv (join_op T_fsm_worker (\<lambda>w. w\<lparr>w_fsm_worker := False\<rparr>))"
    "keeps sys_inv (join_op T_snapshot_worker (\<lambda>w. w\<lparr>w_snapshot_worker := False\<rparr>))"
    "keeps sys_inv (join_op T_orphan_gc (\<lambda>w. w\<lparr>w_orphan_gc_thread := False\<rparr>))"
    "keeps sys_inv (join_op T_raft_watcher (\<lambda>w. w\<lparr>w_raft_watcher := False\<rparr>))"
    unfolding join_op_def by (intro keeps_rules; simp)+
  show "keeps sys_inv raft_cleanup"
    unfolding raft_cleanup_def shm_cleanup_def by (intro keeps_rules j) simp_all
  show "keeps sys_inv (kill_raft rc)"
    unfolding kill_raft_def by (intro keeps_rules) simp_all
qed

section \<open>The example client\<close>

lemma keeps_set_fsm [keeps_rules]: "keeps sys_inv (set_fsm f)"
  unfolding set_fsm_def by (intro keeps_rules) simp_all

lemma fsm_def_keeps: "fsm_keeps (fsm_def mal c)"
proof -
  have u: "keeps sys_inv (update_count mal b l)" for b l
    unfolding update_count_def by (intro keeps_rules)
  have s: "keeps sys_inv (FSMBeginSnapshot mal p a)" for p a
    unfolding FSMBeginSnapshot_def by (intro keeps_rules)
  have r: "keeps sys_inv (FSMRestore c p)" for p
    unfolding FSMRestore_def by (intro keeps_rules)
  from u s r show ?thesis by (simp add: fsm_keeps_def fsm_def_def FSMApply_def)
qed

lemma snapshot_funcs_keep: "keeps sys_inv (snapshot_funcs b f h)"
  unfolding snapshot_funcs_def write_snapshot_def by (simp add: keeps_basic) (intro impI keeps_rules)

lemma keeps_fill_buf [keeps_rules]: "keeps sys_inv (fill_buf buf f)"
proof (rule keepsI)
  fix w :: "client_mem world" and es :: "client_mem world sched" assume i: "sys_inv w" "rely sys_inv es"
  show "good_end sys_inv (\<lambda>_. True) (fill_buf buf f (w, es))"
  proof (cases "w_bufs w buf")
    case (Some b)
    then have "accounted (w\<lparr>w_bufs := (w_bufs w)(buf \<mapsto> f b)\<rparr>)"
      using i dom_update_same [of "w_bufs w" buf b "f b"] by (auto simp: sys_inv_def accounted_def simp del: dom_fun_upd)
    with Some i show ?thesis by (simp add: fill_buf_def sys_inv_def)
  qed (simp add: fill_buf_def)
qed

lemma keeps_commands:
  assumes "boost_ok B"
  shows "keeps sys_inv (run_auto B)" and "keeps sys_inv (run_interactive B lines)"
proof -
  have c: "keeps sys_inv (show_count f)" for f
    unfolding show_count_def Let_def by (intro keeps_rules)
  have s: "keeps sys_inv (send_command B buf)" if "buf \<noteq> 0" for buf
    unfolding send_command_def free_raft_buffer_def by (intro keeps_rules assms c keeps_free_buf that)
  have t: "keeps sys_inv (take_snapshot B)"
    unfolding take_snapshot_def by (intro keeps_rules assms)
  have b: "keeps sys_inv (bind_op (alloc_raft_buffer B n) k)" if "\<And>buf. buf \<noteq> 0 \<Longrightarrow> keeps sys_inv (k buf)"
    for n and k :: "addr \<Rightarrow> (client_mem, 'x) wop"
    unfolding keeps_def alloc_raft_buffer_def
    by (rule keeps_bind_res [OF keeps_allocate_buf [OF assms]]) (use that in \<open>simp add: keeps_def\<close>)
  have a: "keeps sys_inv (auto_step B i)" for i
    unfolding auto_step_def by (intro b keeps_rules s t)
  have "keeps sys_inv (auto_loop B js)" for js
    by (induction js) (simp_all only: auto_loop.simps, (intro keeps_rules a; assumption?)+)
  then show "keeps sys_inv (run_auto B)"
    unfolding run_auto_def by (intro keeps_rules)
  show "keeps sys_inv (run_interactive B lines)"
    by (induction lines) (simp_all only: run_interactive.simps Let_def, (intro b keeps_rules s t; assumption?)+)
qed

end
