(* ===== verification/System.thy ===== *)
theory System
  imports Sys_Inv
begin

text \<open>
  The two processes together. \<open>sys_op\<close> lists what can run: the calls of the C interface, the threads of
  the client process, and what the Raft process does to the shared segment. \<open>sys_step\<close> runs one of
  them, where everything that happens while it waits is again made of such steps.
\<close>

section \<open>Steps of the system\<close>

definition void :: "('m, 'a) wop \<Rightarrow> ('m, unit) wop" where
  "void m = then_op m (ret_op ())"

text \<open>What can run: first the C interface, then the threads and the main loops of the example client,
  then the Raft process, which takes requests, replies to calls, sends calls of its own, uses
  buffers and sets the flags of the scoreboard. A null pointer is never passed to
  \<^verbatim>\<open>free_raft_buffer\<close>.\<close>

inductive sys_op :: "client_mem boost \<Rightarrow> malloc \<Rightarrow> (client_mem, unit) wop \<Rightarrow> bool" for B mal where
  op_apply: "sys_op B mal (void (raft_apply B c l t))"
| op_apply_sync: "sys_op B mal (void (raft_apply_sync B c l t r))"
| op_barrier: "sys_op B mal (void (raft_barrier B t))"
| op_verify_leader: "sys_op B mal (void (raft_verify_leader B))"
| op_state: "sys_op B mal (void (raft_state B))"
| op_last_contact: "sys_op B mal (void (raft_last_contact B))"
| op_last_index: "sys_op B mal (void (raft_last_index B))"
| op_leader: "sys_op B mal (void (raft_leader B r))"
| op_snapshot: "sys_op B mal (void (raft_snapshot B))"
| op_add_peer: "sys_op B mal (void (raft_add_peer B h p))"
| op_remove_peer: "sys_op B mal (void (raft_remove_peer B h p))"
| op_stats: "sys_op B mal (void (raft_stats B))"
| op_shutdown: "sys_op B mal (void (raft_shutdown B))"
| op_wait: "sys_op B mal (void (raft_future_wait f))"
| op_poll: "sys_op B mal (void (raft_future_poll f))"
| op_wait_for: "sys_op B mal (void (raft_future_wait_for f t))"
| op_get_reply: "sys_op B mal (void (raft_future_get_fsm_reply f r))"
| op_get_stats: "sys_op B mal (void (raft_future_get_stats B f r))"
| op_dispose: "sys_op B mal (raft_future_dispose f)"
| op_alloc: "sys_op B mal (void (alloc_raft_buffer B n))"
| op_free: "buf \<noteq> 0 \<Longrightarrow> sys_op B mal (free_raft_buffer buf)"
| op_write: "sys_op B mal (fill_buf buf f)"
| op_cleanup: "sys_op B mal raft_cleanup"
| op_kill: "sys_op B mal (void (kill_raft rc))"
| op_gc: "sys_op B mal (void (run_orphan_gc ls))"
| op_fsm_worker: "sys_op B mal (void (run_fsm_worker B (fsm_def mal close_ok) n))"
| op_snapshot_worker: "sys_op B mal (void (run_snapshot_worker (snapshot_funcs print_ok) oks))"
| op_watcher: "sys_op B mal (void (watch_raft_proc rs))"
| op_auto: "sys_op B mal (void (run_auto B))"
| op_interactive: "sys_op B mal (run_interactive B lines)"
| op_take: "sys_op B mal (void (abq_take CALLQUEUE_CAPACITY w_api_queue w_api_queue_update))"
| op_reply: "sys_op B mal (then_op (lock_op a) (finally_op (slot_reply_err a err) (unlock_op a)))"
| op_reply_val: "sys_op B mal (then_op (lock_op a) (finally_op (slot_reply_val a v) (unlock_op a)))"
| op_fsm_call: "sys_op B mal (void (send_fsm_request B tag args))"
| op_flags: "sys_op B mal (modify_op (\<lambda>w. w\<lparr>w_is_raft_running := run, w_is_leader := ldr\<rparr>))"

text \<open>The state in which a call returns, ends with the exception of a closed queue, or is blocked.\<close>

fun ends :: "('a, 's \<times> 's sched) outcome \<Rightarrow> 's \<Rightarrow> bool" where
  "ends (Ret a (s, es)) t \<longleftrightarrow> t = s"
| "ends (Throw x (s, es)) t \<longleftrightarrow> x = Queue_closed \<and> t = s"
| "ends (Blocked (s, es)) t \<longleftrightarrow> t = s"
| "ends (Fail e) t \<longleftrightarrow> False"

inductive sys_step :: "client_mem boost \<Rightarrow> malloc \<Rightarrow> client_mem world \<Rightarrow> client_mem world \<Rightarrow> bool" for B mal where
  runs: "sys_op B mal m \<Longrightarrow> (\<And>e v. e \<in> set es \<Longrightarrow> sys_step B mal v (e v)) \<Longrightarrow> ends (m (w, es)) w' \<Longrightarrow> sys_step B mal w w'"
| ticks: "sys_step B mal w (w\<lparr>w_clock := max t (w_clock w)\<rparr>)"
| ends_thread: "sys_step B mal w (finish thr w)"

text \<open>The system starts where \<^verbatim>\<open>raft_init\<close> waits for the Raft process.\<close>

definition sys_start :: "client_mem boost \<Rightarrow> client_mem world \<Rightarrow> bool" where
  "sys_start B w \<longleftrightarrow> boost_ok B \<and> (\<exists>E mem cfg w0 base path. env_good E \<and> ie_map E = Some (base, zero_image) \<and> base \<noteq> 0 \<and>
     threads_stopped w0 \<and> cstr (cfg_shm_path cfg) = Some path \<and> raft_init E mem (Some cfg) (w0, []) = Blocked (w, []))"

lemma keeps_void: "keeps I m \<Longrightarrow> keeps I (void m)"
  unfolding void_def by (intro keeps_rules)

lemma sys_op_keeps: "sys_op B mal m \<Longrightarrow> boost_ok B \<Longrightarrow> keeps sys_inv m"
  by (induction rule: sys_op.induct)
    (auto intro!: keeps_void keeps_calls keeps_futures keeps_commands keeps_requests keeps_free_buf keeps_fill_buf keeps_lifecycle
      keeps_gc keeps_fsm_worker fsm_def_keeps keeps_snapshot_worker snapshot_funcs_keep keeps_watcher keeps_queues
      keeps_then keeps_lock_op keeps_finally keeps_slot_reply_err keeps_slot_ops keeps_frame
      keeps_res_keeps [OF keeps_allocate_buf] simp: alloc_raft_buffer_def free_raft_buffer_def)

lemma ends_good: "ends r w \<Longrightarrow> good_end I Q r \<Longrightarrow> I w"
  by (induction r w rule: ends.induct) auto

lemma sys_step_keeps: "sys_step B mal w w' \<Longrightarrow> boost_ok B \<Longrightarrow> sys_inv w \<Longrightarrow> sys_inv w'"
proof (induction rule: sys_step.induct)
  case (runs m es w w')
  then have "rely sys_inv es" by (auto simp: rely_def)
  with runs sys_op_keeps [of B mal m] show ?case by (blast intro: ends_good keepsD)
qed (auto simp: finish_def elim!: sys_inv_frame [rotated -1])

lemma sys_start_inv: "sys_start B w \<Longrightarrow> sys_inv w"
proof -
  assume "sys_start B w"
  then obtain E mem cfg w0 base path where e: "env_good E" "ie_map E = Some (base, zero_image)" "base \<noteq> 0"
    "threads_stopped w0" "cstr (cfg_shm_path cfg) = Some path" "raft_init E mem (Some cfg) (w0, []) = Blocked (w, [])"
    by (auto simp: sys_start_def)
  have "\<not> w_is_raft_running (init_world E cfg path base w0)" by (simp add: init_world_def)
  with e(6) raft_init_runs [OF e(1,2,4,5), of mem "[]"] have "w = init_world E cfg path base w0"
    by (simp add: wait_for_raft_def await_op_stuck)
  with e(3) show ?thesis
    by (simp add: sys_inv_def accounted_def init_world_def abq_zeroed_wf)
qed

interpretation sys: inductive_invariant "sys_start B" "sys_step B mal" "\<lambda>w. boost_ok B \<and> sys_inv w" for B mal
proof
  show "boost_ok B \<and> sys_inv w" if "sys_start B w" for w
    using that sys_start_inv [OF that] by (simp add: sys_start_def)
  show "boost_ok B \<and> sys_inv t" if "boost_ok B \<and> sys_inv s" "sys_step B mal s t" for s t
    using that sys_step_keeps by blast
qed

section \<open>The counters tell the truth\<close>

lemma card_zero_iff:
  fixes m :: "addr \<Rightarrow> 'b option"
  assumes "m 0 = None"
  shows "(of_nat (card (dom m)) :: u64) = 0 \<longleftrightarrow> m = Map.empty"
proof -
  have "dom m \<subset> UNIV" using assms by blast
  then have "card (dom m) < CARD(addr)" by (intro psubset_card_mono) simp_all
  then have "unat (of_nat (card (dom m)) :: u64) = card (dom m)"
    by (simp add: card_word unat_of_nat [where 'a = 64])
  then have "(of_nat (card (dom m)) :: u64) = 0 \<longleftrightarrow> card (dom m) = 0" by (metis unat_eq_0)
  then show ?thesis by simp
qed

lemma accounted_iff:
  assumes "accounted w"
  shows "call_alloc (w_stats w) = call_free (w_stats w) \<longleftrightarrow> w_slots w = Map.empty"
    and "buffer_alloc (w_stats w) = buffer_free (w_stats w) \<longleftrightarrow> w_bufs w = Map.empty"
  using assms card_zero_iff [of "w_slots w"] card_zero_iff [of "w_bufs w"] unfolding accounted_def
  by (metis diff_self eq_iff_diff_eq_0)+


lemma alloc_step:
  assumes "bo_allocate B w n = Some a"
  shows "\<exists>w'. sys_step B mal w w' \<and> w_bufs w' a \<noteq> None"
proof -
  have "ends (void (alloc_raft_buffer B n) (w, [])) (w\<lparr>w_bufs := (w_bufs w)(a \<mapsto> garbage (unat n) w),
      w_stats := (w_stats w)\<lparr>buffer_alloc := buffer_alloc (w_stats w) + 1\<rparr>\<rparr>)"
    by (simp add: void_def alloc_raft_buffer_def allocate_buf_Some [OF assms])
  then have "sys_step B mal w (w\<lparr>w_bufs := (w_bufs w)(a \<mapsto> garbage (unat n) w),
      w_stats := (w_stats w)\<lparr>buffer_alloc := buffer_alloc (w_stats w) + 1\<rparr>\<rparr>)"
    by (rule sys_step.runs [OF sys_op.op_alloc, rotated]) simp
  moreover have "w_bufs (w\<lparr>w_bufs := (w_bufs w)(a \<mapsto> x), w_stats := st\<rparr>) a \<noteq> None" for x st by simp
  ultimately show ?thesis by blast
qed


text \<open>Two things make the counters drift, which is why the system excludes them: an allocation that
  fails has been counted before it failed, and freeing a null pointer counts as a free.\<close>

lemma failed_request_is_counted:
  "bo_allocate_one B (w\<lparr>w_stats := (w_stats w)\<lparr>call_alloc := call_alloc (w_stats w) + 1\<rparr>\<rparr>) = None \<Longrightarrow>
   alloc_request B t args (w, es) = Throw Bad_alloc (w\<lparr>w_stats := (w_stats w)\<lparr>call_alloc := call_alloc (w_stats w) + 1\<rparr>\<rparr>, es)"
  by (simp add: alloc_request_def)

lemma freeing_null_is_counted:
  "free_raft_buffer 0 (w, es) = Ret () (w\<lparr>w_stats := (w_stats w)\<lparr>buffer_free := buffer_free (w_stats w) + 1\<rparr>\<rparr>, es)"
  by (simp add: free_raft_buffer_def free_buf_def shm_deallocate_def counter_inc_def)

end
