(* ===== verification/Call_Protocol.thy ===== *)
theory Call_Protocol
  imports C_If
begin

text \<open>
  The life of a call, from the request to the release of its slot. Three parties share a slot: the
  client, which holds the future; the Raft process, which takes the request from the queue, locks the
  slot, replies and unlocks it; and the collector. \<open>call_step\<close> lets each of them run the
  operations of the library, in any order, as long as it holds the call. \<open>spec_step\<close> is the protocol
  they are meant to follow, over what matters of a slot: its tag, whether it is answered, whether its
  mutex is held, and what the client knows. Every step of the code is a step of the protocol,
  and the protocol never frees a slot that a party still holds.
\<close>

section \<open>The protocol\<close>

record call_view =
  cv_tag :: CallTag
  cv_done :: bool
  cv_locked :: bool
  cv_client :: ClientState

text \<open>\<open>pr_client\<close> are the futures the client holds, \<open>pr_raft\<close> the requests that the Raft process has
  taken and not yet finished, \<open>pr_gc\<close> the orphans that the collector has taken from its queue.\<close>

record proto =
  pr_calls :: "addr \<Rightarrow> call_view option"
  pr_queue :: "(CallTag \<times> addr) list"
  pr_orphans :: "addr list"
  pr_client :: "addr set"
  pr_raft :: "addr set"
  pr_gc :: "addr set"

inductive spec_step :: "proto \<Rightarrow> proto \<Rightarrow> bool" where
  s_send: "pr_calls p a = None \<Longrightarrow> a \<noteq> 0 \<Longrightarrow>
     spec_step p (p\<lparr>pr_calls := (pr_calls p)(a \<mapsto> \<lparr>cv_tag = t, cv_done = False, cv_locked = False, cv_client = Issued\<rparr>),
       pr_queue := pr_queue p @ [(t, a)], pr_client := insert a (pr_client p)\<rparr>)"
| s_refuse: "pr_calls p a = None \<Longrightarrow> a \<noteq> 0 \<Longrightarrow>
     spec_step p (p\<lparr>pr_calls := (pr_calls p)(a \<mapsto> \<lparr>cv_tag = t, cv_done = True, cv_locked = False, cv_client = Issued\<rparr>),
       pr_client := insert a (pr_client p)\<rparr>)"
| s_observe: "a \<in> pr_client p \<Longrightarrow> pr_calls p a = Some c \<Longrightarrow> cv_done c \<Longrightarrow> \<not> cv_locked c \<Longrightarrow>
     spec_step p (p\<lparr>pr_calls := (pr_calls p)(a \<mapsto> c\<lparr>cv_client := Observed\<rparr>)\<rparr>)"
| s_abandon: "a \<in> pr_client p \<Longrightarrow> pr_calls p a = Some c \<Longrightarrow> cv_client c = Issued \<Longrightarrow>
     spec_step p (p\<lparr>pr_calls := (pr_calls p)(a \<mapsto> c\<lparr>cv_client := Abandoned\<rparr>),
       pr_orphans := pr_orphans p @ [a], pr_client := pr_client p - {a}\<rparr>)"
| s_release: "a \<in> pr_client p \<Longrightarrow> pr_calls p a = Some c \<Longrightarrow> cv_client c = Observed \<Longrightarrow>
     spec_step p (p\<lparr>pr_calls := (pr_calls p)(a := None), pr_client := pr_client p - {a}\<rparr>)"
| s_take: "pr_queue p = (t, a) # q \<Longrightarrow> spec_step p (p\<lparr>pr_queue := q, pr_raft := insert a (pr_raft p)\<rparr>)"
| s_lock: "a \<in> pr_raft p \<Longrightarrow> pr_calls p a = Some c \<Longrightarrow> \<not> cv_locked c \<Longrightarrow>
     spec_step p (p\<lparr>pr_calls := (pr_calls p)(a \<mapsto> c\<lparr>cv_locked := True\<rparr>)\<rparr>)"
| s_reply: "a \<in> pr_raft p \<Longrightarrow> pr_calls p a = Some c \<Longrightarrow> cv_locked c \<Longrightarrow> \<not> cv_done c \<Longrightarrow>
     spec_step p (p\<lparr>pr_calls := (pr_calls p)(a \<mapsto> c\<lparr>cv_done := True\<rparr>)\<rparr>)"
| s_unlock: "a \<in> pr_raft p \<Longrightarrow> pr_calls p a = Some c \<Longrightarrow> cv_locked c \<Longrightarrow> cv_done c \<Longrightarrow>
     spec_step p (p\<lparr>pr_calls := (pr_calls p)(a \<mapsto> c\<lparr>cv_locked := False\<rparr>), pr_raft := pr_raft p - {a}\<rparr>)"
| s_collect: "pr_orphans p = a # os \<Longrightarrow> spec_step p (p\<lparr>pr_orphans := os, pr_gc := insert a (pr_gc p)\<rparr>)"
| s_reap: "a \<in> pr_gc p \<Longrightarrow> pr_calls p a = Some c \<Longrightarrow> cv_done c \<Longrightarrow> \<not> cv_locked c \<Longrightarrow>
     spec_step p (p\<lparr>pr_calls := (pr_calls p)(a := None), pr_gc := pr_gc p - {a}\<rparr>)"
| s_skip: "spec_step p p"

text \<open>Every call is held by exactly one of the client and the collector; every unanswered call is in the
  queue or with the Raft process; only the Raft process holds a mutex across steps; what the client
  has observed is answered and unlocked.\<close>

definition held :: "proto \<Rightarrow> addr set" where
  "held p = set (pr_orphans p) \<union> pr_gc p"

definition queued :: "proto \<Rightarrow> addr set" where
  "queued p = snd ` set (pr_queue p)"

definition call_ok :: "proto \<Rightarrow> addr \<Rightarrow> call_view \<Rightarrow> bool" where
  "call_ok p a c \<longleftrightarrow> a \<noteq> 0 \<and> (cv_client c = Abandoned \<longleftrightarrow> a \<in> held p) \<and> (cv_client c \<noteq> Abandoned \<longleftrightarrow> a \<in> pr_client p) \<and>
     (a \<in> queued p \<union> pr_raft p \<longleftrightarrow> \<not> cv_done c \<or> cv_locked c) \<and> (cv_locked c \<longrightarrow> a \<in> pr_raft p) \<and>
     (cv_client c = Observed \<longrightarrow> cv_done c \<and> \<not> cv_locked c)"

definition proto_inv :: "proto \<Rightarrow> bool" where
  "proto_inv p \<longleftrightarrow> distinct (map snd (pr_queue p)) \<and> queued p \<inter> pr_raft p = {} \<and>
     distinct (pr_orphans p) \<and> set (pr_orphans p) \<inter> pr_gc p = {} \<and>
     pr_client p \<union> held p \<union> queued p \<union> pr_raft p \<subseteq> dom (pr_calls p) \<and>
     (\<forall>a c. pr_calls p a = Some c \<longrightarrow> call_ok p a c) \<and>
     (\<forall>t a c. (t, a) \<in> set (pr_queue p) \<longrightarrow> pr_calls p a = Some c \<longrightarrow> cv_tag c = t)"

lemma proto_invD:
  assumes "proto_inv p"
  shows "distinct (map snd (pr_queue p))" "queued p \<inter> pr_raft p = {}" "distinct (pr_orphans p)" "set (pr_orphans p) \<inter> pr_gc p = {}"
    "pr_calls p a = Some c \<Longrightarrow> call_ok p a c" "(t, a) \<in> set (pr_queue p) \<Longrightarrow> pr_calls p a = Some c \<Longrightarrow> cv_tag c = t"
    "a \<in> pr_client p \<union> held p \<union> queued p \<union> pr_raft p \<Longrightarrow> \<exists>c. pr_calls p a = Some c"
  using assms by (auto simp: proto_inv_def)

text \<open>A step that concerns one call.\<close>

lemma proto_inv_local:
  assumes inv: "proto_inv p" and calls: "pr_calls p' = (pr_calls p)(a := x)"
    and same: "\<And>b. b \<noteq> a \<Longrightarrow> (b \<in> held p' \<longleftrightarrow> b \<in> held p) \<and> (b \<in> pr_client p' \<longleftrightarrow> b \<in> pr_client p) \<and>
      (b \<in> queued p' \<longleftrightarrow> b \<in> queued p) \<and> (b \<in> pr_raft p' \<longleftrightarrow> b \<in> pr_raft p)"
    and lists: "distinct (map snd (pr_queue p'))" "queued p' \<inter> pr_raft p' = {}" "distinct (pr_orphans p')" "set (pr_orphans p') \<inter> pr_gc p' = {}"
    and tags: "\<And>t b. (t, b) \<in> set (pr_queue p') \<Longrightarrow> b \<noteq> a \<Longrightarrow> (t, b) \<in> set (pr_queue p)"
    and own: "\<And>c t. x = Some c \<Longrightarrow> call_ok p' a c \<and> ((t, a) \<in> set (pr_queue p') \<longrightarrow> cv_tag c = t)"
    and gone: "x = None \<Longrightarrow> a \<notin> pr_client p' \<union> held p' \<union> queued p' \<union> pr_raft p'"
  shows "proto_inv p'"
proof -
  have "call_ok p' b c" if "pr_calls p' b = Some c" for b c
  proof (cases "b = a")
    case True
    with that calls own show ?thesis by simp
  next
    case False
    with that calls have "call_ok p b c" by (simp add: proto_invD(5) [OF inv])
    with same [OF False] show ?thesis unfolding call_ok_def by blast
  qed
  moreover have "b \<in> dom (pr_calls p')" if "b \<in> pr_client p' \<union> held p' \<union> queued p' \<union> pr_raft p'" for b
  proof (cases "b = a")
    case True
    with that gone calls show ?thesis by (cases x) auto
  next
    case False
    with that same [OF False] proto_invD(7) [OF inv, of b] calls show ?thesis by auto
  qed
  moreover have "cv_tag c = t" if "(t, b) \<in> set (pr_queue p')" "pr_calls p' b = Some c" for t b c
  proof (cases "b = a")
    case True
    with that own calls show ?thesis by simp
  next
    case False
    with that tags calls show ?thesis by (simp add: proto_invD(6) [OF inv, of t b])
  qed
  ultimately show ?thesis
    using lists unfolding proto_inv_def by blast
qed

text \<open>A step of whoever holds a call, which leaves the queue alone.\<close>

lemma proto_inv_call:
  assumes inv: "proto_inv p" and call: "pr_calls p a = Some c" and calls: "pr_calls p' = (pr_calls p)(a := x)"
    and queue: "pr_queue p' = pr_queue p" and raft: "pr_raft p' = pr_raft p \<or> pr_raft p' = pr_raft p - {a}"
    and same: "pr_client p' - {a} = pr_client p - {a}" "held p' - {a} = held p - {a}"
    and lists: "call_ok p a c \<Longrightarrow> distinct (pr_orphans p')" "call_ok p a c \<Longrightarrow> set (pr_orphans p') \<inter> pr_gc p' = {}"
    and own: "\<And>d. x = Some d \<Longrightarrow> call_ok p a c \<Longrightarrow> call_ok p' a d \<and> cv_tag d = cv_tag c"
    and gone: "x = None \<Longrightarrow> call_ok p a c \<Longrightarrow> a \<notin> pr_client p' \<union> held p' \<union> queued p' \<union> pr_raft p'"
  shows "proto_inv p'"
proof -
  have ok: "call_ok p a c" by (rule proto_invD(5) [OF inv call])
  have q: "queued p' = queued p" using queue by (simp add: queued_def)
  show ?thesis
  proof (rule proto_inv_local [OF inv calls])
    show "queued p' \<inter> pr_raft p' = {}" using proto_invD(2) [OF inv] raft q by auto
    show "call_ok p' a d \<and> ((t, a) \<in> set (pr_queue p') \<longrightarrow> cv_tag d = t)" if "x = Some d" for d t
      using own [OF that ok] proto_invD(6) [OF inv _ call, of t] queue by auto
    show "a \<notin> pr_client p' \<union> held p' \<union> queued p' \<union> pr_raft p'" if "x = None" by (rule gone [OF that ok])
  qed (use raft same q queue proto_invD(1) [OF inv] lists [OF ok] in auto)
qed

lemma spec_step_inv: "spec_step p p' \<Longrightarrow> proto_inv p \<Longrightarrow> proto_inv p'"
proof (induction rule: spec_step.induct)
  case (s_send p a t)
  then have "a \<notin> pr_client p \<union> held p \<union> queued p \<union> pr_raft p" using proto_invD(7) by fastforce
  with s_send proto_invD(1-4) [OF s_send.prems] show ?case
    by (intro proto_inv_local [OF s_send.prems, where a = a]) (force simp: held_def queued_def call_ok_def)+
next
  case (s_refuse p a t)
  then have "a \<notin> pr_client p \<union> held p \<union> queued p \<union> pr_raft p" using proto_invD(7) by fastforce
  with s_refuse proto_invD(1-4) [OF s_refuse.prems] show ?case
    by (intro proto_inv_local [OF s_refuse.prems, where a = a]) (force simp: held_def queued_def call_ok_def)+
next
  case (s_observe a p c)
  with proto_invD(2-4) [OF s_observe.prems] show ?case
    by (intro proto_inv_call [OF s_observe.prems, where a = a]) (auto simp: call_ok_def held_def queued_def)
next
  case (s_abandon a p c)
  with proto_invD(2-4) [OF s_abandon.prems] show ?case
    by (intro proto_inv_call [OF s_abandon.prems, where a = a]) (auto simp: call_ok_def held_def queued_def)
next
  case (s_release a p c)
  with proto_invD(2-4) [OF s_release.prems] show ?case
    by (intro proto_inv_call [OF s_release.prems, where a = a]) (auto simp: call_ok_def held_def queued_def)
next
  case (s_lock a p c)
  with proto_invD(2-4) [OF s_lock.prems] show ?case
    by (intro proto_inv_call [OF s_lock.prems, where a = a]) (auto simp: call_ok_def held_def queued_def)
next
  case (s_reply a p c)
  with proto_invD(2-4) [OF s_reply.prems] show ?case
    by (intro proto_inv_call [OF s_reply.prems, where a = a]) (auto simp: call_ok_def held_def queued_def)
next
  case (s_unlock a p c)
  with proto_invD(2-4) [OF s_unlock.prems] show ?case
    by (intro proto_inv_call [OF s_unlock.prems, where a = a]) (auto simp: call_ok_def held_def queued_def)
next
  case (s_reap a p c)
  with proto_invD(2-4) [OF s_reap.prems] show ?case
    by (intro proto_inv_call [OF s_reap.prems, where a = a]) (auto simp: call_ok_def held_def queued_def)
next
  case (s_take p t a q)
  then obtain c where c: "pr_calls p a = Some c" using proto_invD(7) [OF s_take.prems, of a] by (auto simp: queued_def)
  note own = proto_invD(1-4) [OF s_take.prems] proto_invD(5) [OF s_take.prems c] proto_invD(6) [OF s_take.prems _ c]
  show ?case
    by (rule proto_inv_local [OF s_take.prems, where a = a and x = "Some c"])
      (use s_take.hyps c own(1-5) in \<open>(auto simp: held_def queued_def call_ok_def image_iff dest: own(6))\<close>)
next
  case (s_collect p a os)
  then obtain c where c: "pr_calls p a = Some c" using proto_invD(7) [OF s_collect.prems, of a] by (auto simp: held_def)
  note own = proto_invD(1-4) [OF s_collect.prems] proto_invD(5) [OF s_collect.prems c] proto_invD(6) [OF s_collect.prems _ c]
  show ?case
    by (rule proto_inv_local [OF s_collect.prems, where a = a and x = "Some c"])
      (use s_collect.hyps c own(1-5) in \<open>(auto simp: held_def queued_def call_ok_def image_iff dest: own(6))\<close>)
qed

section \<open>The code under the protocol\<close>

text \<open>The world together with what each party holds. The Raft process is not part of the repository; it
  is taken to follow the discipline that \<^verbatim>\<open>reply\<close> and \<^verbatim>\<open>wait\<close> rely on: it locks a slot it has taken,
  replies to it once under the lock, and lets it go with the unlock.\<close>

record 'm psys =
  ps_world :: "'m world"
  ps_client :: "addr set"
  ps_raft :: "addr set"
  ps_gc :: "addr set"

inductive api_call :: "'m boost \<Rightarrow> ('m, addr) wop \<Rightarrow> bool" for B where
  "api_call B (raft_apply B cmd len timeout)"
| "api_call B (raft_barrier B timeout)"
| "api_call B (raft_verify_leader B)"
| "api_call B (raft_snapshot B)"
| "api_call B (raft_add_peer B host port)"
| "api_call B (raft_remove_peer B host port)"
| "api_call B (raft_stats B)"
| "api_call B (raft_shutdown B)"

inductive call_step :: "'m boost \<Rightarrow> 'm psys \<Rightarrow> 'm psys \<Rightarrow> bool" for B where
  c_call: "api_call B m \<Longrightarrow> m (ps_world p, []) = Ret a (w, es) \<Longrightarrow>
     call_step B p (p\<lparr>ps_world := w, ps_client := insert a (ps_client p)\<rparr>)"
| c_wait: "a \<in> ps_client p \<Longrightarrow> raft_future_wait a (ps_world p, []) = Ret e (w, es) \<Longrightarrow> call_step B p (p\<lparr>ps_world := w\<rparr>)"
| c_wait_for: "a \<in> ps_client p \<Longrightarrow> raft_future_wait_for a ms (ps_world p, []) = Ret b (w, es) \<Longrightarrow> call_step B p (p\<lparr>ps_world := w\<rparr>)"
| c_reply: "a \<in> ps_client p \<Longrightarrow> raft_future_get_fsm_reply a res (ps_world p, []) = Ret r (w, es) \<Longrightarrow> call_step B p (p\<lparr>ps_world := w\<rparr>)"
| c_dispose: "a \<in> ps_client p \<Longrightarrow> raft_future_dispose a (ps_world p, []) = Ret u (w, es) \<Longrightarrow>
     call_step B p (p\<lparr>ps_world := w, ps_client := ps_client p - {a}\<rparr>)"
| r_take: "abq_take CALLQUEUE_CAPACITY w_api_queue w_api_queue_update (ps_world p, []) = Ret (t, a) (w, es) \<Longrightarrow>
     call_step B p (p\<lparr>ps_world := w, ps_raft := insert a (ps_raft p)\<rparr>)"
| r_lock: "a \<in> ps_raft p \<Longrightarrow> lock_op a (ps_world p, []) = Ret u (w, es) \<Longrightarrow> call_step B p (p\<lparr>ps_world := w\<rparr>)"
| r_reply: "a \<in> ps_raft p \<Longrightarrow> w_slots (ps_world p) a = Some s \<Longrightarrow> sl_owned s \<Longrightarrow> \<not> is_terminal (sl_state s) \<Longrightarrow>
     slot_reply_err a err (ps_world p, []) = Ret u (w, es) \<Longrightarrow> call_step B p (p\<lparr>ps_world := w\<rparr>)"
| r_reply_val: "a \<in> ps_raft p \<Longrightarrow> w_slots (ps_world p) a = Some s \<Longrightarrow> sl_owned s \<Longrightarrow> \<not> is_terminal (sl_state s) \<Longrightarrow>
     slot_reply_val a v (ps_world p, []) = Ret u (w, es) \<Longrightarrow> call_step B p (p\<lparr>ps_world := w\<rparr>)"
| r_unlock: "a \<in> ps_raft p \<Longrightarrow> w_slots (ps_world p) a = Some s \<Longrightarrow> sl_owned s \<Longrightarrow> is_terminal (sl_state s) \<Longrightarrow>
     unlock_op a (ps_world p, []) = Ret u (w, es) \<Longrightarrow> call_step B p (p\<lparr>ps_world := w, ps_raft := ps_raft p - {a}\<rparr>)"
| g_take: "deque_take w_orphaned_calls w_orphaned_calls_update (ps_world p, []) = Ret a (w, es) \<Longrightarrow>
     call_step B p (p\<lparr>ps_world := w, ps_gc := insert a (ps_gc p)\<rparr>)"
| g_try: "a \<in> ps_gc p \<Longrightarrow> try_dispose_orphan a (ps_world p, []) = Ret b (w, es) \<Longrightarrow>
     call_step B p (p\<lparr>ps_world := w, ps_gc := (if b then ps_gc p - {a} else ps_gc p)\<rparr>)"
| closes: "abq_close w_api_queue_update (ps_world p, []) = Ret u (w, es) \<Longrightarrow> call_step B p (p\<lparr>ps_world := w\<rparr>)"
| closes_orphans: "deque_close w_orphaned_calls_update (ps_world p, []) = Ret u (w, es) \<Longrightarrow> call_step B p (p\<lparr>ps_world := w\<rparr>)"
| elsewhere: "w_slots w = w_slots (ps_world p) \<Longrightarrow> w_api_queue w = w_api_queue (ps_world p) \<Longrightarrow>
     w_orphaned_calls w = w_orphaned_calls (ps_world p) \<Longrightarrow> call_step B p (p\<lparr>ps_world := w\<rparr>)"

definition view :: "slot \<Rightarrow> call_view" where
  "view s = \<lparr>cv_tag = sl_tag s, cv_done = is_terminal (sl_state s), cv_locked = sl_owned s, cv_client = sl_client_state s\<rparr>"

definition proto_of :: "'m psys \<Rightarrow> proto" where
  "proto_of p = \<lparr>pr_calls = (\<lambda>a. map_option view (w_slots (ps_world p) a)), pr_queue = abq_list (w_api_queue (ps_world p)),
     pr_orphans = d_items (w_orphaned_calls (ps_world p)), pr_client = ps_client p, pr_raft = ps_raft p, pr_gc = ps_gc p\<rparr>"

definition call_start :: "'m boost \<Rightarrow> 'm psys \<Rightarrow> bool" where
  "call_start B p \<longleftrightarrow> boost_ok B \<and> w_slots (ps_world p) = Map.empty \<and> abq_wf 8 (w_api_queue (ps_world p)) \<and>
     abq_list (w_api_queue (ps_world p)) = [] \<and> d_items (w_orphaned_calls (ps_world p)) = [] \<and>
     ps_client p = {} \<and> ps_raft p = {} \<and> ps_gc p = {}"

definition call_inv :: "'m boost \<Rightarrow> 'm psys \<Rightarrow> bool" where
  "call_inv B p \<longleftrightarrow> boost_ok B \<and> abq_wf 8 (w_api_queue (ps_world p)) \<and> proto_inv (proto_of p)"

section \<open>What each operation does to a call\<close>

text \<open>A request that was sent, or refused because the queue is closed or the command is invalid.\<close>

definition requested :: "'m world \<Rightarrow> addr \<Rightarrow> 'm world \<Rightarrow> bool" where
  "requested w a w' \<longleftrightarrow> a \<noteq> 0 \<and> w_slots w a = None \<and> w_orphaned_calls w' = w_orphaned_calls w \<and>
     (\<exists>s. w_slots w' = (w_slots w)(a \<mapsto> s) \<and> \<not> sl_owned s \<and> sl_client_state s = Issued \<and>
        (if is_terminal (sl_state s) then w_api_queue w' = w_api_queue w
         else abq_wf 8 (w_api_queue w') \<and> abq_list (w_api_queue w') = abq_list (w_api_queue w) @ [(sl_tag s, a)]))"

lemma send_requested:
  assumes B: "boost_ok B" and wf: "abq_wf 8 (w_api_queue w)" and r: "send_api_request B t args (w, []) = Ret a (w', es)"
  shows "requested w a w'"
proof -
  let ?aw = "bo_allocate_one B (call_counted w)"
  obtain b where b: "?aw = Some b"
    using r by (cases ?aw) (simp_all add: send_api_request_def send_request_def alloc_request_def call_counted_def bind_op_app)
  note al = boost_alloc_one [OF B b]
  consider "q_closed (w_api_queue w)" | "\<not> q_closed (w_api_queue w)" "q_count (w_api_queue w) = 8"
    | "\<not> q_closed (w_api_queue w)" "q_count (w_api_queue w) \<noteq> 8" by blast
  then show ?thesis
  proof cases
    case 1
    with r send_api_request_shut [OF b [unfolded call_counted_def], of t args "[]"] al show ?thesis
      by (auto simp: requested_def slot_made_def)
  next
    case 2
    with r send_api_request_full [OF b [unfolded call_counted_def], of t args] show ?thesis by simp
  next
    case 3
    with r wf send_api_request_open [OF b [unfolded call_counted_def], of t args "[]"] al abq_insert_wf [OF wf] show ?thesis
      by (auto simp: requested_def slot_made_def)
  qed
qed

lemma refused_requested:
  assumes B: "boost_ok B" and r: "make_error_request B err t args (w, []) = Ret a (w', es)"
  shows "requested w a w'"
proof -
  let ?aw = "bo_allocate_one B (call_counted w)"
  have e: "err \<noteq> RAFT_SUCCESS" using r by (auto simp: make_error_request_def bind_op_app)
  obtain b where b: "?aw = Some b"
    using r e by (cases ?aw) (simp_all add: make_error_request_def alloc_request_def call_counted_def bind_op_app)
  show ?thesis
    using r e b boost_alloc_one [OF B b]
    by (auto simp: make_error_request_def alloc_request_def call_counted_def requested_def mk_slot_def bind_op_app)
qed

lemma api_call_requested:
  "api_call B m \<Longrightarrow> boost_ok B \<Longrightarrow> abq_wf 8 (w_api_queue w) \<Longrightarrow> m (w, []) = Ret a (w', es) \<Longrightarrow> requested w a w'"
proof (induction rule: api_call.induct)
  case (1 cmd len timeout)
  then show ?case by (auto simp: raft_apply_def intro: send_requested refused_requested split: if_splits)
next
  case 8
  then have "requested (w\<lparr>w_shutdown_requested := True\<rparr>) a w'"
    by (auto simp: raft_shutdown_def intro!: send_requested)
  then show ?case by (simp add: requested_def cong: if_cong)
qed (auto simp: raft_barrier_def raft_verify_leader_def raft_snapshot_def raft_add_peer_def raft_remove_peer_def raft_stats_def
  intro: send_requested)

text \<open>The operations of a future in a state where nothing else runs meanwhile.\<close>

lemma wait_effect:
  assumes "w_slots w a = Some s"
  shows "raft_future_wait a (w, []) \<in> {Ret RAFT_E_INVALID_OP (w, []), Blocked (w, [])} \<or>
    raft_future_wait a (w, []) = Ret (sl_error s) (waited a s w, []) \<and> \<not> sl_owned s \<and> is_terminal (sl_state s)"
proof (cases "(a = 0 \<or> \<not> in_shm_bounds w a) \<or> sl_owned s \<or> \<not> is_terminal (sl_state s)")
  case True
  with assms show ?thesis by (auto simp: raft_future_wait_def slot_wait_blocked bind_op_app)
next
  case False
  with assms show ?thesis using raft_future_wait_ready [of a w s "[]"] by simp
qed

lemma wait_for_effect:
  "w_slots w a = Some s \<Longrightarrow>
   \<exists>b. raft_future_wait_for a ms (w, []) \<in> {Ret b (w, []), Blocked (w, [])}"
  by (auto simp: raft_future_wait_for_def slot_wait_for_def slot_poll_def bind_op_app)

lemma reply_effect:
  "w_slots w a = Some s \<Longrightarrow> a \<noteq> 0 \<Longrightarrow>
   \<exists>r. raft_future_get_fsm_reply a res (w, []) \<in> {Ret r (w, []), Blocked (w, [])}"
  by (auto simp: raft_future_get_fsm_reply_def future_tag_def slot_get_ptr_def slot_wait_blocked bind_op_app)

text \<open>What a step does besides the calls is of no concern: \<open>calls_to w m w'\<close> says that it leads from \<open>w\<close> to a
  state with the calls \<open>m\<close> and the same two queues.\<close>

definition calls_to :: "'m world \<Rightarrow> (addr \<Rightarrow> slot option) \<Rightarrow> 'm world \<Rightarrow> bool" where
  "calls_to w m w' \<longleftrightarrow> w_slots w' = m \<and> w_api_queue w' = w_api_queue w \<and> w_orphaned_calls w' = w_orphaned_calls w"

lemma orphan_cleanup_effect:
  "(\<exists>w'. orphan_cleanup args (w, es) = Ret () (w', es) \<and> calls_to w (w_slots w) w') \<or>
   (\<exists>b. orphan_cleanup args (w, es) = Fail (Double_free b))"
proof (cases args)
  case (Args_Apply aa)
  then show ?thesis
    by (auto simp: orphan_cleanup_def free_raft_buffer_def free_buf_def shm_deallocate_def bind_op_app calls_to_def split: option.split)
qed (simp_all add: orphan_cleanup_def calls_to_def)

lemma try_dispose_effect:
  assumes s: "w_slots w a = Some s" "a \<noteq> 0" "sl_client_state s = Abandoned"
  shows "(\<exists>w'. try_dispose_orphan a (w, es) = Ret False (w', es) \<and> calls_to w (w_slots w) w') \<or>
    (\<exists>w'. try_dispose_orphan a (w, es) = Ret True (w', es) \<and> calls_to w ((w_slots w)(a := None)) w' \<and>
      \<not> sl_owned s \<and> is_terminal (sl_state s)) \<or>
    (\<exists>b. try_dispose_orphan a (w, es) = Fail (Double_free b))"
proof (cases "slot_ready w a")
  case False
  have "is_orphan w a" using s by (simp add: is_orphan_def)
  with False have "try_dispose_orphan a (w, es) = Ret False (orphan_kept a w, es)" by (intro try_dispose_not_ready)
  then show ?thesis by (simp add: calls_to_def orphan_kept_def)
next
  case True
  with s have r: "\<not> sl_owned s" "is_terminal (sl_state s)" by (simp_all add: slot_ready_def)
  let ?locked = "w\<lparr>w_slots := (w_slots w)(a \<mapsto> s\<lparr>sl_owned := True\<rparr>), w_trace := w_trace w @ [Ev_lock a]\<rparr>"
  have d: "try_dispose_orphan a (w, es) = finally_op (then_op (slot_dispose a) (ret_op True)) (unlock_op a) (?locked, es)"
    using s r by (simp add: try_dispose_orphan_def lock_op_def await_op_ready slot_busy_def)
  show ?thesis
    using orphan_cleanup_effect [of "sl_args s" ?locked es] s r
    by (auto simp: d finally_op_def slot_dispose_def deallocate_one_def unlock_op_def calls_to_def bind_op_app)
qed

section \<open>Refinement\<close>

lemma call_inv_slot:
  assumes "call_inv B p" and "a \<in> ps_client p \<union> ps_raft p \<union> ps_gc p"
  obtains s where "w_slots (ps_world p) a = Some s" "a \<noteq> 0" "a \<in> ps_gc p \<longleftrightarrow> sl_client_state s = Abandoned \<and> a \<notin> set (d_items (w_orphaned_calls (ps_world p)))"
    "a \<in> ps_client p \<longleftrightarrow> sl_client_state s \<noteq> Abandoned"
proof -
  have inv: "proto_inv (proto_of p)" using assms by (simp add: call_inv_def)
  obtain c where c: "pr_calls (proto_of p) a = Some c"
    using proto_invD(7) [OF inv, of a] assms(2) by (auto simp: proto_of_def held_def)
  then obtain s where s: "w_slots (ps_world p) a = Some s" "c = view s" by (auto simp: proto_of_def)
  moreover have "call_ok (proto_of p) a (view s)" using proto_invD(5) [OF inv c] s by simp
  ultimately show thesis
    using that [of s] proto_invD(4) [OF inv] by (auto simp: call_ok_def proto_of_def view_def held_def)
qed

lemma proto_of_fields:
  "pr_calls (proto_of p) = map_option view \<circ> w_slots (ps_world p)" "pr_queue (proto_of p) = abq_list (w_api_queue (ps_world p))"
  "pr_orphans (proto_of p) = d_items (w_orphaned_calls (ps_world p))"
  "pr_client (proto_of p) = ps_client p" "pr_raft (proto_of p) = ps_raft p" "pr_gc (proto_of p) = ps_gc p"
  by (simp_all add: proto_of_def comp_def)

lemma proto_of_same:
  "w_slots w = w_slots (ps_world p) \<Longrightarrow> abq_list (w_api_queue w) = abq_list (w_api_queue (ps_world p)) \<Longrightarrow>
   d_items (w_orphaned_calls w) = d_items (w_orphaned_calls (ps_world p)) \<Longrightarrow> proto_of (p\<lparr>ps_world := w\<rparr>) = proto_of p"
  by (simp add: proto_of_def)

lemma abq_list_close [simp]: "abq_list (q\<lparr>q_closed := b\<rparr>) = abq_list q"
  by (simp add: abq_list_def)

lemma abq_wf_close [simp]: "abq_wf cap (q\<lparr>q_closed := b\<rparr>) = abq_wf cap q"
  by (simp add: abq_wf_def)

text \<open>Each step of the code is a step of the protocol: the calls, the futures, the Raft process, the
  collector.\<close>

definition refines :: "'m psys \<Rightarrow> 'm psys \<Rightarrow> bool" where
  "refines p p' \<longleftrightarrow> spec_step (proto_of p) (proto_of p') \<and> abq_wf 8 (w_api_queue (ps_world p'))"

lemma request_refines:
  assumes "call_inv B p" and r: "requested (ps_world p) a w"
  shows "refines p (p\<lparr>ps_world := w, ps_client := insert a (ps_client p)\<rparr>)"
proof -
  have wf: "abq_wf 8 (w_api_queue (ps_world p))" using assms by (simp add: call_inv_def)
  from r obtain s where s: "a \<noteq> 0" "w_slots (ps_world p) a = None" "w_slots w = (w_slots (ps_world p))(a \<mapsto> s)" "\<not> sl_owned s"
    "sl_client_state s = Issued" "w_orphaned_calls w = w_orphaned_calls (ps_world p)"
    and q: "if is_terminal (sl_state s) then w_api_queue w = w_api_queue (ps_world p)
       else abq_wf 8 (w_api_queue w) \<and> abq_list (w_api_queue w) = abq_list (w_api_queue (ps_world p)) @ [(sl_tag s, a)]"
    by (auto simp: requested_def)
  show ?thesis
  proof (cases "is_terminal (sl_state s)")
    case True
    with s q have "proto_of (p\<lparr>ps_world := w, ps_client := insert a (ps_client p)\<rparr>) = (proto_of p)\<lparr>pr_calls := (pr_calls (proto_of p))(a \<mapsto>
        \<lparr>cv_tag = sl_tag s, cv_done = True, cv_locked = False, cv_client = Issued\<rparr>), pr_client := insert a (pr_client (proto_of p))\<rparr>"
      by (auto simp: proto_of_def view_def fun_eq_iff)
    with True wf s q show ?thesis unfolding refines_def using spec_step.s_refuse [of "proto_of p" a "sl_tag s"] by (simp add: proto_of_fields)
  next
    case False
    with s q have "proto_of (p\<lparr>ps_world := w, ps_client := insert a (ps_client p)\<rparr>) = (proto_of p)\<lparr>pr_calls := (pr_calls (proto_of p))(a \<mapsto>
        \<lparr>cv_tag = sl_tag s, cv_done = False, cv_locked = False, cv_client = Issued\<rparr>), pr_queue := pr_queue (proto_of p) @ [(sl_tag s, a)],
        pr_client := insert a (pr_client (proto_of p))\<rparr>"
      by (auto simp: proto_of_def view_def fun_eq_iff)
    with False s q show ?thesis unfolding refines_def using spec_step.s_send [of "proto_of p" a "sl_tag s"] by (simp add: proto_of_fields)
  qed
qed

lemma wait_refines:
  assumes inv: "call_inv B p" and a: "a \<in> ps_client p" and r: "raft_future_wait a (ps_world p, []) = Ret e (w, es)"
  shows "refines p (p\<lparr>ps_world := w\<rparr>)"
proof -
  obtain s where s: "w_slots (ps_world p) a = Some s" using a inv by (auto elim: call_inv_slot)
  consider "w = ps_world p" | "w = waited a s (ps_world p)" "\<not> sl_owned s" "is_terminal (sl_state s)"
    using wait_effect [OF s] r by auto
  then show ?thesis
  proof cases
    case 1
    with inv show ?thesis unfolding refines_def by (simp add: spec_step.s_skip call_inv_def)
  next
    case 2
    then have eq: "proto_of (p\<lparr>ps_world := w\<rparr>) = (proto_of p)\<lparr>pr_calls := (pr_calls (proto_of p))(a \<mapsto> (view s)\<lparr>cv_client := Observed\<rparr>)\<rparr>"
      by (simp add: proto_of_def view_def waited_def fun_eq_iff)
    have "spec_step (proto_of p) (proto_of (p\<lparr>ps_world := w\<rparr>))"
      unfolding eq using 2 s a by (intro spec_step.s_observe) (simp_all add: proto_of_fields view_def)
    with 2 inv show ?thesis unfolding refines_def by (simp add: waited_def call_inv_def)
  qed
qed

lemma look_refines:
  assumes inv: "call_inv B p" and a: "a \<in> ps_client p"
    and r: "raft_future_wait_for a ms (ps_world p, []) = Ret b (w, es) \<or> raft_future_get_fsm_reply a res (ps_world p, []) = Ret v (w, es)"
  shows "refines p (p\<lparr>ps_world := w\<rparr>)"
proof -
  obtain s where s: "w_slots (ps_world p) a = Some s" "a \<noteq> 0" using a inv by (auto elim: call_inv_slot)
  with r wait_for_effect [OF s(1), of ms] reply_effect [OF s, of res] have "w = ps_world p" by auto
  with inv show ?thesis unfolding refines_def by (simp add: spec_step.s_skip call_inv_def)
qed

lemma dispose_refines:
  assumes inv: "call_inv B p" and a: "a \<in> ps_client p" and r: "raft_future_dispose a (ps_world p, []) = Ret u (w, es)"
  shows "refines p (p\<lparr>ps_world := w, ps_client := ps_client p - {a}\<rparr>)"
proof -
  obtain s where s: "w_slots (ps_world p) a = Some s" "sl_client_state s \<noteq> Abandoned" using a inv by (auto elim: call_inv_slot)
  have wf: "abq_wf 8 (w_api_queue (ps_world p))" using inv by (simp add: call_inv_def)
  show ?thesis
  proof (cases "sl_client_state s")
    case Issued
    with s r have w: "w = (ps_world p)\<lparr>w_slots := (w_slots (ps_world p))(a \<mapsto> s\<lparr>sl_client_state := Abandoned\<rparr>),
        w_orphaned_calls := deque_push a (w_orphaned_calls (ps_world p))\<rparr>"
      by (cases "d_closed (w_orphaned_calls (ps_world p))") (auto simp: raft_future_dispose_def slot_dispose_cases)
    then have "proto_of (p\<lparr>ps_world := w, ps_client := ps_client p - {a}\<rparr>) = (proto_of p)\<lparr>pr_calls := (pr_calls (proto_of p))(a \<mapsto>
        (view s)\<lparr>cv_client := Abandoned\<rparr>), pr_orphans := pr_orphans (proto_of p) @ [a], pr_client := pr_client (proto_of p) - {a}\<rparr>"
      by (simp add: proto_of_def view_def fun_eq_iff deque_push_def)
    with Issued s a w wf show ?thesis unfolding refines_def
      using spec_step.s_abandon [of a "proto_of p" "view s"] by (simp add: proto_of_fields view_def)
  next
    case Observed
    with s r have w: "w = slot_freed a (ps_world p)" by (auto simp: raft_future_dispose_def slot_dispose_cases)
    then have "proto_of (p\<lparr>ps_world := w, ps_client := ps_client p - {a}\<rparr>) =
        (proto_of p)\<lparr>pr_calls := (pr_calls (proto_of p))(a := None), pr_client := pr_client (proto_of p) - {a}\<rparr>"
      by (simp add: proto_of_def slot_freed_def fun_eq_iff)
    with Observed s a w wf show ?thesis unfolding refines_def
      using spec_step.s_release [of a "proto_of p" "view s"] by (simp add: proto_of_fields view_def slot_freed_def)
  qed (use s in simp)
qed

lemma take_effect:
  assumes "abq_wf 8 (w_api_queue w)"
    and "abq_take CALLQUEUE_CAPACITY w_api_queue w_api_queue_update (w, []) = Ret (t, a) (w', es)"
  shows "w' = w_api_queue_update (abq_remove 8) w" "abq_wf 8 (w_api_queue w')" "abq_list (w_api_queue w) = (t, a) # abq_list (w_api_queue w')"
proof -
  have q: "\<not> q_closed (w_api_queue w)" using assms(2) abq_take_shut [of w_api_queue w] by auto
  then have "q_count (w_api_queue w) \<noteq> 0" using assms(2) abq_take_empty [of w_api_queue w] by auto
  note q = q this
  with assms have w: "w' = w_api_queue_update (abq_remove 8) w" "abq_front (w_api_queue w) = (t, a)"
    by (auto simp: abq_take_open CALLQUEUE_CAPACITY_def)
  with abq_remove_wf [OF assms(1) q(2)] show "w' = w_api_queue_update (abq_remove 8) w" "abq_wf 8 (w_api_queue w')"
    "abq_list (w_api_queue w) = (t, a) # abq_list (w_api_queue w')" by simp_all
qed

lemma take_refines:
  assumes inv: "call_inv B p" and r: "abq_take CALLQUEUE_CAPACITY w_api_queue w_api_queue_update (ps_world p, []) = Ret (t, a) (w, es)"
  shows "refines p (p\<lparr>ps_world := w, ps_raft := insert a (ps_raft p)\<rparr>)"
proof -
  have "abq_wf 8 (w_api_queue (ps_world p))" using inv by (simp add: call_inv_def)
  note w = take_effect [OF this r]
  have "proto_of (p\<lparr>ps_world := w, ps_raft := insert a (ps_raft p)\<rparr>) =
      (proto_of p)\<lparr>pr_queue := abq_list (w_api_queue w), pr_raft := insert a (pr_raft (proto_of p))\<rparr>"
    by (simp add: w(1) proto_of_def)
  then show ?thesis unfolding refines_def using w(2,3) spec_step.s_take [of "proto_of p" t a "abq_list (w_api_queue w)"] by (simp add: proto_of_fields)
qed

lemma lock_refines:
  assumes inv: "call_inv B p" and a: "a \<in> ps_raft p" and r: "lock_op a (ps_world p, []) = Ret u (w, es)"
  shows "refines p (p\<lparr>ps_world := w\<rparr>)"
proof -
  obtain s where s: "w_slots (ps_world p) a = Some s" using a inv by (auto elim: call_inv_slot)
  have l: "\<not> sl_owned s" "calls_to (ps_world p) ((w_slots (ps_world p))(a \<mapsto> s\<lparr>sl_owned := True\<rparr>)) w"
    using s r by (cases "sl_owned s"; auto simp: lock_op_def await_op_ready await_op_stuck slot_busy_def calls_to_def bind_op_app)+
  then have eq: "proto_of (p\<lparr>ps_world := w\<rparr>) = (proto_of p)\<lparr>pr_calls := (pr_calls (proto_of p))(a \<mapsto> (view s)\<lparr>cv_locked := True\<rparr>)\<rparr>"
    by (simp add: proto_of_def view_def calls_to_def fun_eq_iff)
  have "spec_step (proto_of p) (proto_of (p\<lparr>ps_world := w\<rparr>))"
    unfolding eq using s l a by (intro spec_step.s_lock) (simp_all add: proto_of_fields view_def)
  with l inv show ?thesis unfolding refines_def by (simp add: calls_to_def call_inv_def)
qed

lemma reply_refines:
  assumes inv: "call_inv B p" and a: "a \<in> ps_raft p" and s: "w_slots (ps_world p) a = Some s" "sl_owned s" "\<not> is_terminal (sl_state s)"
    and r: "slot_reply_err a err (ps_world p, []) = Ret u (w, es) \<or> slot_reply_val a v (ps_world p, []) = Ret u (w, es)"
  shows "refines p (p\<lparr>ps_world := w\<rparr>)"
proof -
  have "\<exists>e x. w = (ps_world p)\<lparr>w_slots := (w_slots (ps_world p))(a \<mapsto> replied_slot e (w_clock (ps_world p)) (s\<lparr>sl_retval := x\<rparr>))\<rparr>"
    using r
  proof
    have "s = s\<lparr>sl_retval := sl_retval s\<rparr>" by simp
    moreover assume "slot_reply_err a err (ps_world p, []) = Ret u (w, es)"
    ultimately show ?thesis using s(1,3) by (metis slot_reply_err_ok outcome.inject(1) prod.inject)
  qed (use s in \<open>auto simp: slot_reply_val_ok\<close>)
  then obtain e x where w: "w = (ps_world p)\<lparr>w_slots := (w_slots (ps_world p))(a \<mapsto> replied_slot e (w_clock (ps_world p)) (s\<lparr>sl_retval := x\<rparr>))\<rparr>"
    by blast
  then have "proto_of (p\<lparr>ps_world := w\<rparr>) = (proto_of p)\<lparr>pr_calls := (pr_calls (proto_of p))(a \<mapsto> (view s)\<lparr>cv_done := True\<rparr>)\<rparr>"
    by (simp add: proto_of_def view_def replied_slot_def fun_eq_iff)
  with s a w inv show ?thesis unfolding refines_def
    using spec_step.s_reply [of a "proto_of p" "view s"] by (simp add: proto_of_fields view_def call_inv_def)
qed

lemma unlock_refines:
  assumes inv: "call_inv B p" and a: "a \<in> ps_raft p" and s: "w_slots (ps_world p) a = Some s" "sl_owned s" "is_terminal (sl_state s)"
    and r: "unlock_op a (ps_world p, []) = Ret u (w, es)"
  shows "refines p (p\<lparr>ps_world := w, ps_raft := ps_raft p - {a}\<rparr>)"
proof -
  have w: "calls_to (ps_world p) ((w_slots (ps_world p))(a \<mapsto> s\<lparr>sl_owned := False\<rparr>)) w"
    using r s by (auto simp: unlock_op_def calls_to_def)
  then have eq: "proto_of (p\<lparr>ps_world := w, ps_raft := ps_raft p - {a}\<rparr>) =
      (proto_of p)\<lparr>pr_calls := (pr_calls (proto_of p))(a \<mapsto> (view s)\<lparr>cv_locked := False\<rparr>), pr_raft := pr_raft (proto_of p) - {a}\<rparr>"
    by (simp add: proto_of_def view_def calls_to_def fun_eq_iff)
  have "spec_step (proto_of p) (proto_of (p\<lparr>ps_world := w, ps_raft := ps_raft p - {a}\<rparr>))"
    unfolding eq using s a by (intro spec_step.s_unlock) (simp_all add: proto_of_fields view_def)
  with w inv show ?thesis unfolding refines_def by (simp add: calls_to_def call_inv_def)
qed

lemma collect_refines:
  assumes inv: "call_inv B p" and r: "deque_take w_orphaned_calls w_orphaned_calls_update (ps_world p, []) = Ret a (w, es)"
  shows "refines p (p\<lparr>ps_world := w, ps_gc := insert a (ps_gc p)\<rparr>)"
proof -
  let ?d = "w_orphaned_calls (ps_world p)"
  have d: "\<not> d_closed ?d" "d_items ?d \<noteq> []"
    using r by (auto simp: deque_op_defs await_op_stuck bind_op_app split: if_splits)
  with r have w: "w = w_orphaned_calls_update deque_pop (ps_world p)" "a = hd (d_items ?d)"
    by (auto simp: deque_take_def deque_check_closed_def deque_pop_front_def await_op_ready bind_op_app)
  have "proto_of (p\<lparr>ps_world := w, ps_gc := insert a (ps_gc p)\<rparr>) = (proto_of p)\<lparr>pr_orphans := tl (d_items ?d), pr_gc := insert a (pr_gc (proto_of p))\<rparr>"
    by (simp add: w proto_of_def deque_pop_def)
  then show ?thesis unfolding refines_def using d w inv spec_step.s_collect [of "proto_of p" a "tl (d_items ?d)"]
    by (simp add: proto_of_fields call_inv_def)
qed

lemma reap_refines:
  assumes inv: "call_inv B p" and a: "a \<in> ps_gc p" and r: "try_dispose_orphan a (ps_world p, []) = Ret b (w, es)"
  shows "refines p (p\<lparr>ps_world := w, ps_gc := (if b then ps_gc p - {a} else ps_gc p)\<rparr>)"
proof -
  obtain s where s: "w_slots (ps_world p) a = Some s" "a \<noteq> 0" "sl_client_state s = Abandoned" using a inv by (auto elim: call_inv_slot)
  consider "\<not> b" "calls_to (ps_world p) (w_slots (ps_world p)) w"
    | "b" "calls_to (ps_world p) ((w_slots (ps_world p))(a := None)) w" "\<not> sl_owned s" "is_terminal (sl_state s)"
    using try_dispose_effect [OF s, of "[]"] r by auto
  then show ?thesis
  proof cases
    case 1
    with inv show ?thesis unfolding refines_def by (simp add: proto_of_same calls_to_def spec_step.s_skip call_inv_def)
  next
    case 2
    then have "proto_of (p\<lparr>ps_world := w, ps_gc := ps_gc p - {a}\<rparr>) =
        (proto_of p)\<lparr>pr_calls := (pr_calls (proto_of p))(a := None), pr_gc := pr_gc (proto_of p) - {a}\<rparr>"
      by (simp add: proto_of_def calls_to_def fun_eq_iff)
    with 2 s a inv show ?thesis unfolding refines_def
      using spec_step.s_reap [of a "proto_of p" "view s"] by (simp add: proto_of_fields view_def calls_to_def call_inv_def)
  qed
qed

lemma call_step_refines: "call_step B p p' \<Longrightarrow> call_inv B p \<Longrightarrow> refines p p'"
proof (induction rule: call_step.induct)
  case (c_call m p a w es)
  then have "requested (ps_world p) a w" using api_call_requested [of B m "ps_world p" a w es] by (simp add: call_inv_def)
  with c_call.prems show ?case by (rule request_refines)
next
  case (closes p u w es)
  then have "w = w_api_queue_update (q_closed_update (\<lambda>_. True)) (ps_world p)" by (simp add: abq_close_def)
  with closes show ?case by (simp add: proto_of_same spec_step.s_skip call_inv_def refines_def)
next
  case (closes_orphans p u w es)
  then have "w = w_orphaned_calls_update (d_closed_update (\<lambda>_. True)) (ps_world p)" by (simp add: deque_close_def)
  with closes_orphans show ?case by (simp add: proto_of_same spec_step.s_skip call_inv_def refines_def)
next
  case (elsewhere w p)
  then show ?case by (simp add: proto_of_same spec_step.s_skip call_inv_def refines_def)
qed (blast intro: wait_refines look_refines dispose_refines take_refines lock_refines reply_refines unlock_refines collect_refines reap_refines)+

lemma call_step_inv: "call_step B p p' \<Longrightarrow> call_inv B p \<Longrightarrow> call_inv B p'"
  using call_step_refines [of B p p'] spec_step_inv by (auto simp: call_inv_def refines_def)

interpretation call_sys: inductive_invariant "call_start B" "call_step B" "call_inv B" for B
proof
  show "call_inv B p" if "call_start B p" for p
    using that by (auto simp: call_start_def call_inv_def proto_inv_def proto_of_def held_def queued_def)
qed (rule call_step_inv)

text \<open>
  C5. The operations on calls implement the protocol. In every state that the client, the Raft process
  and the collector can reach, each operation that one of them completes on a call it holds, be it a
  request, a wait, a reply, a disposal or a collection, is one step of the protocol on the
  abstract state, or leaves it as it is.
\<close>

theorem call_refines_protocol:
  assumes "reach (call_start B) (call_step B) p" and "call_step B p p'"
  shows "spec_step (proto_of p) (proto_of p')"
  using call_step_refines [OF assms(2) call_sys.reach_inv [OF assms(1)]] by (simp add: refines_def)

text \<open>An example: the first call of a client.\<close>

definition demo_psys :: "unit psys" where
  "demo_psys = \<lparr>ps_world = start_world (), ps_client = {}, ps_raft = {}, ps_gc = {}\<rparr>"

definition demo_called :: "unit psys" where
  "demo_called = demo_psys\<lparr>ps_world := w_api_queue_update (abq_insert 8 (Tag_Barrier, 0x10001000))
     (slot_made 0x10001000 (sent_slot (start_world ()) Tag_Barrier (Args_Barrier 0)) (start_world ())), ps_client := {0x10001000}\<rparr>"

lemma demo_call_start: "call_start (first_fit [0x10001000]) demo_psys"
  using abq_zeroed_wf [of 8 "(Tag_Invalid, 0 :: addr)"] first_fit_ok
  by (simp add: call_start_def demo_psys_def start_world_def deque_new_def)

lemma demo_call_step: "call_step (first_fit [0x10001000]) demo_psys demo_called"
proof -
  have "raft_barrier (first_fit [0x10001000]) 0 (start_world (), []) = Ret 0x10001000 (ps_world demo_called, [])"
    using demo_alloc [of "()"] demo_api_open [of "()"]
    by (simp add: raft_barrier_def send_api_request_open api_open_def call_counted_def demo_called_def demo_psys_def)
  then show ?thesis
    using call_step.c_call [OF api_call.intros(2), of "first_fit [0x10001000]" 0 demo_psys]
    by (fastforce simp: demo_psys_def demo_called_def)
qed

theorem call_refines_protocol_witness:
  "call_step (first_fit [0x10001000]) demo_psys demo_called \<and> spec_step (proto_of demo_psys) (proto_of demo_called)"
  using call_refines_protocol [OF reach.intros(1) [of "call_start (first_fit [0x10001000])", OF demo_call_start] demo_call_step]
    demo_call_step by simp

section \<open>No call dangles and none is lost\<close>

lemma call_inv_live:
  assumes "call_inv B p"
  shows "w_slots (ps_world p) a \<noteq> None \<longleftrightarrow> a \<in> ps_client p \<union> set (d_items (w_orphaned_calls (ps_world p))) \<union> ps_gc p"
proof -
  have inv: "proto_inv (proto_of p)" using assms by (simp add: call_inv_def)
  have "call_ok (proto_of p) a (view s)" if "w_slots (ps_world p) a = Some s" for s
    using proto_invD(5) [OF inv, of a "view s"] that by (simp add: proto_of_def)
  moreover have "a \<in> ps_client p \<union> set (d_items (w_orphaned_calls (ps_world p))) \<union> ps_gc p \<Longrightarrow> w_slots (ps_world p) a \<noteq> None"
    using proto_invD(7) [OF inv, of a] by (auto simp: proto_of_def held_def)
  ultimately show ?thesis by (cases "w_slots (ps_world p) a") (auto simp: call_ok_def proto_of_def held_def)
qed

lemma client_op_safe:
  assumes inv: "call_inv B p" and a: "a \<in> ps_client p"
  shows "raft_future_wait a (ps_world p, []) \<noteq> Fail e" "raft_future_wait_for a ms (ps_world p, []) \<noteq> Fail e"
    "raft_future_get_fsm_reply a res (ps_world p, []) \<noteq> Fail e" "raft_future_dispose a (ps_world p, []) \<noteq> Fail e"
proof -
  obtain s where s: "w_slots (ps_world p) a = Some s" "a \<noteq> 0" "sl_client_state s \<noteq> Abandoned" using a inv by (auto elim: call_inv_slot)
  show "raft_future_wait a (ps_world p, []) \<noteq> Fail e" "raft_future_wait_for a ms (ps_world p, []) \<noteq> Fail e"
    "raft_future_get_fsm_reply a res (ps_world p, []) \<noteq> Fail e"
    using wait_effect [OF s(1)] wait_for_effect [OF s(1), of ms] reply_effect [OF s(1,2), of res] by auto
  show "raft_future_dispose a (ps_world p, []) \<noteq> Fail e"
    using s by (cases "sl_client_state s"; cases "d_closed (w_orphaned_calls (ps_world p))")
      (auto simp: raft_future_dispose_def slot_dispose_cases)
qed

lemma taken_is_pending:
  assumes inv: "call_inv B p" and r: "abq_take CALLQUEUE_CAPACITY w_api_queue w_api_queue_update (ps_world p, []) = Ret (t, a) (w, es)"
  shows "\<exists>s. w_slots w a = Some s \<and> sl_tag s = t \<and> \<not> is_terminal (sl_state s) \<and> \<not> sl_owned s"
proof -
  have i: "proto_inv (proto_of p)" and wf: "abq_wf 8 (w_api_queue (ps_world p))" using inv by (simp_all add: call_inv_def)
  note w = take_effect [OF wf r]
  then have q: "(t, a) \<in> set (pr_queue (proto_of p))" by (simp add: proto_of_def)
  then have "a \<in> queued (proto_of p)" by (force simp: queued_def)
  with proto_invD(7) [OF i, of a] obtain s where s: "w_slots (ps_world p) a = Some s" "pr_calls (proto_of p) a = Some (view s)"
    by (auto simp: proto_of_def)
  have "call_ok (proto_of p) a (view s)" "sl_tag s = t"
    using proto_invD(5) [OF i s(2)] proto_invD(6) [OF i q s(2)] by (simp_all add: view_def)
  with \<open>a \<in> queued (proto_of p)\<close> proto_invD(2) [OF i] s w(1) show ?thesis by (auto simp: call_ok_def view_def)
qed



end
