(* ===== verification/Json_Dump.thy ===== *)
theory Json_Dump
  imports Json_Tree
begin

text \<open>
  The function \<^verbatim>\<open>dump\<close> of \<^verbatim>\<open>src/zserge-jsmn/example/jsondump.c\<close>, which prints the tokens of a JSON value with
  indentation, and what it prints: the rendering of the value. The
  count of the remaining tokens is a 64 bit word that wraps, as in the code.
\<close>

section \<open>Printing a token\<close>

text \<open>\<^verbatim>\<open>printf("%.*s", t->end - t->start, js + t->start)\<close>: characters up to the precision or to a terminator,
  a negative precision counting as none; \<open>js\<close> is the memory that can be read.\<close>

definition print_range :: "string \<Rightarrow> jsmntok \<Rightarrow> fault + string" where
  "print_range js t =
     (if tok_start t < 0 \<or> int (length js) < tok_start t then Inl Out_of_bounds
      else let s = drop (nat (tok_start t)) js; n = tok_end t - tok_start t; w = takeWhile (\<lambda>c. c \<noteq> NUL) s in
        if 0 \<le> n \<and> n \<le> int (length w) then Inr (take (nat n) w)
        else if NUL \<in> set s then Inr w
        else Inl Out_of_bounds)"

lemma print_range_mk:
  assumes "NUL \<notin> set s"
  shows "print_range (pre @ s @ rest) (mk_tok ty (length pre) (length s) k) = Inr s"
proof -
  have "takeWhile (\<lambda>c. c \<noteq> NUL) (s @ rest) = s @ takeWhile (\<lambda>c. c \<noteq> NUL) rest"
    using assms by (auto intro!: takeWhile_append2)
  then show ?thesis by (simp add: print_range_def mk_tok_def)
qed

section \<open>dump\<close>

text \<open>\<^verbatim>\<open>for (k = 0; k < n; k++) printf("  ")\<close>\<close>

definition tabs :: "int \<Rightarrow> string" where
  "tabs n = concat (replicate (nat n) ''  '')"

text \<open>\<open>off\<close> is the index of the token \<^verbatim>\<open>t\<close> in the array; the result is what is printed and the number
  of tokens that were consumed. \<open>dump_pairs\<close> and \<open>dump_items\<close> are the two loops over the children,
  \<open>n\<close> rounds before their end.\<close>

function dump :: "string \<Rightarrow> jsmntok list \<Rightarrow> nat \<Rightarrow> u64 \<Rightarrow> int \<Rightarrow> fault + string \<times> nat"
and dump_pairs :: "string \<Rightarrow> jsmntok list \<Rightarrow> nat \<Rightarrow> u64 \<Rightarrow> int \<Rightarrow> nat \<Rightarrow> nat \<Rightarrow> fault + string \<times> nat"
and dump_items :: "string \<Rightarrow> jsmntok list \<Rightarrow> nat \<Rightarrow> u64 \<Rightarrow> int \<Rightarrow> nat \<Rightarrow> nat \<Rightarrow> fault + string \<times> nat" where
  "dump js ts off count indent =
     (if count = 0 then Inr ([], 0)
      else if length ts \<le> off then Inl Out_of_bounds
      else case tok_type (ts ! off) of
          JSMN_PRIMITIVE \<Rightarrow> (case print_range js (ts ! off) of Inl e \<Rightarrow> Inl e | Inr s \<Rightarrow> Inr (s, 1))
        | JSMN_STRING \<Rightarrow> (case print_range js (ts ! off) of Inl e \<Rightarrow> Inl e | Inr s \<Rightarrow> Inr (CHR 0x27 # s @ [CHR 0x27], 1))
        | JSMN_OBJECT \<Rightarrow> (case dump_pairs js ts off count indent 0 (nat (tok_size (ts ! off))) of
              Inl e \<Rightarrow> Inl e | Inr (s, j) \<Rightarrow> Inr (CHR 0x0A # s, j + 1))
        | JSMN_ARRAY \<Rightarrow> (case dump_items js ts off count indent 0 (nat (tok_size (ts ! off))) of
              Inl e \<Rightarrow> Inl e | Inr (s, j) \<Rightarrow> Inr (CHR 0x0A # s, j + 1)))"
| "dump_pairs js ts off count indent j 0 = Inr ([], j)"
| "dump_pairs js ts off count indent j (Suc n) =
     (case dump js ts (off + 1 + j) (count - of_nat j) (indent + 1) of
        Inl e \<Rightarrow> Inl e
      | Inr (key, k) \<Rightarrow>
          (case dump js ts (off + 1 + (j + k)) (count - of_nat (j + k)) (indent + 1) of
             Inl e \<Rightarrow> Inl e
           | Inr (val, l) \<Rightarrow>
               (case dump_pairs js ts off count indent (j + k + l) n of
                  Inl e \<Rightarrow> Inl e
                | Inr (s, m) \<Rightarrow> Inr (tabs indent @ key @ '': '' @ val @ CHR 0x0A # s, m))))"
| "dump_items js ts off count indent j 0 = Inr ([], j)"
| "dump_items js ts off count indent j (Suc n) =
     (case dump js ts (off + 1 + j) (count - of_nat j) (indent + 1) of
        Inl e \<Rightarrow> Inl e
      | Inr (val, k) \<Rightarrow>
          (case dump_items js ts off count indent (j + k) n of
             Inl e \<Rightarrow> Inl e
           | Inr (s, m) \<Rightarrow> Inr (tabs (indent - 1) @ ''   - '' @ val @ CHR 0x0A # s, m)))"
  by pat_completeness auto

text \<open>A child stands behind its parent in the array, and every access is inside the array.\<close>

termination
  by (relation "measures
      [\<lambda>x. case x of Inl (_, ts, off, _) \<Rightarrow> 2 * (length ts - off)
         | Inr (Inl (_, ts, off, _)) \<Rightarrow> 2 * (length ts - off) - 1
         | Inr (Inr (_, ts, off, _)) \<Rightarrow> 2 * (length ts - off) - 1,
       \<lambda>x. case x of Inl _ \<Rightarrow> 0 | Inr (Inl (_, _, _, _, _, _, n)) \<Rightarrow> n | Inr (Inr (_, _, _, _, _, _, n)) \<Rightarrow> n]") auto

declare dump.simps [simp del]

section \<open>What a value looks like\<close>

fun render :: "int \<Rightarrow> json \<Rightarrow> string" where
  "render i (J_prim s) = s"
| "render i (J_str s) = CHR 0x27 # s @ [CHR 0x27]"
| "render i (J_obj kvs) = CHR 0x0A # concat (map (\<lambda>(k, v). tabs i @ (CHR 0x27 # k @ [CHR 0x27]) @ '': '' @ render (i + 1) v @ [CHR 0x0A]) kvs)"
| "render i (J_arr vs) = CHR 0x0A # concat (map (\<lambda>v. tabs (i - 1) @ ''   - '' @ render (i + 1) v @ [CHR 0x0A]) vs)"

lemma hex_scan_digits: "hex_scan n s = Some r \<Longrightarrow> \<exists>u. s = u @ r \<and> NUL \<notin> set u"
proof (induction n s rule: hex_scan.induct)
  case (3 n c cs)
  show ?case
  proof (cases "c = NUL")
    case False
    with 3 obtain u where "cs = u @ r" "NUL \<notin> set u" by (auto split: if_splits)
    with False show ?thesis by (intro exI [of _ "c # u"]) simp
  qed (use 3 in simp)
qed simp_all

lemma str_scan_text: "str_scan s p = Closed q \<Longrightarrow> \<exists>u w. s = u @ CHR 0x22 # w \<and> q = p + length u \<and> NUL \<notin> set u"
proof (induction s p rule: str_scan.induct)
  case (2 c cs p)
  show ?case
  proof (cases "c = NUL \<or> c = CHR 0x22 \<or> \<not> (c = CHR 0x5C \<and> cs \<noteq> [])")
    case True
    have c: "c \<noteq> NUL" using 2(4) by auto
    show ?thesis
    proof (cases "c = CHR 0x22")
      case True
      with 2(4) c have "c # cs = [] @ CHR 0x22 # cs" "q = p + length ([] :: string)" "NUL \<notin> set []" by auto
      then show ?thesis by blast
    next
      case False
      with 2(3,4) True c obtain u w where "cs = u @ CHR 0x22 # w" "q = p + 1 + length u" "NUL \<notin> set u" by auto
      with c have "c # cs = (c # u) @ CHR 0x22 # w" "q = p + length (c # u)" "NUL \<notin> set (c # u)" by auto
      then show ?thesis by blast
    qed
  next
    case False
    then obtain d ds where [simp]: "c = CHR 0x5C" and cs: "cs = d # ds" by (cases cs) auto
    show ?thesis
    proof (cases "is_escape d")
      case True
      with 2(1,4) False cs obtain u w where "ds = u @ CHR 0x22 # w" "q = p + 2 + length u" "NUL \<notin> set u" by auto
      moreover have "d \<noteq> NUL" using True by (auto simp: is_escape_def NUL_def)
      ultimately have "c # cs = (c # d # u) @ CHR 0x22 # w" "q = p + length (c # d # u)" "NUL \<notin> set (c # d # u)"
        using cs by (auto simp: NUL_def)
      then show ?thesis by blast
    next
      case esc: False
      with 2(4) False cs have u: "d = CHR ''u''" by (simp split: if_splits)
      with 2(4) False esc cs obtain r where r: "hex_scan 4 ds = Some r"
        and closed: "str_scan r (p + 2 + (length ds - length r)) = Closed q"
        by (auto split: option.splits)
      obtain h where h: "ds = h @ r" "NUL \<notin> set h" using hex_scan_digits [OF r] by blast
      obtain v w where "r = v @ CHR 0x22 # w" "q = p + 2 + (length ds - length r) + length v" "NUL \<notin> set v"
        using 2(2) [of r] False esc u cs r closed by auto
      with h cs u have "c # cs = (c # d # h @ v) @ CHR 0x22 # w" "q = p + length (c # d # h @ v)" "NUL \<notin> set (c # d # h @ v)"
        by (auto simp: NUL_def)
      then show ?thesis by blast
    qed
  qed
qed simp

lemma str_ok_no_NUL: "str_ok s \<Longrightarrow> NUL \<notin> set s"
  unfolding str_ok_def by (drule str_scan_text) (auto simp: append_eq_append_conv2)

lemma prim_ok_no_NUL: "prim_ok s \<Longrightarrow> NUL \<notin> set s"
  by (auto simp: prim_ok_def list_all_iff)

text \<open>The children of a container, dumped from position \<open>j\<close> on.\<close>

definition dumps :: "json \<Rightarrow> bool" where
  "dumps v \<longleftrightarrow> (\<forall>js ts pre rest as bs count i. js = pre @ json_text v @ rest \<longrightarrow> ts = as @ json_toks (length pre) v @ bs \<longrightarrow>
     tok_count v \<le> unat count \<longrightarrow> dump js ts (length as) count i = Inr (render i v, tok_count v))"

lemma dumpsD:
  "dumps v \<Longrightarrow> js = pre @ json_text v @ rest \<Longrightarrow> ts = as @ json_toks (length pre) v @ bs \<Longrightarrow> off = length as \<Longrightarrow>
     tok_count v \<le> unat count \<Longrightarrow> dump js ts off count i = Inr (render i v, tok_count v)"
  unfolding dumps_def by blast

lemma tok_count_pos [simp]: "0 < tok_count v"
  by (cases v) simp_all

lemma dumps_scalar: "str_ok s \<Longrightarrow> dumps (J_str s)" "prim_ok s \<Longrightarrow> dumps (J_prim s)"
proof -
  show "dumps (J_prim s)" if "prim_ok s"
    using print_range_mk [OF prim_ok_no_NUL [OF that]] by (auto simp: dumps_def dump.simps mk_tok_def)
  have "print_range (pre @ quoted s @ rest) (mk_tok JSMN_STRING (Suc (length pre)) (length s) k) = Inr s" if "str_ok s" for pre rest k
    using print_range_mk [OF str_ok_no_NUL [OF that], of "pre @ [CHR 0x22]" "CHR 0x22 # rest"] by (simp add: quoted_def)
  then show "dumps (J_str s)" if "str_ok s"
    using that by (auto simp: dumps_def dump.simps mk_tok_def)
qed

lemma unat_minus_ge: "j + k \<le> unat (c :: u64) \<Longrightarrow> k \<le> unat (c - of_nat j)"
proof -
  assume *: "j + k \<le> unat c"
  moreover have "unat c < 2 ^ LENGTH(64)" by (rule unsigned_less)
  ultimately have j: "unat (of_nat j :: u64) = j" by (simp add: unsigned_of_nat take_bit_nat_eq_self_iff)
  with * have "(of_nat j :: u64) \<le> c" by (simp add: word_le_nat_alt)
  with * j show ?thesis by (simp add: unat_sub)
qed

lemma dump_key:
  assumes "str_ok k" and "js = pre @ quoted k @ rest" and "off < length ts" and "ts ! off = mk_tok JSMN_STRING (length pre + 1) (length k) n"
    and "0 < unat count"
  shows "dump js ts off count i = Inr (CHR 0x27 # k @ [CHR 0x27], 1)"
  using print_range_mk [OF str_ok_no_NUL [OF assms(1)], of "pre @ [CHR 0x22]" "CHR 0x22 # rest"] assms(2-5)
  by (auto simp: dump.simps mk_tok_def quoted_def)

lemma dump_items_json:
  "\<lbrakk>\<forall>v \<in> set vs. dumps v; js = pre @ commas (map json_text vs) @ rest; ts = as @ t # ds @ items_toks (length pre) vs @ bs;
    length ds + sum_list (map tok_count vs) < unat count\<rbrakk> \<Longrightarrow>
   dump_items js ts (length as) count i (length ds) (length vs) =
     Inr (concat (map (\<lambda>v. tabs (i - 1) @ ''   - '' @ render (i + 1) v @ [CHR 0x0A]) vs), length ds + sum_list (map tok_count vs))"
proof (induction vs arbitrary: pre ds)
  case (Cons v vs)
  obtain rest' where js: "js = pre @ json_text v @ rest'" and rest': "vs \<noteq> [] \<Longrightarrow> rest' = CHR '','' # commas (map json_text vs) @ rest"
    using Cons.prems(2) by (cases vs) auto
  have d: "dump js ts (length as + 1 + length ds) (count - of_nat (length ds)) (i + 1) = Inr (render (i + 1) v, tok_count v)"
  proof (rule dumpsD [OF _ js])
    show "ts = (as @ t # ds) @ json_toks (length pre) v @ items_toks (length pre + length (json_text v) + 1) vs @ bs" using Cons.prems(3) by simp
    show "tok_count v \<le> unat (count - of_nat (length ds))" using Cons.prems(4) by (intro unat_minus_ge) simp
  qed (use Cons.prems(1) in simp_all)
  have "dump_items js ts (length as) count i (length (ds @ json_toks (length pre) v)) (length vs) =
     Inr (concat (map (\<lambda>v. tabs (i - 1) @ ''   - '' @ render (i + 1) v @ [CHR 0x0A]) vs),
       length (ds @ json_toks (length pre) v) + sum_list (map tok_count vs))"
  proof (cases "vs = []")
    case False
    then show ?thesis
      using Cons.prems js rest' by (intro Cons.IH [of "pre @ json_text v @ '',''"]) (auto simp: length_json_toks)
  qed simp
  with d show ?case by (simp add: length_json_toks)
qed simp

lemma dump_pairs_json:
  "\<lbrakk>\<forall>(k, v) \<in> set kvs. str_ok k \<and> dumps v; js = pre @ commas (map (\<lambda>(k, v). quoted k @ CHR '':'' # json_text v) kvs) @ rest;
    ts = as @ t # ds @ pairs_toks (length pre) kvs @ bs;
    length ds + sum_list (map (\<lambda>(k, v). Suc (tok_count v)) kvs) < unat count\<rbrakk> \<Longrightarrow>
   dump_pairs js ts (length as) count i (length ds) (length kvs) =
     Inr (concat (map (\<lambda>(k, v). tabs i @ (CHR 0x27 # k @ [CHR 0x27]) @ '': '' @ render (i + 1) v @ [CHR 0x0A]) kvs),
       length ds + sum_list (map (\<lambda>(k, v). Suc (tok_count v)) kvs))"
proof (induction kvs arbitrary: pre ds)
  case (Cons kv kvs)
  obtain k v where kv: "kv = (k, v)" by fastforce
  obtain rest' where js: "js = pre @ (quoted k @ CHR '':'' # json_text v) @ rest'"
    and rest': "kvs \<noteq> [] \<Longrightarrow> rest' = CHR '','' # commas (map (\<lambda>(k, v). quoted k @ CHR '':'' # json_text v) kvs) @ rest"
    using Cons.prems(2) kv by (cases kvs) auto
  let ?p = "length pre + length k + 3" and ?q = "length pre + length k + length (json_text v) + 4"
  let ?key = "mk_tok JSMN_STRING (length pre + 1) (length k) 1"
  have ts: "ts = as @ t # ds @ ?key # json_toks ?p v @ pairs_toks ?q kvs @ bs" using Cons.prems(3) kv by simp
  have len: "length (pre @ quoted k @ '':'') = ?p" by (simp add: quoted_def)
  have key: "dump js ts (length as + 1 + length ds) (count - of_nat (length ds)) (i + 1) = Inr (CHR 0x27 # k @ [CHR 0x27], 1)"
  proof (rule dump_key)
    show "js = pre @ quoted k @ CHR '':'' # json_text v @ rest'" using js by simp
    show "0 < unat (count - of_nat (length ds))" using unat_minus_ge [of "length ds" 1 count] Cons.prems(4) kv by simp
  qed (use Cons.prems(1) kv ts in \<open>auto simp: nth_append\<close>)
  have val: "dump js ts (length as + 1 + (length ds + 1)) (count - of_nat (length ds + 1)) (i + 1) = Inr (render (i + 1) v, tok_count v)"
  proof (rule dumpsD)
    show "js = (pre @ quoted k @ '':'') @ json_text v @ rest'" using js by simp
    show "ts = (as @ t # ds @ [?key]) @ json_toks (length (pre @ quoted k @ '':'')) v @ pairs_toks ?q kvs @ bs" using ts unfolding len by simp
    show "tok_count v \<le> unat (count - of_nat (length ds + 1))" using Cons.prems(4) kv by (intro unat_minus_ge) simp
  qed (use Cons.prems(1) kv in simp_all)
  let ?ds = "ds @ ?key # json_toks ?p v"
  have "dump_pairs js ts (length as) count i (length ?ds) (length kvs) =
     Inr (concat (map (\<lambda>(k, v). tabs i @ (CHR 0x27 # k @ [CHR 0x27]) @ '': '' @ render (i + 1) v @ [CHR 0x0A]) kvs),
       length ?ds + sum_list (map (\<lambda>(k, v). Suc (tok_count v)) kvs))"
  proof (cases "kvs = []")
    case False
    obtain pre' where pre': "pre' = pre @ quoted k @ CHR '':'' # json_text v @ '',''" "length pre' = ?q" by (simp add: quoted_def)
    show ?thesis
    proof (rule Cons.IH)
      show "js = pre' @ commas (map (\<lambda>(k, v). quoted k @ CHR '':'' # json_text v) kvs) @ rest" using js rest' [OF False] pre'(1) by simp
      show "ts = as @ t # ?ds @ pairs_toks (length pre') kvs @ bs" using ts pre'(2) by simp
    qed (use Cons.prems kv in \<open>auto simp: length_json_toks\<close>)
  qed simp
  with key val kv show ?case by (simp add: length_json_toks add.commute add.left_commute)
qed simp

lemma dumps_json: "json_ok v \<Longrightarrow> dumps v"
proof (induction v)
  case (J_arr vs)
  show ?case unfolding dumps_def
  proof (intro allI impI)
    fix js ts pre rest as bs count i
    assume js: "js = pre @ json_text (J_arr vs) @ rest" and ts: "ts = as @ json_toks (length pre) (J_arr vs) @ bs"
      and c: "tok_count (J_arr vs) \<le> unat (count :: u64)"
    have "dump_items js ts (length as) count i (length ([] :: jsmntok list)) (length vs) =
      Inr (concat (map (\<lambda>v. tabs (i - 1) @ ''   - '' @ render (i + 1) v @ [CHR 0x0A]) vs), length ([] :: jsmntok list) + sum_list (map tok_count vs))"
      using J_arr js ts c
      by (intro dump_items_json [where pre = "pre @ ''[''" and rest = "'']'' @ rest"]) (auto simp: list_all_iff)
    moreover have "count \<noteq> 0" using c by auto
    moreover have "length as < length ts" "tok_type (ts ! length as) = JSMN_ARRAY" "tok_size (ts ! length as) = int (length vs)"
      using ts by (auto simp: mk_tok_def)
    ultimately show "dump js ts (length as) count i = Inr (render i (J_arr vs), tok_count (J_arr vs))"
      by (simp add: dump.simps [of js ts "length as"])
  qed
next
  case (J_obj kvs)
  show ?case unfolding dumps_def
  proof (intro allI impI)
    fix js ts pre rest as bs count i
    assume js: "js = pre @ json_text (J_obj kvs) @ rest" and ts: "ts = as @ json_toks (length pre) (J_obj kvs) @ bs"
      and c: "tok_count (J_obj kvs) \<le> unat (count :: u64)"
    have "dump_pairs js ts (length as) count i (length ([] :: jsmntok list)) (length kvs) =
      Inr (concat (map (\<lambda>(k, v). tabs i @ (CHR 0x27 # k @ [CHR 0x27]) @ '': '' @ render (i + 1) v @ [CHR 0x0A]) kvs),
        length ([] :: jsmntok list) + sum_list (map (\<lambda>(k, v). Suc (tok_count v)) kvs))"
      using J_obj js ts c
      by (intro dump_pairs_json [where pre = "pre @ ''{''" and rest = "''}'' @ rest"]) (auto simp: list_all_iff)
    moreover have "count \<noteq> 0" using c by auto
    moreover have "length as < length ts" "tok_type (ts ! length as) = JSMN_OBJECT" "tok_size (ts ! length as) = int (length kvs)"
      using ts by (auto simp: mk_tok_def)
    ultimately show "dump js ts (length as) count i = Inr (render i (J_obj kvs), tok_count (J_obj kvs))"
      by (simp add: dump.simps [of js ts "length as"])
  qed
qed (simp_all add: dumps_scalar)

text \<open>
  C16. The dump of a value is its rendering. Wherever the tokens of a JSON value stand in the array and
  its text in the buffer, \<^verbatim>\<open>dump\<close>, started at the first of these tokens with at least as many tokens left
  as the value has, reads nothing outside the array and the text, prints the value indented by its depth and returns the
  number of its tokens.
\<close>

theorem dump_renders:
  assumes "json_ok v" and "tok_count v \<le> unat count"
  shows "dump (pre @ json_text v @ rest) (as @ json_toks (length pre) v @ bs) (length as) count i = Inr (render i v, tok_count v)"
  using dumpsD [OF dumps_json [OF assms(1)] refl refl refl assms(2)] .

theorem dump_renders_witness:
  "dump (''[0, '' @ json_text demo_json @ '']'') (blank_tokens 2 @ json_toks 4 demo_json) 2 8 1 = Inr (render 1 demo_json, 8) \<and>
   render 1 (J_arr [J_prim ''1'', J_str ''a'']) = [CHR 0x0A] @ ''   - 1'' @ [CHR 0x0A] @ ''   - '' @ [CHR 0x27, CHR ''a'', CHR 0x27, CHR 0x0A]"
proof -
  have len: "length ''[0, '' = 4" "length (blank_tokens 2) = 2" by (simp_all add: blank_tokens_def)
  have "json_ok demo_json" "tok_count demo_json = 8"
    "render 1 (J_arr [J_prim ''1'', J_str ''a'']) = [CHR 0x0A] @ ''   - 1'' @ [CHR 0x0A] @ ''   - '' @ [CHR 0x27, CHR ''a'', CHR 0x27, CHR 0x0A]"
    by code_simp+
  with dump_renders [of demo_json 8 "''[0, ''" "'']''" "blank_tokens 2" "[]" 1, unfolded len append_Nil2] show ?thesis by simp
qed

end
