(* ===== verification/Jsmn_Resume.thy ===== *)
theory Jsmn_Resume
  imports Jsmn
begin

text \<open>
  Parsing with an array that turns out to be too small. The tokenizer then stops with
  \<^verbatim>\<open>JSMN_ERROR_NOMEM\<close> in a state from which it can be called again with a longer array, which is what
  the example \<^verbatim>\<open>jsondump.c\<close> does. The resumed parse ends as one that had the longer array from the
  start, and doubling the array ends the loop.
\<close>

section \<open>More tokens\<close>

text \<open>The parser after its array was enlarged by \<open>extra\<close>.\<close>

definition enlarge :: "jsmntok list \<Rightarrow> jsmn_parser \<Rightarrow> jsmn_parser" where
  "enlarge extra P = P\<lparr>jp_toks := map_option (\<lambda>ts. ts @ extra) (jp_toks P)\<rparr>"

lemma enlarge_simps [simp]:
  "jp_pos (enlarge x P) = jp_pos P" "jp_toknext (enlarge x P) = jp_toknext P" "jp_toksuper (enlarge x P) = jp_toksuper P"
  "jp_toks (enlarge x P) = map_option (\<lambda>ts. ts @ x) (jp_toks P)"
  "(enlarge x P)\<lparr>jp_pos := p\<rparr> = enlarge x (P\<lparr>jp_pos := p\<rparr>)" "(enlarge x P)\<lparr>jp_toksuper := s\<rparr> = enlarge x (P\<lparr>jp_toksuper := s\<rparr>)"
  by (simp_all add: enlarge_def)

lemma set_tok_more: "jp_toks P = Some ts \<Longrightarrow> i < length ts \<Longrightarrow> set_tok i f (enlarge x P) = enlarge x (set_tok i f P)"
  by (simp add: set_tok_def enlarge_def nth_append list_update_append)

lemma alloc_more:
  "jp_toks P = Some ts \<Longrightarrow> jsmn_alloc_token ts P = Some (i, P') \<Longrightarrow> jsmn_alloc_token (ts @ x) (enlarge x P) = Some (i, enlarge x P')"
  by (auto simp: jsmn_alloc_token_def enlarge_def Let_def nth_append list_update_append split: if_splits)

lemma search_down_more: "k \<le> length ts \<Longrightarrow> search_down Q (ts @ x) k = search_down Q ts k"
  by (induction k) (simp_all add: nth_append)

lemma grow_super_more:
  assumes "jsmn_inv js n P c" and "grow_super P = Inr P'"
  shows "grow_super (enlarge x P) = Inr (enlarge x P')"
proof -
  obtain ts where "jp_toks P = Some ts" "length ts = n" "jp_toknext P \<le> n" "- 1 \<le> jp_toksuper P" "jp_toksuper P < int (jp_toknext P)"
    using assms(1) by (auto simp: jsmn_inv_def)
  with assms(2) show ?thesis by (auto simp: grow_super_def super_index_def set_tok_more split: if_splits)
qed

text \<open>A token is put at the same place, or there was none left.\<close>

lemma put_token_more:
  assumes "jsmn_inv js n P c" and "put_token ty st en P = (r, P')"
  shows "r = 0 \<and> put_token ty st en (enlarge x P) = (0, enlarge x P') \<or> r = JSMN_ERROR_NOMEM \<and> P' = P \<and> n \<le> jp_toknext P"
proof -
  obtain ts where ts: "jp_toks P = Some ts" "length ts = n" using assms(1) by (auto simp: jsmn_inv_def)
  show ?thesis
  proof (cases "jsmn_alloc_token ts P")
    case None
    with ts assms(2) show ?thesis by (auto simp: put_token_def jsmn_alloc_token_def Let_def split: if_splits)
  next
    case (Some iP)
    obtain i P1 where iP: "iP = (i, P1)" by (cases iP)
    note al = jsmn_alloc_token_Some [OF Some [unfolded iP]]
    with ts assms(2) Some iP alloc_more [OF ts(1), of i P1 x] show ?thesis
      by (auto simp: put_token_def set_tok_more)
  qed
qed

text \<open>What a step does with more tokens.\<close>

definition extends :: "(jsmn_parser \<Rightarrow> fault + jsmn_step) \<Rightarrow> nat \<Rightarrow> jsmntok list \<Rightarrow> jsmn_parser \<Rightarrow> bool" where
  "extends f n x P = (case f P of
      Inl e \<Rightarrow> f (enlarge x P) = Inl e
    | Inr (Go k P') \<Rightarrow> f (enlarge x P) = Inr (Go k (enlarge x P'))
    | Inr (Stop e P') \<Rightarrow> e = JSMN_ERROR_NOMEM \<and> P' = P \<and> n \<le> jp_toknext P \<or>
        e \<noteq> JSMN_ERROR_NOMEM \<and> f (enlarge x P) = Inr (Stop e (enlarge x P')))"

lemma extends_cong: "f P = g P \<Longrightarrow> f (enlarge x P) = g (enlarge x P) \<Longrightarrow> extends f n x P = extends g n x P"
  by (simp only: extends_def)

lemma count_token_more:
  assumes "jsmn_char js P = count_token (p P)" and "jsmn_char js (enlarge x P) = count_token (p (enlarge x P))" and "p P = (r, Q)"
    and "0 \<le> r \<Longrightarrow> jsmn_inv js n Q c \<and> p (enlarge x P) = (r, enlarge x Q)"
    and "r < 0 \<Longrightarrow> r = JSMN_ERROR_NOMEM \<and> Q = P \<and> n \<le> jp_toknext P \<or> r \<noteq> JSMN_ERROR_NOMEM \<and> p (enlarge x P) = (r, enlarge x Q)"
  shows "extends (jsmn_char js) n x P"
proof (cases "r < 0")
  case True
  with assms show ?thesis by (auto simp: extends_def count_token_def)
next
  case False
  then have i: "jsmn_inv js n Q c" "p (enlarge x P) = (r, enlarge x Q)" using assms(4) by auto
  obtain P2 where g: "grow_super Q = Inr P2" using grow_super_inv [OF i(1)] by blast
  with False assms(1-3) i(2) grow_super_more [OF i(1) g, of x] show ?thesis by (simp add: extends_def count_token_def)
qed

lemma parse_string_more:
  assumes "jsmn_inv js n P c" and "jsmn_parse_string js P = (r, P')"
  shows "r = JSMN_ERROR_NOMEM \<and> P' = P \<and> n \<le> jp_toknext P \<or> r \<noteq> JSMN_ERROR_NOMEM \<and> jsmn_parse_string js (enlarge x P) = (r, enlarge x P')"
proof (cases "str_scan (drop (jp_pos P + 1) js) (jp_pos P + 1)")
  case (Closed q)
  obtain r1 P1 where p: "put_token JSMN_STRING (jp_pos P + 1) q P = (r1, P1)" by fastforce
  from put_token_more [OF assms(1) p, of x] assms(2) Closed p show ?thesis
    by (auto simp: jsmn_parse_string_def Let_def JSMN_ERROR_NOMEM_def)
qed (use assms(2) in \<open>auto simp: jsmn_parse_string_def Let_def JSMN_ERROR_NOMEM_def JSMN_ERROR_INVAL_def JSMN_ERROR_PART_def\<close>)

lemma parse_primitive_more:
  assumes "jsmn_inv js n P c" and "jsmn_parse_primitive js P = (r, P')"
  shows "r = JSMN_ERROR_NOMEM \<and> P' = P \<and> n \<le> jp_toknext P \<or> r \<noteq> JSMN_ERROR_NOMEM \<and> jsmn_parse_primitive js (enlarge x P) = (r, enlarge x P')"
proof (cases "prim_scan (drop (jp_pos P) js) (jp_pos P)")
  case (Some q)
  obtain r1 P1 where p: "put_token JSMN_PRIMITIVE (jp_pos P) q P = (r1, P1)" by fastforce
  from put_token_more [OF assms(1) p, of x] assms(2) Some p show ?thesis
    by (auto simp: jsmn_parse_primitive_def Let_def JSMN_ERROR_NOMEM_def)
qed (use assms(2) in \<open>auto simp: jsmn_parse_primitive_def Let_def JSMN_ERROR_NOMEM_def JSMN_ERROR_INVAL_def\<close>)

lemma jsmn_open_more:
  assumes "jsmn_inv js n P c" and "jp_pos P < length js" and "\<And>Q. jp_pos Q = jp_pos P \<Longrightarrow> jsmn_char js Q = jsmn_open d Q"
  shows "extends (jsmn_char js) n x P"
proof -
  obtain ts where ts: "jp_toks P = Some ts" "length ts = n" "jp_toknext P \<le> n" "- 1 \<le> jp_toksuper P" "jp_toksuper P < int (jp_toknext P)"
    using assms(1) by (auto simp: jsmn_inv_def)
  show ?thesis
  proof (cases "jsmn_alloc_token ts P")
    case None
    with ts have "n \<le> jp_toknext P" by (auto simp: jsmn_alloc_token_def Let_def split: if_splits)
    with None ts assms(3) [of P] show ?thesis by (simp add: jsmn_open_def extends_def)
  next
    case (Some iP)
    obtain i P1 where iP: "iP = (i, P1)" by (cases iP)
    note al = jsmn_alloc_token_Some [OF Some [unfolded iP]] and al' = alloc_more [OF ts(1) Some [unfolded iP], of x]
    obtain ts1 where ts1: "jp_toks P1 = Some ts1" "length ts1 = n" using al ts by auto
    obtain P2 where g: "grow_super P1 = Inr P2" "grow_super (enlarge x P1) = Inr (enlarge x P2)" "\<exists>ts2. jp_toks P2 = Some ts2 \<and> length ts2 = n"
    proof (cases "jp_toksuper P1 = - 1")
      case True
      with ts1 that [of P1] show thesis by (simp add: grow_super_def)
    next
      case False
      with ts ts1 al that [of "set_tok (nat (jp_toksuper P1)) (\<lambda>t. t\<lparr>tok_size := tok_size t + 1\<rparr>) P1"] show thesis
        by (auto simp: grow_super_def super_index_def set_tok_more)
    qed
    with ts ts1 al al' Some iP assms(3) [of P] assms(3) [of "enlarge x P"] grow_super_Inr [OF g(1)] show ?thesis
      by (auto simp: extends_def jsmn_open_def set_tok_more)
  qed
qed

lemma jsmn_close_more:
  assumes "jsmn_inv js n P c" and "\<And>Q. jp_pos Q = jp_pos P \<Longrightarrow> jsmn_char js Q = Inr (jsmn_close d Q)"
  shows "extends (jsmn_char js) n x P"
proof -
  obtain ts where ts: "jp_toks P = Some ts" "length ts = n" "jp_toknext P \<le> n" using assms(1) by (auto simp: jsmn_inv_def)
  show ?thesis
  proof (cases "search_down tok_open ts (jp_toknext P)")
    case None
    with ts assms(2) [of P] assms(2) [of "enlarge x P"] show ?thesis
      by (simp add: extends_def jsmn_close_def search_down_more JSMN_ERROR_INVAL_def JSMN_ERROR_NOMEM_def)
  next
    case (Some i)
    note i = search_down_Some [OF Some]
    with Some ts assms(2) [of P] assms(2) [of "enlarge x P"] show ?thesis
      by (auto simp: extends_def jsmn_close_def search_down_more set_tok_more nth_append Let_def JSMN_ERROR_INVAL_def JSMN_ERROR_NOMEM_def
          split: option.split)
  qed
qed

lemma jsmn_comma_more:
  assumes "jsmn_inv js n P c" and "\<And>Q. jp_pos Q = jp_pos P \<Longrightarrow> jsmn_char js Q = jsmn_comma Q"
  shows "extends (jsmn_char js) n x P"
proof -
  obtain ts where ts: "jp_toks P = Some ts" "length ts = n" "jp_toknext P \<le> n" "- 1 \<le> jp_toksuper P" "jp_toksuper P < int (jp_toknext P)"
    using assms(1) by (auto simp: jsmn_inv_def)
  with assms(2) [of P] assms(2) [of "enlarge x P"] show ?thesis
    by (auto simp: extends_def jsmn_comma_def super_index_def search_down_more nth_append split: option.split)
qed

lemma jsmn_char_more:
  assumes "jsmn_inv js n P c" and "jp_pos P < length js" and "js ! jp_pos P \<noteq> NUL"
  shows "extends (jsmn_char js) n x P"
proof (cases rule: jsmn_char_cases [of P js])
  case (opens c')
  then show ?thesis by (intro jsmn_open_more [OF assms(1,2), of c']) auto
next
  case (closes c')
  then show ?thesis by (intro jsmn_close_more [OF assms(1), of c']) auto
next
  case str
  obtain r P1 where r: "jsmn_parse_string js P = (r, P1)" by fastforce
  have "0 \<le> r \<Longrightarrow> jsmn_inv js n P1 (c + 1)" using parse_string_inv [OF assms(1,2) r] by simp
  with str r parse_string_more [OF assms(1) r, of x] show ?thesis
    by (intro count_token_more [where p = "jsmn_parse_string js" and r = r and Q = P1 and c = "c + 1"]) (auto simp: JSMN_ERROR_NOMEM_def)
next
  case comma
  then show ?thesis by (intro jsmn_comma_more [OF assms(1)]) auto
next
  case prim
  obtain r P1 where r: "jsmn_parse_primitive js P = (r, P1)" by fastforce
  have "0 \<le> r \<Longrightarrow> jsmn_inv js n P1 (c + 1)" using parse_primitive_inv [OF assms(1,2) r _ assms(3) prim(1)] by simp
  with prim r parse_primitive_more [OF assms(1) r, of x] show ?thesis
    by (intro count_token_more [where p = "jsmn_parse_primitive js" and r = r and Q = P1 and c = "c + 1"]) (auto simp: JSMN_ERROR_NOMEM_def)
qed (auto simp: extends_def)

section \<open>Resuming\<close>

text \<open>A state the tokenizer can be in: it never has more tokens than characters behind it.\<close>

definition resumable :: "string \<Rightarrow> nat \<Rightarrow> jsmn_parser \<Rightarrow> bool" where
  "resumable js n P \<longleftrightarrow> jsmn_inv js n P (int (jp_toknext P)) \<and> jp_toknext P \<le> jp_pos P"

lemma resumable_init: "resumable js (length mem) (jsmn_init (Some mem))"
  by (simp add: resumable_def jsmn_inv_def jsmn_init_def)

lemma resumable_enlarge: "resumable js n P \<Longrightarrow> resumable js (n + length x) (enlarge x P)"
  by (auto simp: resumable_def jsmn_inv_def nth_append)

text \<open>The same end: the parsers are equal, and so are the results unless both are counts.\<close>

definition same_end :: "fault + int \<times> jsmn_parser \<Rightarrow> fault + int \<times> jsmn_parser \<Rightarrow> bool" where
  "same_end a b = (case (a, b) of
      (Inl e, Inl e') \<Rightarrow> e = e'
    | (Inr (r, P), Inr (r', P')) \<Rightarrow> P = P' \<and> (r = r' \<or> 0 \<le> r \<and> 0 \<le> r')
    | _ \<Rightarrow> False)"

lemma same_end_refl [simp]: "same_end a a"
  by (auto simp: same_end_def split: sum.split)

lemma same_end_trans: "same_end a b \<Longrightarrow> same_end b c \<Longrightarrow> same_end a c"
  by (auto simp: same_end_def split: sum.splits prod.splits)

lemma same_end_sym: "same_end a b \<Longrightarrow> same_end b a"
  by (auto simp: same_end_def split: sum.splits prod.splits)

lemma same_end_Inr: "same_end (Inr (r, P)) b \<Longrightarrow> \<exists>r'. b = Inr (r', P) \<and> (r' = r \<or> 0 \<le> r \<and> 0 \<le> r')"
  by (auto simp: same_end_def split: sum.splits)

text \<open>Every parse ends in a state from which it can be resumed, and at a successful end everything is closed.\<close>

context token_loop
begin

lemma resumable_step:
  assumes "resumable js n P" and "more_text js P" and "step js P = Inr (Go k P')"
  shows "resumable js n (next_char P')" "0 \<le> k"
proof -
  have i: "jsmn_inv js n P' (int (jp_toknext P) + k)" and k01: "k = 0 \<or> k = 1"
    using step_inv [of js n P _ k P'] assms by (auto simp: resumable_def)
  from i have k: "int (jp_toknext P') = int (jp_toknext P) + k" by (auto simp: jsmn_inv_def)
  then show "resumable js n (next_char P')" "0 \<le> k"
    using k01 i jsmn_inv_advance [OF i] step_ahead [OF assms(3,2)] assms(1) by (auto simp: resumable_def)
qed

lemma loop_keeps:
  assumes "loop js P c = Inr (r, F)" and "I P"
    and "\<And>P k P'. I P \<Longrightarrow> more_text js P \<Longrightarrow> step js P = Inr (Go k P') \<Longrightarrow> I (next_char P')"
  shows "I F"
proof -
  have "\<forall>P d k P'. I P \<longrightarrow> more_text js P \<longrightarrow> step js P = Inr (Go k P') \<longrightarrow> I (next_char P')" using assms(3) by blast
  from loop_rule [of "\<lambda>P d. I P" P c js, OF assms(2) this] assms(1) show ?thesis by auto
qed

lemma loop_resumable: "resumable js n P \<Longrightarrow> loop js P c = Inr (r, F) \<Longrightarrow> resumable js n F"
  using loop_keeps [of js P c r F "resumable js n"] resumable_step(1) by blast

lemma loop_closed:
  assumes "loop js P c = Inr (r, F)" and "0 \<le> r" and "jp_toks F = Some ts"
  shows "search_down tok_open ts (jp_toknext F) = None"
  using loop_rule [of "\<lambda>P d. True" P c js] assms jsmn_end_closed [of F ts] by auto

text \<open>The count that the loop starts with has no effect on the parser.\<close>

lemma loop_count: "resumable js n P \<Longrightarrow> 0 \<le> c \<Longrightarrow> 0 \<le> d \<Longrightarrow> same_end (loop js P c) (loop js P d)"
proof (induction P c arbitrary: d rule: loop_induct [of js])
  case (halt P c)
  then show ?case by (auto simp: loop_halt jsmn_end_def same_end_def split: option.split)
next
  case (go P c k P')
  with resumable_step [OF go.prems(1) go.hyps] go.IH [of "d + k"] show ?case by (simp add: loop_go [OF go.hyps])
qed (simp_all add: loop_fault loop_stop)

end

text \<open>With more tokens the parse goes the same way up to the point where the tokens ran out.\<close>

locale growing_loop = token_loop +
  assumes step_more: "jsmn_inv js n P c \<Longrightarrow> more_text js P \<Longrightarrow> extends (step js) n x P"
begin

lemma loop_more:
  "resumable js n P \<Longrightarrow> 0 \<le> c \<Longrightarrow> (case loop js P c of
      Inl e \<Rightarrow> loop js (enlarge x P) c = Inl e
    | Inr (r, P') \<Rightarrow> if r = JSMN_ERROR_NOMEM
        then resumable js n P' \<and> n < length js \<and> (\<exists>d \<ge> 0. loop js (enlarge x P) c = loop js (enlarge x P') d)
        else loop js (enlarge x P) c = Inr (r, enlarge x P'))"
proof (induction P c rule: loop_induct [of js])
  case (halt P c)
  obtain ts where "jp_toks P = Some ts" "jp_toknext P \<le> length ts" using halt.prems(1) by (auto simp: resumable_def jsmn_inv_def)
  with halt show ?case
    by (auto simp: loop_halt jsmn_end_def search_down_more JSMN_ERROR_NOMEM_def JSMN_ERROR_PART_def)
next
  case (fault P c e)
  with step_more [of js n P _ x] show ?case by (auto simp: loop_fault extends_def resumable_def)
next
  case (stop P c r)
  have ext: "extends (step js) n x P" using step_more [of js n P _ x] stop by (auto simp: resumable_def)
  show ?case
  proof (cases "r = JSMN_ERROR_NOMEM")
    case True
    with ext stop show ?thesis by (auto simp: loop_stop extends_def resumable_def)
  next
    case False
    with ext stop.hyps(2) have "step js (enlarge x P) = Inr (Stop r (enlarge x P))" by (simp add: extends_def)
    with False stop show ?thesis by (simp add: loop_stop)
  qed
next
  case (go P c k P')
  have "extends (step js) n x P" using step_more [of js n P _ x] go by (auto simp: resumable_def)
  with go.hyps(2) have e: "step js (enlarge x P) = Inr (Go k (enlarge x P'))" by (simp add: extends_def)
  have l: "loop js (enlarge x P) c = loop js (enlarge x (next_char P')) (c + k)"
    using go.hyps(1) loop_go [OF _ e, of c] by simp
  have "resumable js n (next_char P')" "0 \<le> c + k" using resumable_step [OF go.prems(1) go.hyps] go.prems(2) by auto
  from go.IH [OF this] show ?case unfolding loop_go [OF go.hyps] l .
qed

end

interpretation plain_growth: growing_loop jsmn_char jsmn_loop "\<lambda>c. c = CHR '',''"
  by unfold_locales (use jsmn_char_more in blast)

section \<open>Doubling the array\<close>

text \<open>The loop at the label \<^verbatim>\<open>again\<close>: \<open>g n\<close> is a block for \<open>n\<close> tokens with its contents, or \<open>None\<close> when there is no
  memory, which ends the program. \<^verbatim>\<open>realloc\<close> overwrites the front of the block with the old tokens.\<close>

partial_function (option) parse_again ::
  "(nat \<Rightarrow> jsmntok list option) \<Rightarrow> string \<Rightarrow> jsmn_parser \<Rightarrow> (fault + (int \<times> jsmn_parser) option) option" where
  "parse_again g js P = (case jsmn_parse js P of
      Inl e \<Rightarrow> Some (Inl e)
    | Inr (r, P') \<Rightarrow>
        if r = JSMN_ERROR_NOMEM then
          (let tokcount = length (the (jp_toks P')) in
           case g (tokcount * 2) of
             None \<Rightarrow> Some (Inr None)
           | Some block \<Rightarrow> parse_again g js (enlarge (drop tokcount block) P'))
        else Some (Inr (Some (r, P'))))"

declare parse_again.simps [code]

definition realloc_ok :: "(nat \<Rightarrow> jsmntok list option) \<Rightarrow> bool" where
  "realloc_ok g \<longleftrightarrow> (\<forall>n x. g n = Some x \<longrightarrow> length x = n)"

text \<open>How the loop ends, compared with a parse that has enough tokens from the start.\<close>

definition again_end :: "(nat \<Rightarrow> jsmntok list option) \<Rightarrow> string \<Rightarrow> jsmn_parser \<Rightarrow> fault + (int \<times> jsmn_parser) option \<Rightarrow> bool" where
  "again_end g js P y = (case y of
      Inr None \<Rightarrow> \<exists>n. g n = None
    | Inl e \<Rightarrow> \<exists>x. jsmn_parse js (enlarge x P) = Inl e
    | Inr (Some (r, P')) \<Rightarrow> r \<noteq> JSMN_ERROR_NOMEM \<and> (\<exists>x. same_end (jsmn_parse js (enlarge x P)) (Inr (r, P'))))"

lemma enlarge_enlarge [simp]: "enlarge y (enlarge x P) = enlarge (x @ y) P"
  by (simp add: enlarge_def option.map_comp comp_def)

lemma enlarge_Nil [simp]: "enlarge [] P = P"
  by (simp add: enlarge_def option.map_ident)

lemma again_end_step:
  assumes y: "again_end g js (enlarge x P') y"
    and same: "\<And>z. same_end (jsmn_parse js (enlarge (x @ z) P)) (jsmn_parse js (enlarge (x @ z) P'))"
  shows "again_end g js P y"
proof (cases y)
  case (Inl e)
  with y obtain z where "jsmn_parse js (enlarge (x @ z) P') = Inl e" by (auto simp: again_end_def)
  with same [of z] have "jsmn_parse js (enlarge (x @ z) P) = Inl e" by (auto simp: same_end_def split: sum.splits)
  with Inl show ?thesis by (auto simp: again_end_def)
next
  case (Inr q)
  show ?thesis
  proof (cases q)
    case None
    with Inr y show ?thesis by (simp add: again_end_def)
  next
    case (Some w)
    obtain r P'' where w: "w = (r, P'')" by fastforce
    with Some Inr y obtain z where "r \<noteq> JSMN_ERROR_NOMEM" and "same_end (jsmn_parse js (enlarge (x @ z) P')) (Inr (r, P''))"
      by (auto simp: again_end_def)
    with w Some Inr same_end_trans [OF same [of z]] show ?thesis by (auto simp: again_end_def)
  qed
qed

lemma parse_again_ends:
  "resumable js n P \<Longrightarrow> 0 < n \<Longrightarrow> realloc_ok g \<Longrightarrow> \<exists>y. parse_again g js P = Some y \<and> again_end g js P y \<and>
     (\<forall>r P'. y = Inr (Some (r, P')) \<longrightarrow> (\<exists>m \<ge> n. resumable js m P'))"
proof (induction "length js - n" arbitrary: n P rule: less_induct)
  case less
  show ?case
  proof (cases "\<exists>P'. jsmn_parse js P = Inr (JSMN_ERROR_NOMEM, P')")
    case False
    then show ?thesis
      using plain_tokens.loop_resumable [OF less.prems(1), of 0]
      by (intro exI [of _ "map_sum id Some (jsmn_parse js P)"])
        (auto simp: jsmn_parse_def parse_again.simps [of g js P] again_end_def split: sum.split prod.split intro!: exI [of _ "[]"])
  next
    case True
    then obtain P' where P': "jsmn_parse js P = Inr (JSMN_ERROR_NOMEM, P')" by blast
    have more: "resumable js n P' \<and> n < length js \<and> (\<exists>d \<ge> 0. jsmn_loop js (enlarge x P) 0 = jsmn_loop js (enlarge x P') d)" for x
      using plain_growth.loop_more [OF less.prems(1), of 0 x] P' by (simp add: jsmn_parse_def)
    have len: "length (the (jp_toks P')) = n" using more [of "[]"] by (auto simp: resumable_def jsmn_inv_def)
    show ?thesis
    proof (cases "g (n * 2)")
      case None
      with P' len show ?thesis by (auto simp: parse_again.simps [of g js P] again_end_def)
    next
      case (Some block)
      let ?x = "drop n block"
      have x: "length ?x = n" using Some less.prems(3) by (simp add: realloc_ok_def)
      have r: "resumable js (n + n) (enlarge ?x P')" using resumable_enlarge [of js n P' ?x] more x by simp
      have lt: "length js - (n + n) < length js - n" using conjunct1 [OF conjunct2 [OF more]] less.prems(2) by linarith
      obtain y where y: "parse_again g js (enlarge ?x P') = Some y" "again_end g js (enlarge ?x P') y"
        and m: "\<And>r P'. y = Inr (Some (r, P')) \<Longrightarrow> \<exists>m \<ge> n + n. resumable js m P'"
        using less.hyps [OF lt r _ less.prems(3)] less.prems(2) by blast
      have same: "same_end (jsmn_parse js (enlarge (?x @ z) P)) (jsmn_parse js (enlarge (?x @ z) P'))" for z
      proof -
        obtain d where d: "0 \<le> d" "jsmn_loop js (enlarge (?x @ z) P) 0 = jsmn_loop js (enlarge (?x @ z) P') d"
          using more by blast
        moreover have "resumable js (n + length (?x @ z)) (enlarge (?x @ z) P')" using more by (intro resumable_enlarge) simp
        ultimately show ?thesis using plain_tokens.loop_count [of js _ "enlarge (?x @ z) P'" d 0] by (simp add: jsmn_parse_def)
      qed
      have "again_end g js P y" by (rule again_end_step [OF y(2) same])
      moreover have "\<exists>m \<ge> n. resumable js m P'" if "y = Inr (Some (r, P'))" for r P'
        using m [OF that] by (meson le_add1 order_trans)
      ultimately show ?thesis using P' len Some y(1) by (auto simp: parse_again.simps [of g js P])
    qed
  qed
qed

lemma enlarge_init [simp]: "enlarge x (jsmn_init (Some mem)) = jsmn_init (Some (mem @ x))"
  by (simp add: enlarge_def jsmn_init_def)

text \<open>
  C14. Parsing with a growing array ends, and nothing is lost by starting small. For every text and
  every array that is not empty, the loop that doubles the array and calls the tokenizer again
  returns; unless an allocation fails, its result is that of a single parse with an array that was
  large enough from the start: the same tokens and the same parser, with the same error code or
  with a count in both cases.
\<close>

theorem parse_again_terminates:
  assumes "realloc_ok g" and "mem \<noteq> []"
  shows "\<exists>y. parse_again g js (jsmn_init (Some mem)) = Some y \<and> (case y of
      Inr None \<Rightarrow> \<exists>n. g n = None
    | Inl e \<Rightarrow> \<exists>x. jsmn_parse js (jsmn_init (Some (mem @ x))) = Inl e
    | Inr (Some (r, P)) \<Rightarrow> r \<noteq> JSMN_ERROR_NOMEM \<and>
        (\<exists>x r'. jsmn_parse js (jsmn_init (Some (mem @ x))) = Inr (r', P) \<and> (r' = r \<or> 0 \<le> r' \<and> 0 \<le> r)))"
proof -
  obtain y where y: "parse_again g js (jsmn_init (Some mem)) = Some y" "again_end g js (jsmn_init (Some mem)) y"
    using parse_again_ends [OF resumable_init _ assms(1), of mem js] assms(2) by auto
  have "same_end a (Inr (r, P)) \<Longrightarrow> \<exists>r'. a = Inr (r', P) \<and> (r' = r \<or> 0 \<le> r' \<and> 0 \<le> r)" for a r P
    by (auto simp: same_end_def split: sum.splits)
  with y show ?thesis
    by (intro exI [of _ y]) (simp add: again_end_def split: sum.splits option.splits prod.splits, blast)
qed

definition demo_realloc :: "nat \<Rightarrow> jsmntok list option" where
  "demo_realloc n = Some (blank_tokens n)"

lemma demo_realloc_ok: "realloc_ok demo_realloc"
  by (simp add: realloc_ok_def demo_realloc_def blank_tokens_def)

theorem parse_again_terminates_witness:
  "\<exists>r P x r'. parse_again demo_realloc ''{k: [1, 2]}'' (jsmn_init (Some (blank_tokens 2))) = Some (Inr (Some (r, P))) \<and>
     jsmn_parse ''{k: [1, 2]}'' (jsmn_init (Some (blank_tokens 2 @ x))) = Inr (r', P)"
proof -
  have "map_option (\<lambda>y. case y of Inr (Some _) \<Rightarrow> True | _ \<Rightarrow> False) (parse_again demo_realloc ''{k: [1, 2]}'' (jsmn_init (Some (blank_tokens 2)))) = Some True"
    by code_simp
  then obtain r P where "parse_again demo_realloc ''{k: [1, 2]}'' (jsmn_init (Some (blank_tokens 2))) = Some (Inr (Some (r, P)))"
    by (cases "parse_again demo_realloc ''{k: [1, 2]}'' (jsmn_init (Some (blank_tokens 2)))") (fastforce split: sum.splits option.splits)+
  with parse_again_terminates [OF demo_realloc_ok, of "blank_tokens 2" "''{k: [1, 2]}''"] show ?thesis
    by (auto simp: blank_tokens_def)
qed

end
