(* ===== verification/Jsmn_Pieces.thy ===== *)
theory Jsmn_Pieces
  imports Jsmn_Resume
begin

text \<open>
  Feeding a text to the tokenizer in pieces: the parse of the first piece ends in a state from which
  the parse of the whole text goes on exactly as if it had not been interrupted, unless the pieces
  divide a primitive. A divided string is read again from its opening quote, but a primitive at the
  end of a piece is taken to be complete.
\<close>

section \<open>Tokens that are complete stay as they are\<close>

definition kept :: "jsmn_parser \<Rightarrow> jsmn_parser \<Rightarrow> bool" where
  "kept P Q \<longleftrightarrow> jp_toknext P \<le> jp_toknext Q \<and> (\<forall>i < jp_toknext P. tok_end (the (jp_toks P) ! i) \<noteq> - 1 \<longrightarrow>
     tok_type (the (jp_toks Q) ! i) = tok_type (the (jp_toks P) ! i) \<and>
     tok_start (the (jp_toks Q) ! i) = tok_start (the (jp_toks P) ! i) \<and>
     tok_end (the (jp_toks Q) ! i) = tok_end (the (jp_toks P) ! i))"

lemma kept_refl [simp]: "kept P P"
  by (simp add: kept_def)

lemma kept_trans: "kept P Q \<Longrightarrow> kept Q R \<Longrightarrow> kept P R"
  by (fastforce simp: kept_def)

lemma kept_frame [simp]: "kept P (Q\<lparr>jp_pos := p\<rparr>) = kept P Q" "kept P (Q\<lparr>jp_toksuper := s\<rparr>) = kept P Q"
  "kept (P\<lparr>jp_pos := p\<rparr>) Q = kept P Q"
  by (simp_all add: kept_def)

lemma kept_set_tok:
  assumes "jp_toks P = Some ts" and "jp_toknext P \<le> length ts"
    and "tok_end (ts ! i) \<noteq> - 1 \<Longrightarrow> tok_type (f (ts ! i)) = tok_type (ts ! i) \<and> tok_start (f (ts ! i)) = tok_start (ts ! i) \<and>
      tok_end (f (ts ! i)) = tok_end (ts ! i)"
  shows "kept P (set_tok i f P)"
proof -
  have "tok_type (ts[i := f (ts ! i)] ! j) = tok_type (ts ! j) \<and> tok_start (ts[i := f (ts ! i)] ! j) = tok_start (ts ! j) \<and>
      tok_end (ts[i := f (ts ! i)] ! j) = tok_end (ts ! j)" if "j < jp_toknext P" "tok_end (ts ! j) \<noteq> - 1" for j
    using that assms by (cases "i = j") auto
  with assms(1) show ?thesis by (simp add: kept_def)
qed

lemma kept_grow: "grow_super P = Inr Q \<Longrightarrow> jp_toks P = Some ts \<Longrightarrow> jp_toknext P \<le> length ts \<Longrightarrow> kept P Q"
  by (auto simp: grow_super_def intro!: kept_set_tok split: option.splits if_splits)

lemma kept_alloc: "jsmn_alloc_token ts P = Some (i, Q) \<Longrightarrow> jp_toks P = Some ts \<Longrightarrow> kept P Q"
  by (auto simp: kept_def dest!: jsmn_alloc_token_Some)

lemma kept_put:
  assumes "put_token ty st en P = (r, Q)" and "jp_toks P = Some ts"
  shows "kept P Q"
proof (cases "jsmn_alloc_token ts P")
  case None
  with assms show ?thesis by (simp add: put_token_def)
next
  case (Some x)
  then show ?thesis
    using assms by (cases x) (auto simp: put_token_def kept_def dest!: jsmn_alloc_token_Some)
qed

lemma toks_grow: "grow_super P = Inr Q \<Longrightarrow> jp_toks P = Some ts \<Longrightarrow> \<exists>us. jp_toks Q = Some us \<and> length us = length ts"
  by (auto simp: grow_super_def split: option.splits if_splits)

lemma put_token_toks:
  "put_token ty st en P = (r, Q) \<Longrightarrow> jp_toks P = Some ts \<Longrightarrow> jp_toknext P \<le> length ts \<Longrightarrow>
     \<exists>us. jp_toks Q = Some us \<and> length us = length ts \<and> jp_toknext Q \<le> length us"
  by (auto simp: put_token_def dest!: jsmn_alloc_token_Some split: option.splits)

lemma kept_count:
  assumes "count_token (r, Q) = Inr (Go k P')" and "put_token ty st en P = (r0, Q0)" and "Q = Q0\<lparr>jp_pos := p\<rparr>"
    and "jp_toks P = Some ts" and "jp_toknext P \<le> length ts"
  shows "kept P P'"
proof -
  obtain us where "jp_toks Q0 = Some us" "jp_toknext Q0 \<le> length us" using put_token_toks [OF assms(2,4,5)] by blast
  then have "kept Q P'" using assms(1,3) by (intro kept_grow) (auto dest: count_token_Go)
  with kept_put [OF assms(2,4)] assms(3) show ?thesis by (auto intro: kept_trans)
qed

lemma kept_open:
  assumes "jsmn_open c P = Inr (Go k P')" and "jp_toks P = Some ts" and "jp_toknext P \<le> length ts"
  shows "kept P P'"
proof -
  obtain i P1 P2 f where al: "jsmn_alloc_token ts P = Some (i, P1)" "grow_super P1 = Inr P2"
    and P': "P' = (set_tok i f P2)\<lparr>jp_toksuper := int (jp_toknext P2) - 1\<rparr>"
    using assms(1,2) by (auto simp: jsmn_open_def split: option.splits sum.splits)
  note a = jsmn_alloc_token_Some [OF al(1)]
  have "kept P P1" by (rule kept_alloc [OF al(1) assms(2)])
  moreover have "kept P1 P2" using a by (intro kept_grow [OF al(2)]) auto
  ultimately have k: "kept P P2" by (rule kept_trans)
  obtain us where "jp_toks P2 = Some us" using toks_grow [OF al(2)] a by auto
  then have "kept P (set_tok i f P2)"
    using k a grow_super_Inr [OF al(2)] by (auto simp: kept_def)
  with P' show ?thesis by simp
qed

lemma kept_close:
  assumes "jsmn_close c P = Go k P'" and "jp_toks P = Some ts" and "jp_toknext P \<le> length ts"
  shows "kept P P'"
proof -
  obtain i where i: "search_down tok_open ts (jp_toknext P) = Some i"
    using assms(1,2) by (auto simp: jsmn_close_def Let_def split: option.splits)
  then have "tok_end (ts ! i) = - 1" by (auto dest!: search_down_Some simp: tok_open_def)
  then have "kept P (set_tok i (\<lambda>t. t\<lparr>tok_end := e\<rparr>) P)" for e using assms(2,3) by (intro kept_set_tok) auto
  then show ?thesis
    using assms(1,2) i by (auto simp: jsmn_close_def Let_def split: option.splits if_splits)
qed

lemma kept_char:
  assumes "jsmn_inv js n P c" and "jsmn_char js P = Inr (Go k P')"
  shows "kept P P'"
proof -
  obtain ts where ts: "jp_toks P = Some ts" "jp_toknext P \<le> length ts" using assms(1) by (auto simp: jsmn_inv_def)
  have str: "kept P P'" if "count_token (jsmn_parse_string js P) = Inr (Go k P')"
    using that ts by (auto simp: jsmn_parse_string_def Let_def count_token_def [of "(JSMN_ERROR_PART, P)"]
        count_token_def [of "(JSMN_ERROR_INVAL, P)"] JSMN_ERROR_PART_def JSMN_ERROR_INVAL_def
        intro: kept_count split: str_result.splits prod.splits if_splits dest: count_token_Go)
  have prim: "kept P P'" if "count_token (jsmn_parse_primitive js P) = Inr (Go k P')"
    using that ts by (auto simp: jsmn_parse_primitive_def Let_def
        count_token_def [of "(JSMN_ERROR_INVAL, P)"] JSMN_ERROR_INVAL_def
        intro: kept_count split: option.splits prod.splits if_splits dest: count_token_Go)
  have comma: "kept P P'" if "jsmn_comma P = Inr (Go k P')"
    using that by (auto simp: jsmn_comma_def split: option.splits if_splits)
  show ?thesis
    using assms(2) str prim comma kept_open [OF _ ts] kept_close [OF _ ts]
    by (auto simp: jsmn_char_def Let_def split: if_splits)
qed

section \<open>One character\<close>

text \<open>A scan that ends within the first piece ends there in the whole text too.\<close>

lemma hex_scan_piece: "hex_scan n s = Some r \<Longrightarrow> r \<noteq> [] \<Longrightarrow> hex_scan n (s @ t) = Some (r @ t)"
  by (induction n s rule: hex_scan.induct) (auto split: if_splits)

lemma str_scan_piece: "str_scan s p = Closed q \<Longrightarrow> str_scan (s @ t) p = Closed q"
proof (induction s p rule: str_scan.induct)
  case (2 c cs p)
  show ?case
  proof (cases "c = NUL \<or> c = CHR 0x22 \<or> \<not> (c = CHR 0x5C \<and> cs \<noteq> [])")
    case True
    with 2(3,4) show ?thesis by (cases cs) (auto split: if_splits)
  next
    case False
    then have [simp]: "c = CHR 0x5C" "cs \<noteq> []" "hd (cs @ t) = hd cs" "tl (cs @ t) = tl cs @ t" by auto
    show ?thesis
    proof (cases "is_escape (hd cs)")
      case True
      with 2(1,4) False show ?thesis by simp
    next
      case esc: False
      with 2(4) False have u: "hd cs = CHR ''u''" by (simp split: if_splits)
      with 2(4) False esc obtain r where r: "hex_scan 4 (tl cs) = Some r"
        and closed: "str_scan r (p + 2 + (length (tl cs) - length r)) = Closed q"
        by (auto split: option.splits)
      from closed have "r \<noteq> []" by (cases r) auto
      with hex_scan_piece [OF r] 2(2) [OF _ _ _ esc u r closed] False esc u show ?thesis by simp
    qed
  qed
qed simp

lemma prim_scan_piece:
  "prim_scan s p = Some q \<Longrightarrow> prim_scan (s @ t) p = Some q \<or> prim_scan (s @ t) p = None \<or>
     q = p + length s \<and> (\<exists>q'. prim_scan (s @ t) p = Some q' \<and> q < q')"
proof (induction s p rule: prim_scan.induct)
  case (1 p)
  then show ?case by (cases "prim_scan t p") (auto dest: prim_scan_ge simp: le_less)
next
  case (2 c cs p)
  then show ?case by (auto split: if_splits)
qed

text \<open>A primitive that reaches over the position \<open>m\<close>.\<close>

definition has_cut :: "nat \<Rightarrow> jsmn_parser \<Rightarrow> bool" where
  "has_cut m P \<longleftrightarrow> (\<exists>i < jp_toknext P. tok_type (the (jp_toks P) ! i) = JSMN_PRIMITIVE \<and>
     tok_start (the (jp_toks P) ! i) < int m \<and> int m < tok_end (the (jp_toks P) ! i))"

lemma has_cut_kept:
  assumes "has_cut m P" and "kept P Q"
  shows "has_cut m Q"
proof -
  obtain i where i: "i < jp_toknext P" "tok_type (the (jp_toks P) ! i) = JSMN_PRIMITIVE"
    "tok_start (the (jp_toks P) ! i) < int m" "int m < tok_end (the (jp_toks P) ! i)"
    using assms(1) by (auto simp: has_cut_def)
  with assms(2) show ?thesis by (auto simp: has_cut_def kept_def intro!: exI [of _ i])
qed

text \<open>A step that puts such a primitive, or refuses it.\<close>

definition cut_step :: "(jsmn_parser \<Rightarrow> bool) \<Rightarrow> fault + jsmn_step \<Rightarrow> bool" where
  "cut_step C x = (case x of Inl e \<Rightarrow> False | Inr (Stop r Q) \<Rightarrow> r = JSMN_ERROR_INVAL | Inr (Go k Q) \<Rightarrow> C Q)"

lemma cut_primitive:
  assumes inv: "jsmn_inv js n P c" and lt: "jp_toknext P < n" and st: "st < m" and en: "m < en"
  shows "\<exists>Q. put_token JSMN_PRIMITIVE st en P = (0, Q) \<and> (\<forall>p. \<exists>R. grow_super (Q\<lparr>jp_pos := p\<rparr>) = Inr R \<and> has_cut m R)"
proof -
  obtain ts where ts: "jp_toks P = Some ts" "length ts = n" "- 1 \<le> jp_toksuper P" "jp_toksuper P < int (jp_toknext P)"
    using inv by (auto simp: jsmn_inv_def)
  obtain Q where Q: "put_token JSMN_PRIMITIVE st en P = (0, Q)" and t: "the (jp_toks Q) ! jp_toknext P = \<lparr>tok_type = JSMN_PRIMITIVE, tok_start = int st, tok_end = int en, tok_size = 0\<rparr>"
    and Q': "jp_toknext Q = Suc (jp_toknext P)" "jp_toksuper Q = jp_toksuper P" "\<exists>us. jp_toks Q = Some us \<and> length us = n"
    using ts lt by (auto simp: put_token_def jsmn_alloc_token_def Let_def jsmn_fill_token_def)
  have c: "has_cut m Q" using t Q'(1) st en by (auto simp: has_cut_def)
  obtain us where us: "jp_toks Q = Some us" "length us = n" using Q'(3) by blast
  have "\<exists>R. grow_super (Q\<lparr>jp_pos := p\<rparr>) = Inr R" for p
    using us ts lt Q' by (auto simp: grow_super_def super_index_def)
  moreover have "has_cut m R" if "grow_super (Q\<lparr>jp_pos := p\<rparr>) = Inr R" for p R
  proof (rule has_cut_kept [OF c])
    have "kept (Q\<lparr>jp_pos := p\<rparr>) R" using us lt Q'(1) by (intro kept_grow [OF that, of us]) auto
    then show "kept Q R" by simp
  qed
  ultimately show ?thesis using Q by blast
qed

lemma parse_string_piece:
  "jp_pos P < length js1 \<Longrightarrow>
     jsmn_parse_string (js1 @ js2) P = jsmn_parse_string js1 P \<or> (\<exists>r < 0. jsmn_parse_string js1 P = (r, P))"
  using str_scan_piece [of "drop (jp_pos P + 1) js1" "jp_pos P + 1" _ js2]
  by (auto simp: jsmn_parse_string_def Let_def JSMN_ERROR_INVAL_def JSMN_ERROR_PART_def split: str_result.split)

lemma parse_primitive_piece:
  fixes js2 :: string
  assumes "jsmn_inv js1 n P c" and "jp_pos P < length js1"
  defines "a \<equiv> count_token (jsmn_parse_primitive js1 P)" and "b \<equiv> count_token (jsmn_parse_primitive (js1 @ js2) P)"
  shows "b = a \<or> (\<exists>r. a = Inr (Stop r P)) \<or> cut_step (has_cut (length js1)) b"
proof (cases "prim_scan (drop (jp_pos P) js1) (jp_pos P)")
  case None
  then show ?thesis by (simp add: a_def jsmn_parse_primitive_def count_token_def JSMN_ERROR_INVAL_def)
next
  case (Some q)
  consider "prim_scan (drop (jp_pos P) js1 @ js2) (jp_pos P) = Some q" | "prim_scan (drop (jp_pos P) js1 @ js2) (jp_pos P) = None"
    | q' where "q = length js1" "prim_scan (drop (jp_pos P) js1 @ js2) (jp_pos P) = Some q'" "q < q'"
    using prim_scan_piece [OF Some, of js2] assms(2) by auto
  then show ?thesis
  proof cases
    case 1
    with Some assms(2) show ?thesis by (simp add: a_def b_def jsmn_parse_primitive_def)
  next
    case 2
    with assms(2) show ?thesis by (simp add: b_def jsmn_parse_primitive_def count_token_def cut_step_def JSMN_ERROR_INVAL_def)
  next
    case 3
    show ?thesis
    proof (cases "jp_toknext P < n")
      case True
      obtain Q R where "put_token JSMN_PRIMITIVE (jp_pos P) q' P = (0, Q)" "grow_super (Q\<lparr>jp_pos := q' - 1\<rparr>) = Inr R" "has_cut (length js1) R"
        using cut_primitive [OF assms(1) True assms(2), of q'] 3 by blast
      with 3 assms(2) show ?thesis by (simp add: b_def jsmn_parse_primitive_def count_token_def Let_def cut_step_def)
    next
      case False
      with assms(1) Some show ?thesis
        by (auto simp: a_def jsmn_inv_def jsmn_parse_primitive_def put_token_def jsmn_alloc_token_def count_token_def JSMN_ERROR_NOMEM_def)
    qed
  qed
qed

lemma jsmn_char_piece:
  assumes "jsmn_inv js1 n P c" and "jp_pos P < length js1"
  shows "jsmn_char (js1 @ js2) P = jsmn_char js1 P \<or> (\<exists>r. jsmn_char js1 P = Inr (Stop r P)) \<or>
    \<not> structural (js1 ! jp_pos P) \<and> cut_step (has_cut (length js1)) (jsmn_char (js1 @ js2) P)"
proof -
  have nth: "(js1 @ js2) ! jp_pos P = js1 ! jp_pos P" using assms(2) by (simp add: nth_append)
  show ?thesis
    using parse_string_piece [OF assms(2), of js2] parse_primitive_piece [OF assms, of js2] nth
    by (auto simp: jsmn_char_def Let_def structural_def count_token_def [of "(_, P)"])
qed

section \<open>The rest of the parse\<close>

lemma tok_in_longer: "tok_in js p t \<Longrightarrow> tok_in (js @ js') p t"
  by (auto simp: tok_in_def)

lemma resumable_longer: "resumable js n P \<Longrightarrow> resumable (js @ js') n P"
  by (auto simp: resumable_def jsmn_inv_def tok_in_longer)

text \<open>Loops in which a step at a character of the first piece does the same for the whole text, unless it
  ends the parse of the piece or cuts something in two.\<close>

locale piecewise_loop = token_loop +
  fixes cut :: "nat \<Rightarrow> jsmn_parser \<Rightarrow> bool"
  assumes step_kept: "jsmn_inv js n P c \<Longrightarrow> step js P = Inr (Go k P') \<Longrightarrow> kept P P'"
    and cut_kept: "cut m P \<Longrightarrow> kept P Q \<Longrightarrow> cut m Q"
    and step_piece: "jsmn_inv js1 n P c \<Longrightarrow> more_text js1 P \<Longrightarrow>
      step (js1 @ js2) P = step js1 P \<or> (\<exists>r. step js1 P = Inr (Stop r P)) \<or> cut_step (cut (length js1)) (step (js1 @ js2) P)"
begin

lemma loop_kept:
  assumes "resumable js n P" and "loop js P c = Inr (r, F)"
  shows "kept P F"
proof -
  have "resumable js n F \<and> kept P F"
  proof (rule loop_keeps [OF assms(2)])
    fix Q k Q'
    assume Q: "resumable js n Q \<and> kept P Q" "more_text js Q" "step js Q = Inr (Go k Q')"
    with step_kept [of js n Q _ k Q'] have "kept P Q'" by (auto simp: resumable_def intro: kept_trans)
    with resumable_step(1) [OF _ Q(2,3)] Q(1) show "resumable js n (next_char Q') \<and> kept P (next_char Q')" by simp
  qed (use assms(1) in simp)
  then show ?thesis by simp
qed

lemma loop_cut:
  assumes "resumable js n P" and "more_text js P" and "cut_step (cut m) (step js P)" and "loop js P c = Inr (r, F)" and "0 \<le> r"
  shows "cut m F"
proof -
  obtain k Q where Q: "step js P = Inr (Go k Q)" "cut m Q"
    using assms(2-5) step_stop by (fastforce simp: cut_step_def loop_stop split: sum.splits jsmn_step.splits)
  have "kept (next_char Q) F"
    using loop_kept [OF resumable_step(1) [OF assms(1,2) Q(1)]] assms(4) loop_go [OF assms(2) Q(1)] by simp
  with cut_kept [OF Q(2)] show ?thesis by simp
qed

lemma loop_piece:
  "resumable js n P \<Longrightarrow> 0 \<le> c \<Longrightarrow> loop (js @ js') P c = Inr (r, F) \<Longrightarrow> 0 \<le> r \<Longrightarrow> \<not> cut (length js) F \<Longrightarrow>
     \<exists>q P' d. loop js P c = Inr (q, P') \<and> 0 \<le> d \<and> loop (js @ js') P c = loop (js @ js') P' d"
proof (induction P c rule: loop_induct [of js])
  case (halt P c)
  then show ?case by (auto simp: loop_halt)
next
  case (stop P c e)
  then show ?case by (auto simp: loop_stop)
next
  case (fault P c e)
  have whole: "more_text (js @ js') P" using fault.hyps(1) by (simp add: nth_append)
  have "\<not> cut_step (cut (length js)) (step (js @ js') P)"
    using loop_cut [OF resumable_longer whole] fault.prems by blast
  with step_piece [of js n P _ js'] fault have "step (js @ js') P = Inl e" by (auto simp: resumable_def)
  with whole fault.prems(3) show ?case by (simp add: loop_fault)
next
  case (go P c k Q)
  have whole: "more_text (js @ js') P" using go.hyps(1) by (simp add: nth_append)
  have "\<not> cut_step (cut (length js)) (step (js @ js') P)"
    using loop_cut [OF resumable_longer whole] go.prems by blast
  with step_piece [of js n P _ js'] go have g: "step (js @ js') P = Inr (Go k Q)" by (auto simp: resumable_def)
  show ?case
    unfolding loop_go [OF go.hyps] loop_go [OF whole g]
    by (rule go.IH) (use go.prems resumable_step [OF go.prems(1) go.hyps] loop_go [OF whole g] in auto)
qed

end

interpretation plain_pieces: piecewise_loop jsmn_char jsmn_loop "\<lambda>c. c = CHR '',''" has_cut
  by unfold_locales (auto intro: kept_char has_cut_kept dest: jsmn_char_piece)

end
