(* ===== verification/Jsondump.thy ===== *)
theory Jsondump
  imports Json_Dump Jsmn_Pieces
begin

text \<open>
  The program \<^verbatim>\<open>src/zserge-jsmn/example/jsondump.c\<close>: \<^verbatim>\<open>main\<close> reads the standard input piece by piece,
  appends each piece to the text, goes on with the parse, enlarging the token array when it has to, and dumps the
  tokens when the parse reports success.
\<close>

section \<open>The program\<close>

text \<open>\<^verbatim>\<open>strncpy(dst, buf, r)\<close> for the \<open>r\<close> characters of \<open>b\<close>: after a terminator only zeros are copied.\<close>

definition strncpy_all :: "string \<Rightarrow> string" where
  "strncpy_all b = (let w = takeWhile (\<lambda>c. c \<noteq> NUL) b in w @ replicate (length b - length w) NUL)"

text \<open>
  The endless loop of \<^verbatim>\<open>main\<close>. The list is what the calls of \<^verbatim>\<open>fread\<close> deliver; a call that delivers
  nothing ends the program, and so does the end of the list. \<open>g n\<close> is a block for \<open>n\<close> tokens
  and \<open>h n\<close> says whether the text can be enlarged to \<open>n\<close> characters. The result is the
  exit status with all that was printed.
\<close>

fun jsondump_loop ::
  "(nat \<Rightarrow> jsmntok list option) \<Rightarrow> (nat \<Rightarrow> bool) \<Rightarrow> string list \<Rightarrow> string \<Rightarrow> jsmn_parser \<Rightarrow> bool \<Rightarrow> string \<Rightarrow>
    (fault + int \<times> string) option" where
  "jsondump_loop g h [] js P eof_expected out = Some (Inr (if eof_expected then 0 else 2, out))"
| "jsondump_loop g h (b # bs) js P eof_expected out =
     (if b = [] then Some (Inr (if eof_expected then 0 else 2, out))
      else if \<not> h (length js + length b + 1) then Some (Inr (3, out))
      else let js' = js @ strncpy_all b in
        (case parse_again g js' P of
           None \<Rightarrow> None
         | Some (Inl e) \<Rightarrow> Some (Inl e)
         | Some (Inr None) \<Rightarrow> Some (Inr (3, out))
         | Some (Inr (Some (r, P'))) \<Rightarrow>
             if r < 0 then jsondump_loop g h bs js' P' eof_expected out
             else (case dump js' (the (jp_toks P')) 0 (of_nat (jp_toknext P')) 0 of
                 Inl e \<Rightarrow> Some (Inl e)
               | Inr (s, _) \<Rightarrow> jsondump_loop g h bs js' P' True (out @ s))))"

text \<open>\<open>tok\<close> is the result of the first \<^verbatim>\<open>malloc\<close>, for two tokens.\<close>

definition jsondump_main ::
  "jsmntok list option \<Rightarrow> (nat \<Rightarrow> jsmntok list option) \<Rightarrow> (nat \<Rightarrow> bool) \<Rightarrow> string list \<Rightarrow> (fault + int \<times> string) option" where
  "jsondump_main tok g h reads = (case tok of
      None \<Rightarrow> Some (Inr (3, []))
    | Some mem \<Rightarrow> jsondump_loop g h reads [] (jsmn_init (Some mem)) False [])"

lemma jsondump_loop_returns:
  "resumable js n P \<Longrightarrow> 0 < n \<Longrightarrow> realloc_ok g \<Longrightarrow> \<exists>y. jsondump_loop g h bs js P b out = Some y \<and> (\<forall>st s. y = Inr (st, s) \<longrightarrow> st \<in> {0, 2, 3})"
proof (induction bs arbitrary: js n P b out)
  case (Cons c cs)
  let ?js = "js @ strncpy_all c"
  obtain y where y: "parse_again g ?js P = Some y" and res: "\<And>r P'. y = Inr (Some (r, P')) \<Longrightarrow> \<exists>m \<ge> n. resumable ?js m P'"
    using parse_again_ends [OF resumable_longer [OF Cons.prems(1), of "strncpy_all c"] Cons.prems(2,3)] by blast
  show ?case
  proof (cases "\<exists>r P'. y = Inr (Some (r, P'))")
    case False
    with y show ?thesis by (cases y rule: sum.exhaust) (auto simp: Let_def split: option.split prod.split)
  next
    case True
    then obtain r P' where P': "y = Inr (Some (r, P'))" by blast
    with res obtain m where "n \<le> m" "resumable ?js m P'" by blast
    with Cons.IH [of ?js m P'] Cons.prems(2,3)
    have "\<exists>y. jsondump_loop g h cs ?js P' b' out' = Some y \<and> (\<forall>st s. y = Inr (st, s) \<longrightarrow> st \<in> {0, 2, 3})" for b' out' by simp
    with y P' show ?thesis by (auto simp: Let_def split: sum.split)
  qed
qed simp



section \<open>A text in pieces\<close>

text \<open>With enough tokens, the parse of \<open>full\<close> will end with the tokens \<open>toks\<close>.\<close>

definition heads_to :: "string \<Rightarrow> jsmntok list \<Rightarrow> jsmn_parser \<Rightarrow> bool" where
  "heads_to full toks P \<longleftrightarrow> (\<forall>z. length toks \<le> length z \<longrightarrow>
     (\<exists>r sp free. jsmn_loop full (enlarge z P) 0 = Inr (r, pst (length full) toks sp free) \<and> 0 \<le> r))"

definition uncut :: "jsmntok list \<Rightarrow> nat \<Rightarrow> bool" where
  "uncut toks m \<longleftrightarrow> list_all (\<lambda>t. tok_type t = JSMN_PRIMITIVE \<longrightarrow> \<not> (tok_start t < int m \<and> int m < tok_end t)) toks"

lemma uncut_pst: "uncut toks m \<Longrightarrow> \<not> has_cut m (pst p toks sp free)"
  by (auto simp: uncut_def has_cut_def nth_append list_all_length)

definition realloc_total :: "(nat \<Rightarrow> jsmntok list option) \<Rightarrow> bool" where
  "realloc_total g \<longleftrightarrow> (\<forall>n. \<exists>x. g n = Some x \<and> length x = n)"

lemma realloc_total_ok: "realloc_total g \<Longrightarrow> realloc_ok g \<and> (\<forall>n. g n \<noteq> None)"
  unfolding realloc_total_def realloc_ok_def by (metis option.distinct(1) option.inject)

lemma parse_again_piece:
  assumes res: "resumable js n P" and n: "0 < n" and g: "realloc_total g" and to: "heads_to (js @ js') toks P" and cut: "uncut toks (length js)"
  shows "\<exists>r P' m x. parse_again g js P = Some (Inr (Some (r, P'))) \<and> 0 < m \<and> resumable js m P' \<and>
    (\<forall>z. length toks \<le> length z \<longrightarrow> (\<exists>r' d. jsmn_loop js (enlarge (x @ z) P) 0 = Inr (r', enlarge z P') \<and> (r' = r \<or> 0 \<le> r' \<and> 0 \<le> r) \<and>
       0 \<le> d \<and> jsmn_loop (js @ js') (enlarge (x @ z) P) 0 = jsmn_loop (js @ js') (enlarge z P') d))"
proof -
  obtain y where y: "parse_again g js P = Some y" "again_end g js P y"
    and m: "\<And>r P'. y = Inr (Some (r, P')) \<Longrightarrow> \<exists>m \<ge> n. resumable js m P'"
    using parse_again_ends [OF res n] realloc_total_ok [OF g] by blast
  have run: "\<exists>q P1 d. jsmn_loop js (enlarge (x @ z) P) 0 = Inr (q, P1) \<and> 0 \<le> d \<and>
      jsmn_loop (js @ js') (enlarge (x @ z) P) 0 = jsmn_loop (js @ js') P1 d" if z: "length toks \<le> length z" for x z
  proof -
    from to z obtain r sp free where "jsmn_loop (js @ js') (enlarge (x @ z) P) 0 = Inr (r, pst (length (js @ js')) toks sp free)" "0 \<le> r"
      unfolding heads_to_def by (metis le_add2 length_append order_trans)
    with plain_pieces.loop_piece [OF resumable_enlarge [OF res], of 0 js' "x @ z"] uncut_pst [OF cut] show ?thesis by simp
  qed
  have "\<nexists>e. y = Inl e"
  proof
    assume "\<exists>e. y = Inl e"
    then obtain e x where x: "jsmn_loop js (enlarge x P) 0 = Inl e" using y(2) by (auto simp: again_end_def jsmn_parse_def)
    have "jsmn_loop js (enlarge (x @ toks) P) 0 = Inl e"
      using plain_growth.loop_more [OF resumable_enlarge [OF res, of x], of 0 toks] x by simp
    with run [of toks x] show False by simp
  qed
  moreover have "y \<noteq> Inr None" using y(2) conjunct2 [OF realloc_total_ok [OF g]] by (fastforce simp: again_end_def)
  ultimately obtain r P' where P': "y = Inr (Some (r, P'))" by (cases y rule: sum.exhaust) (auto elim: option.exhaust)
  obtain x where "r \<noteq> JSMN_ERROR_NOMEM" "same_end (jsmn_loop js (enlarge x P) 0) (Inr (r, P'))"
    using y(2) P' by (auto simp: again_end_def jsmn_parse_def)
  then obtain r' where r': "jsmn_loop js (enlarge x P) 0 = Inr (r', P')" "r' = r \<or> 0 \<le> r' \<and> 0 \<le> r" "r' \<noteq> JSMN_ERROR_NOMEM"
    using same_end_Inr [OF same_end_sym, of "jsmn_loop js (enlarge x P) 0" r P'] by (auto simp: JSMN_ERROR_NOMEM_def)
  have more: "jsmn_loop js (enlarge (x @ z) P) 0 = Inr (r', enlarge z P')" for z
    using plain_growth.loop_more [OF resumable_enlarge [OF res, of x], of 0 z] r' by simp
  obtain m where m: "n \<le> m" "resumable js m P'" using m [OF P'] by blast
  have all: "\<exists>r' d. jsmn_loop js (enlarge (x @ z) P) 0 = Inr (r', enlarge z P') \<and> (r' = r \<or> 0 \<le> r' \<and> 0 \<le> r) \<and>
      0 \<le> d \<and> jsmn_loop (js @ js') (enlarge (x @ z) P) 0 = jsmn_loop (js @ js') (enlarge z P') d" if z: "length toks \<le> length z" for z
  proof -
    obtain d where "0 \<le> d" "jsmn_loop (js @ js') (enlarge (x @ z) P) 0 = jsmn_loop (js @ js') (enlarge z P') d"
      using run [OF z, of x] more [of z] by auto
    with more [of z] r'(2) show ?thesis by blast
  qed
  show ?thesis
  proof (rule exI [of _ r], rule exI [of _ P'], rule exI [of _ m], rule exI [of _ x], intro conjI allI impI)
    show "parse_again g js P = Some (Inr (Some (r, P')))" using y(1) P' by simp
    show "0 < m" using n m(1) by simp
    show "resumable js m P'" by (rule m(2))
  qed (rule all)
qed

lemma heads_to_piece:
  assumes res: "resumable js n P" and n: "0 < n" and g: "realloc_total g" and to: "heads_to (js @ js') toks P" and cut: "uncut toks (length js)"
  shows "\<exists>r P' m. parse_again g js P = Some (Inr (Some (r, P'))) \<and> 0 < m \<and> resumable js m P' \<and> heads_to (js @ js') toks P' \<and>
    (0 \<le> r \<longrightarrow> search_down tok_open (the (jp_toks P')) (jp_toknext P') = None) \<and>
    (js' = [] \<longrightarrow> 0 \<le> r \<and> jp_toknext P' = length toks \<and> (\<exists>f. jp_toks P' = Some (toks @ f)))"
proof -
  obtain r P' m x where again: "parse_again g js P = Some (Inr (Some (r, P')))" "0 < m" "resumable js m P'"
    and run: "\<And>z. length toks \<le> length z \<Longrightarrow> \<exists>r' d. jsmn_loop js (enlarge (x @ z) P) 0 = Inr (r', enlarge z P') \<and> (r' = r \<or> 0 \<le> r' \<and> 0 \<le> r) \<and>
       0 \<le> d \<and> jsmn_loop (js @ js') (enlarge (x @ z) P) 0 = jsmn_loop (js @ js') (enlarge z P') d"
    using parse_again_piece [OF assms] by blast
  obtain ts where ts: "jp_toks P' = Some ts" "jp_toknext P' \<le> length ts" using again(3) by (auto simp: resumable_def jsmn_inv_def)
  have whole: "\<exists>r sp free. jsmn_loop (js @ js') (enlarge (x @ z) P) 0 = Inr (r, pst (length (js @ js')) toks sp free) \<and> 0 \<le> r"
    if "length toks \<le> length z" for z :: "jsmntok list"
    using to that unfolding heads_to_def by (metis le_add2 length_append order_trans)
  have "heads_to (js @ js') toks P'" unfolding heads_to_def
  proof (intro allI impI)
    fix z :: "jsmntok list" assume z: "length toks \<le> length z"
    obtain d where d: "0 \<le> d" "jsmn_loop (js @ js') (enlarge (x @ z) P) 0 = jsmn_loop (js @ js') (enlarge z P') d" using run [OF z] by blast
    have "same_end (jsmn_loop (js @ js') (enlarge z P') d) (jsmn_loop (js @ js') (enlarge z P') 0)"
      using d(1) by (intro plain_tokens.loop_count [OF resumable_enlarge [OF resumable_longer [OF again(3)]]]) simp_all
    moreover obtain q sp free where q: "jsmn_loop (js @ js') (enlarge z P') d = Inr (q, pst (length (js @ js')) toks sp free)" "0 \<le> q"
      using whole [OF z] d(2) by auto
    ultimately show "\<exists>r sp free. jsmn_loop (js @ js') (enlarge z P') 0 = Inr (r, pst (length (js @ js')) toks sp free) \<and> 0 \<le> r"
      using same_end_Inr [of q "pst (length (js @ js')) toks sp free" "jsmn_loop (js @ js') (enlarge z P') 0"] by auto
  qed
  moreover have "search_down tok_open ts (jp_toknext P') = None" if "0 \<le> r"
  proof -
    obtain r' where r': "jsmn_loop js (enlarge (x @ toks) P) 0 = Inr (r', enlarge toks P')" "r' = r \<or> 0 \<le> r' \<and> 0 \<le> r"
      using run [OF order_refl] by blast
    moreover have "0 \<le> r'" using r'(2) that by linarith
    ultimately have "search_down tok_open (ts @ toks) (jp_toknext (enlarge toks P')) = None"
      using ts(1) by (intro plain_tokens.loop_closed) (simp_all add: enlarge_def)
    with ts show ?thesis by (simp add: enlarge_def search_down_take)
  qed
  moreover have "0 \<le> r \<and> jp_toknext P' = length toks \<and> (\<exists>f. jp_toks P' = Some (toks @ f))" if nil: "js' = []"
  proof -
    obtain r' where r': "jsmn_loop js (enlarge (x @ toks) P) 0 = Inr (r', enlarge toks P')" "r' = r \<or> 0 \<le> r' \<and> 0 \<le> r"
      using run [OF order_refl] by blast
    obtain q sp free where q: "jsmn_loop js (enlarge (x @ toks) P) 0 = Inr (q, pst (length js) toks sp free)" "0 \<le> q"
      using whole [OF order_refl] nil by auto
    have "r' = q" and e: "enlarge toks P' = pst (length js) toks sp free" using r'(1) q(1) by simp_all
    then have "0 \<le> r" using r'(2) q(2) by linarith
    from arg_cong [OF e, of jp_toknext] have k: "jp_toknext P' = length toks" by (simp add: enlarge_def)
    from arg_cong [OF e, of jp_toks] ts have "ts @ toks = toks @ free" by (simp add: enlarge_def)
    then have "ts = toks @ drop (length toks) ts" using k ts(2) by (metis append_eq_append_conv_if append_take_drop_id)
    with \<open>0 \<le> r\<close> k ts(1) show ?thesis by auto
  qed
  ultimately show ?thesis using again ts(1) by auto
qed

text \<open>As long as its first token is not complete in \<open>toks\<close>, a parse without an open token has no token.\<close>

lemma heads_to_open:
  assumes res: "resumable js n P" and to: "heads_to (js @ js') toks P" and first: "int (length js) < tok_end (toks ! 0)"
    and closed: "search_down tok_open (the (jp_toks P)) (jp_toknext P) = None"
  shows "jp_toknext P = 0"
proof (rule ccontr)
  assume *: "jp_toknext P \<noteq> 0"
  obtain ts where ts: "jp_toks P = Some ts" "jp_toknext P \<le> length ts" and t: "tok_in js (jp_pos P) (ts ! 0)"
    using res * by (auto simp: resumable_def jsmn_inv_def)
  have "\<not> tok_open (ts ! 0)" using closed * ts(1) by (simp add: search_down_None)
  with t have e: "tok_end (ts ! 0) \<noteq> - 1" "tok_end (ts ! 0) \<le> int (length js)" by (auto simp: tok_open_def tok_in_def)
  obtain r sp free where "jsmn_loop (js @ js') (enlarge toks P) 0 = Inr (r, pst (length (js @ js')) toks sp free)"
    using to unfolding heads_to_def by blast
  from plain_pieces.loop_kept [OF resumable_enlarge [OF resumable_longer [OF res]] this]
  have k: "kept (enlarge toks P) (pst (length (js @ js')) toks sp free)" .
  then have "tok_end ((toks @ free) ! 0) = tok_end (ts ! 0)" "0 < length toks"
    using * ts e(1) by (auto simp: kept_def enlarge_def nth_append)
  with e(2) first show False by (simp add: nth_append)
qed

lemma strncpy_all_id:
  assumes "NUL \<notin> set b"
  shows "strncpy_all b = b"
proof -
  have "takeWhile (\<lambda>c. c \<noteq> NUL) b = b" using assms by (subst takeWhile_eq_all_conv) auto
  then show ?thesis unfolding strncpy_all_def Let_def by (metis append_Nil2 diff_self_eq_0 replicate_0)
qed

lemma dump_none: "dump js ts off 0 i = Inr ([], 0)"
  by (simp add: dump.simps)

lemma jsondump_pieces:
  "\<lbrakk>resumable js n P; 0 < n; realloc_total g; full = js @ concat bs; heads_to full toks P; bs \<noteq> []; [] \<notin> set bs; NUL \<notin> set full;
    \<forall>k \<le> length bs. uncut toks (length (js @ concat (take k bs))); int (length (js @ concat (butlast bs))) < tok_end (toks ! 0);
    \<And>f. dump full (toks @ f) 0 (of_nat (length toks)) 0 = Inr (s, length toks)\<rbrakk> \<Longrightarrow>
   jsondump_loop g (\<lambda>_. True) bs js P b out = Some (Inr (0, out @ s))"
proof (induction bs arbitrary: js n P b)
  case (Cons c cs)
  have c: "c \<noteq> []" "strncpy_all c = c" using Cons.prems(4,7,8) by (auto intro!: strncpy_all_id)
  have full: "full = (js @ c) @ concat cs" using Cons.prems(4) by simp
  have cut: "uncut toks (length (js @ c))" using Cons.prems(9) by (auto dest!: spec [of _ 1])
  have to: "heads_to ((js @ c) @ concat cs) toks P" using Cons.prems(5) full by simp
  obtain r P' m where P': "parse_again g (js @ c) P = Some (Inr (Some (r, P')))" "0 < m" "resumable (js @ c) m P'" "heads_to ((js @ c) @ concat cs) toks P'"
    and closed: "0 \<le> r \<Longrightarrow> search_down tok_open (the (jp_toks P')) (jp_toknext P') = None"
    and last: "concat cs = [] \<Longrightarrow> 0 \<le> r \<and> jp_toknext P' = length toks \<and> (\<exists>f. jp_toks P' = Some (toks @ f))"
    using heads_to_piece [OF resumable_longer [OF Cons.prems(1)] Cons.prems(2,3) to cut] by blast
  show ?case
  proof (cases "cs = []")
    case True
    with last obtain f where "0 \<le> r" "jp_toknext P' = length toks" "jp_toks P' = Some (toks @ f)" by auto
    with True c P'(1) full Cons.prems(11) [of f] show ?thesis by (simp add: Let_def)
  next
    case False
    have rest: "jsondump_loop g (\<lambda>_. True) cs (js @ c) P' b' out = Some (Inr (0, out @ s))" for b'
    proof (rule Cons.IH [OF P'(3) P'(2) Cons.prems(3) full P'(4) [folded full] False])
      show "\<forall>k \<le> length cs. uncut toks (length ((js @ c) @ concat (take k cs)))"
        using Cons.prems(9) [rule_format, of "Suc k" for k] by simp
    qed (use Cons.prems False in auto)
    have "jp_toknext P' = 0" if "0 \<le> r"
    proof (rule heads_to_open [OF P'(3,4) _ closed [OF that]])
      show "int (length (js @ c)) < tok_end (toks ! 0)" using Cons.prems(10) False by simp
    qed
    with rest c P'(1) show ?thesis by (simp add: Let_def dump_none)
  qed
qed simp

text \<open>No piece ends inside a primitive of the text.\<close>

definition undivided :: "jsmntok list \<Rightarrow> string list \<Rightarrow> bool" where
  "undivided toks bs \<longleftrightarrow> list_all (\<lambda>k. uncut toks (length (concat (take k bs)))) [0..<Suc (length bs)]"

lemma json_text_no_NUL: "json_ok v \<Longrightarrow> NUL \<notin> set (json_text v)"
proof (induction v)
  case (J_arr vs)
  have "NUL \<notin> set (commas xs)" if "\<forall>x \<in> set xs. NUL \<notin> set x" for xs using that by (induction xs rule: commas.induct) (auto simp: NUL_def)
  from this [of "map json_text vs"] J_arr show ?case by (auto simp: list_all_iff NUL_def)
next
  case (J_obj kvs)
  have "NUL \<notin> set (commas xs)" if "\<forall>x \<in> set xs. NUL \<notin> set x" for xs using that by (induction xs rule: commas.induct) (auto simp: NUL_def)
  from this [of "map (\<lambda>(k, v). quoted k @ CHR '':'' # json_text v) kvs"] J_obj str_ok_no_NUL show ?case
    by (fastforce simp: list_all_iff quoted_def NUL_def)
qed (auto simp: quoted_def NUL_def dest: str_ok_no_NUL [unfolded NUL_def] prim_ok_no_NUL [unfolded NUL_def])

lemma blanks_no_NUL: "blanks ws \<Longrightarrow> NUL \<notin> set ws"
  by (induction ws) (auto simp: blanks_def NUL_def)

text \<open>
  C13. The program prints what it reads. Let the input be an object or an array with white space around it,
  delivered in pieces of any lengths such that no piece ends inside a primitive and the value ends in the
  last piece. Then, if no allocation fails, the program stays inside its buffers, prints the rendering of the
  value exactly once and exits with status 0, whatever its uninitialised memory holds.
\<close>

theorem jsondump_prints_json:
  assumes "json_ok v" and "\<not> scalar v" and "blanks ws" and "blanks ws'"
    and "concat reads = padded ws v ws'" and "[] \<notin> set reads" and "undivided (json_toks (length ws) v) reads"
    and "length (concat (butlast reads)) < length ws + length (json_text v)" and "length (concat reads) < 2 ^ 31"
    and "realloc_total g" and "mem \<noteq> []"
  shows "jsondump_main (Some mem) g (\<lambda>_. True) reads = Some (Inr (0, render 0 v))"
proof -
  let ?full = "padded ws v ws'" and ?toks = "json_toks (length ws) v" and ?P = "jsmn_init (Some mem)"
  have len: "length ?toks = tok_count v" by (rule length_json_toks)
  have to: "heads_to ?full ?toks ?P" unfolding heads_to_def
  proof (intro allI impI)
    fix z :: "jsmntok list"
    assume "length ?toks \<le> length z"
    then have "tok_count v \<le> length (mem @ z)" using len by simp
    from jsmn_parse_padded [OF assms(1) this assms(3,4)] obtain sp free
      where "jsmn_loop ?full (enlarge z ?P) 0 = Inr (int (tok_count v), pst (length ?full) ?toks sp free)" by (auto simp: jsmn_parse_def)
    then show "\<exists>r sp free. jsmn_loop ?full (enlarge z ?P) 0 = Inr (r, pst (length ?full) ?toks sp free) \<and> 0 \<le> r"
      by (metis of_nat_0_le_iff)
  qed
  obtain r sp free where "jsmn_loop ?full (enlarge ?toks ?P) 0 = Inr (r, pst (length ?full) ?toks sp free)"
    using to unfolding heads_to_def by blast
  from plain_tokens.loop_resumable [OF resumable_enlarge [OF resumable_init] this] have "tok_count v \<le> length ?full"
    using len by (simp add: resumable_def)
  then have "unat (of_nat (tok_count v) :: u64) = tok_count v"
    using assms(5,9) by (simp add: unsigned_of_nat take_bit_nat_eq_self_iff)
  then have d: "dump ?full (?toks @ f) 0 (of_nat (length ?toks)) 0 = Inr (render 0 v, length ?toks)" for f
    using dumpsD [OF dumps_json [OF assms(1)], of ?full ws ws' "?toks @ f" "[]" f 0] len by (simp add: padded_def)
  have first: "tok_end (?toks ! 0) = int (length ws + length (json_text v))"
    using assms(2) by (cases v) (simp_all add: mk_tok_def)
  have "NUL \<notin> set ?full"
    using json_text_no_NUL [OF assms(1)] blanks_no_NUL [OF assms(3)] blanks_no_NUL [OF assms(4)] by (simp add: padded_def)
  moreover have "reads \<noteq> []" using assms(2,5) by (cases v) (auto simp: padded_def)
  moreover have "\<forall>k \<le> length reads. uncut ?toks (length ([] @ concat (take k reads)))"
    using assms(7) by (auto simp: undivided_def list_all_iff less_Suc_eq_le)
  ultimately show ?thesis
    using jsondump_pieces [OF resumable_init [of "[]" mem] _ assms(10), of ?full reads ?toks "render 0 v" False "[]"]
      assms(5,6,8,11) to d first by (simp add: jsondump_main_def)
qed

theorem jsondump_prints_json_witness:
  "jsondump_main (Some (blank_tokens 2)) demo_realloc (\<lambda>_. True) [''[12,'', [CHR 0x22, CHR ''a''], [CHR ''b'', CHR 0x22, CHR '']'', CHR 0x0A]] =
     Some (Inr (0, render 0 (J_arr [J_prim ''12'', J_str ''ab''])))"
proof (rule jsondump_prints_json [where ws = "[]" and ws' = "[CHR 0x0A]"])
  let ?reads = "[''[12,'', [CHR 0x22, CHR ''a''], [CHR ''b'', CHR 0x22, CHR '']'', CHR 0x0A]]" and ?v = "J_arr [J_prim ''12'', J_str ''ab'']"
  show "json_ok ?v" "\<not> scalar ?v" "blanks []" "blanks [CHR 0x0A]" "concat ?reads = padded [] ?v [CHR 0x0A]"
    "undivided (json_toks (length []) ?v) ?reads" "length (concat (butlast ?reads)) < length [] + length (json_text ?v)"
    by code_simp+
  show "realloc_total demo_realloc" "blank_tokens 2 \<noteq> []"
    by (simp_all add: realloc_total_def demo_realloc_def blank_tokens_def)
qed simp_all

text \<open>Without its value, a key makes \<^verbatim>\<open>dump\<close> read a token behind the end of the array.\<close>

lemma jsondump_missing_value:
  "jsondump_main (Some (blank_tokens 2)) demo_realloc (\<lambda>_. True) [[CHR ''{'', CHR 0x22, CHR ''a'', CHR 0x22, CHR ''}'']] = Some (Inl Out_of_bounds)"
  by code_simp

text \<open>A number that is divided by two reads is taken for two numbers.\<close>

lemma jsondump_divided_number:
  "jsondump_main (Some (blank_tokens 2)) demo_realloc (\<lambda>_. True) [''[1'', ''2]''] = Some (Inr (0, [CHR 0x0A] @ ''   - 1'' @ [CHR 0x0A] @ ''   - 2'' @ [CHR 0x0A]))"
  "jsondump_main (Some (blank_tokens 2)) demo_realloc (\<lambda>_. True) [''[12]''] = Some (Inr (0, [CHR 0x0A] @ ''   - 12'' @ [CHR 0x0A]))"
  by code_simp+

text \<open>An invalid text is not reported as such: at its end the program fails as if more were expected, or succeeds if a
  valid text came first.\<close>

lemma jsondump_invalid_text:
  "jsondump_main (Some (blank_tokens 2)) demo_realloc (\<lambda>_. True) [''}''] = Some (Inr (2, []))"
  "jsondump_main (Some (blank_tokens 2)) demo_realloc (\<lambda>_. True) [''[]'', ''}''] = Some (Inr (0, [CHR 0x0A]))"
  by code_simp+

end
