(* ===== verification/Jsmn_Memory.thy ===== *)
theory Jsmn_Memory
  imports Jsmn_Resume
begin

text \<open>
  What the token array holds before the parse, which the callers do not initialise, has no effect:
  two parses with arrays of the same length do the same and fill the same tokens.
\<close>

section \<open>Parsers that differ in unused tokens only\<close>

definition alike :: "jsmn_parser \<Rightarrow> jsmn_parser \<Rightarrow> bool" where
  "alike P Q \<longleftrightarrow> jp_pos P = jp_pos Q \<and> jp_toknext P = jp_toknext Q \<and> jp_toksuper P = jp_toksuper Q \<and>
     (\<exists>ts us. jp_toks P = Some ts \<and> jp_toks Q = Some us \<and> length ts = length us \<and> jp_toknext P \<le> length ts \<and>
       (\<forall>j < jp_toknext P. ts ! j = us ! j))"

lemma alikeE:
  assumes "alike P Q"
  obtains ts us where "jp_toks P = Some ts" "jp_toks Q = Some us" "length ts = length us" "jp_toknext P \<le> length ts"
    "\<And>j. j < jp_toknext P \<Longrightarrow> ts ! j = us ! j" "jp_pos Q = jp_pos P" "jp_toknext Q = jp_toknext P" "jp_toksuper Q = jp_toksuper P"
  using assms unfolding alike_def by metis

lemma alike_frame [simp]: "alike P Q \<Longrightarrow> alike (P\<lparr>jp_pos := p\<rparr>) (Q\<lparr>jp_pos := p\<rparr>)" "alike P Q \<Longrightarrow> alike (P\<lparr>jp_toksuper := s\<rparr>) (Q\<lparr>jp_toksuper := s\<rparr>)"
  by (auto simp: alike_def)

lemma search_down_cong: "(\<And>j. j < k \<Longrightarrow> ts ! j = us ! j) \<Longrightarrow> search_down F ts k = search_down F us k"
  by (induction k) auto

lemma alike_set_tok: "alike P Q \<Longrightarrow> alike (set_tok i f P) (set_tok i f Q)" if "i < jp_toknext P"
  using that by (elim alikeE) (auto simp: alike_def nth_list_update)

lemma fill_token_all: "jsmn_fill_token ty st en t = \<lparr>tok_type = ty, tok_start = st, tok_end = en, tok_size = 0\<rparr>"
  by (cases t) (simp add: jsmn_fill_token_def)

lemma alike_put:
  assumes "alike P Q"
  shows "fst (put_token ty st en P) = fst (put_token ty st en Q) \<and> alike (snd (put_token ty st en P)) (snd (put_token ty st en Q))"
proof -
  obtain ts us where tu: "jp_toks P = Some ts" "jp_toks Q = Some us" "length ts = length us" "jp_toknext P \<le> length ts"
    "\<And>j. j < jp_toknext P \<Longrightarrow> ts ! j = us ! j" and f: "jp_pos Q = jp_pos P" "jp_toknext Q = jp_toknext P" "jp_toksuper Q = jp_toksuper P"
    using assms by (rule alikeE) blast
  show ?thesis
  proof (cases "jp_toknext P < length ts")
    case True
    with tu f show ?thesis
      by (simp add: put_token_def jsmn_alloc_token_def Let_def alike_def fill_token_all less_Suc_eq)
  next
    case False
    with tu f assms show ?thesis by (simp add: put_token_def jsmn_alloc_token_def)
  qed
qed

definition same_step :: "fault + jsmn_step \<Rightarrow> fault + jsmn_step \<Rightarrow> bool" where
  "same_step a b = (case (a, b) of
      (Inl e, Inl e') \<Rightarrow> e = e'
    | (Inr (Stop r P), Inr (Stop r' Q)) \<Rightarrow> r = r' \<and> alike P Q
    | (Inr (Go k P), Inr (Go k' Q)) \<Rightarrow> k = k' \<and> alike P Q
    | _ \<Rightarrow> False)"

lemma alike_grow:
  assumes "alike P Q" and "jp_toksuper P < int (jp_toknext P)"
  shows "(\<exists>e. grow_super P = Inl e \<and> grow_super Q = Inl e) \<or> (\<exists>P' Q'. grow_super P = Inr P' \<and> grow_super Q = Inr Q' \<and> alike P' Q')"
proof -
  obtain ts us where tu: "jp_toks P = Some ts" "jp_toks Q = Some us" "length ts = length us" "jp_toknext P \<le> length ts" "jp_toksuper Q = jp_toksuper P"
    using assms(1) by (elim alikeE)
  show ?thesis
  proof (cases "0 \<le> jp_toksuper P")
    case True
    then have "nat (jp_toksuper P) < jp_toknext P" using assms(2) by linarith
    with True tu assms show ?thesis by (auto simp: grow_super_def super_index_def intro: alike_set_tok)
  next
    case False
    with tu assms show ?thesis by (auto simp: grow_super_def super_index_def)
  qed
qed

lemma same_count:
  assumes "alike P Q" and "jp_toksuper P < int (jp_toknext P)"
  shows "same_step (count_token (r, P)) (count_token (r, Q))"
  using alike_grow [OF assms] assms(1) by (auto simp: count_token_def same_step_def)

lemma put_token_super:
  "put_token ty st en P = (r, P') \<Longrightarrow> jp_toksuper P < int (jp_toknext P) \<Longrightarrow> jp_toksuper P' < int (jp_toknext P')"
  by (auto simp: put_token_def dest!: jsmn_alloc_token_Some split: option.splits)

lemma same_put:
  assumes "alike P Q" and "jp_toksuper P < int (jp_toknext P)"
  shows "same_step (count_token (case put_token ty st en P of (r, P') \<Rightarrow> if r < 0 then (r, P'\<lparr>jp_pos := p\<rparr>) else (0, P'\<lparr>jp_pos := q\<rparr>)))
    (count_token (case put_token ty st en Q of (r, Q') \<Rightarrow> if r < 0 then (r, Q'\<lparr>jp_pos := p\<rparr>) else (0, Q'\<lparr>jp_pos := q\<rparr>)))"
proof -
  obtain r P' Q' where "put_token ty st en P = (r, P')" "put_token ty st en Q = (r, Q')" "alike P' Q'"
    using alike_put [OF assms(1), of ty st en] by (metis prod.collapse)
  with put_token_super [OF _ assms(2)] show ?thesis by (auto intro!: same_count)
qed

lemma same_open:
  assumes "alike P Q" and "jp_toksuper P < int (jp_toknext P)"
  shows "same_step (jsmn_open c P) (jsmn_open c Q)"
proof -
  obtain ts us where tu: "jp_toks P = Some ts" "jp_toks Q = Some us" "length ts = length us" "jp_toknext P \<le> length ts"
    "\<And>j. j < jp_toknext P \<Longrightarrow> ts ! j = us ! j" and f: "jp_pos Q = jp_pos P" "jp_toknext Q = jp_toknext P" "jp_toksuper Q = jp_toksuper P"
    using assms(1) by (rule alikeE) blast
  show ?thesis
  proof (cases "jp_toknext P < length ts")
    case True
    let ?t = "(ts ! jp_toknext P)\<lparr>tok_start := - 1, tok_end := - 1, tok_size := 0\<rparr>"
    have e: "t\<lparr>tok_start := - 1, tok_end := - 1, tok_size := 0, tok_type := ty, tok_start := q\<rparr> =
        \<lparr>tok_type = ty, tok_start = q, tok_end = - 1, tok_size = 0\<rparr>" for t ty q by (cases t) simp
    consider "jp_toksuper P = - 1" | "jp_toksuper P < 0" "jp_toksuper P \<noteq> - 1" | "0 \<le> jp_toksuper P" by linarith
    then show ?thesis
    proof cases
      case 3
      then have s: "nat (jp_toksuper P) < jp_toknext P" using assms(2) by linarith
      with 3 True tu f show ?thesis
        by (simp add: jsmn_open_def jsmn_alloc_token_def Let_def grow_super_def super_index_def same_step_def alike_def e nth_list_update less_Suc_eq)
    qed (use True tu f e in \<open>simp_all add: jsmn_open_def jsmn_alloc_token_def Let_def grow_super_def super_index_def same_step_def alike_def less_Suc_eq\<close>)
  next
    case False
    with tu f assms(1) show ?thesis by (simp add: jsmn_open_def jsmn_alloc_token_def same_step_def)
  qed
qed

lemma same_close:
  assumes "alike P Q"
  shows "same_step (Inr (jsmn_close c P)) (Inr (jsmn_close c Q))"
proof -
  obtain ts us where tu: "jp_toks P = Some ts" "jp_toks Q = Some us" "length ts = length us" "jp_toknext P \<le> length ts"
    and eq: "\<And>j. j < jp_toknext P \<Longrightarrow> ts ! j = us ! j" and f: "jp_pos Q = jp_pos P" "jp_toknext Q = jp_toknext P" "jp_toksuper Q = jp_toksuper P"
    using assms by (rule alikeE) blast
  have sd: "search_down tok_open us k = search_down tok_open ts k" if "k \<le> jp_toknext P" for k
    using that eq by (intro search_down_cong) simp
  show ?thesis
  proof (cases "search_down tok_open ts (jp_toknext P)")
    case None
    with tu f sd assms show ?thesis by (simp add: jsmn_close_def same_step_def)
  next
    case (Some i)
    then have i: "i < jp_toknext P" by (auto dest: search_down_Some)
    with Some tu f sd [of i] sd [OF order_refl] eq [OF i] alike_set_tok [OF i assms] assms show ?thesis
      by (auto simp: jsmn_close_def Let_def same_step_def split: option.split)
  qed
qed

lemma same_comma:
  assumes "alike P Q" and "jp_toksuper P < int (jp_toknext P)"
  shows "same_step (jsmn_comma P) (jsmn_comma Q)"
proof -
  obtain ts us where tu: "jp_toks P = Some ts" "jp_toks Q = Some us" "length ts = length us" "jp_toknext P \<le> length ts"
    and eq: "\<And>j. j < jp_toknext P \<Longrightarrow> ts ! j = us ! j" and f: "jp_pos Q = jp_pos P" "jp_toknext Q = jp_toknext P" "jp_toksuper Q = jp_toksuper P"
    using assms(1) by (rule alikeE) blast
  have "search_down F us (jp_toknext P) = search_down F ts (jp_toknext P)" for F using eq by (intro search_down_cong) simp
  moreover have "us ! nat (jp_toksuper P) = ts ! nat (jp_toksuper P)" if "0 \<le> jp_toksuper P"
    using that assms(2) by (intro eq [symmetric]) linarith
  ultimately show ?thesis
    using tu f assms(1) by (auto simp: jsmn_comma_def super_index_def same_step_def split: option.splits)
qed

lemma same_char:
  assumes "alike P Q" and "jp_toksuper P < int (jp_toknext P)"
  shows "same_step (jsmn_char js P) (jsmn_char js Q)"
proof -
  have pos: "jp_pos Q = jp_pos P" "jp_toknext Q = jp_toknext P" using assms(1) by (auto simp: alike_def)
  have str: "same_step (count_token (jsmn_parse_string js P)) (count_token (jsmn_parse_string js Q))"
    using same_put [OF assms] same_count [OF assms] pos by (auto simp: jsmn_parse_string_def Let_def split: str_result.split)
  have prim: "same_step (count_token (jsmn_parse_primitive js P)) (count_token (jsmn_parse_primitive js Q))"
    using same_put [OF assms] same_count [OF assms] pos by (auto simp: jsmn_parse_primitive_def Let_def split: option.split)
  have "same_step (Inr (Go 0 P)) (Inr (Go 0 Q))" "same_step (Inr (Go 0 (P\<lparr>jp_toksuper := s\<rparr>))) (Inr (Go 0 (Q\<lparr>jp_toksuper := s\<rparr>)))" for s
    using assms(1) by (simp_all add: same_step_def)
  with str prim same_open [OF assms] same_close [OF assms(1)] same_comma [OF assms] pos show ?thesis
    by (simp add: jsmn_char_def Let_def)
qed

section \<open>Whole parses\<close>

definition same_parse :: "fault + int \<times> jsmn_parser \<Rightarrow> fault + int \<times> jsmn_parser \<Rightarrow> bool" where
  "same_parse a b = (case (a, b) of (Inl e, Inl e') \<Rightarrow> e = e' | (Inr (r, P), Inr (r', Q)) \<Rightarrow> r = r' \<and> alike P Q | _ \<Rightarrow> False)"

lemma alike_take:
  assumes "alike P Q"
  shows "jp_pos P = jp_pos Q" "jp_toknext P = jp_toknext Q" "jp_toksuper P = jp_toksuper Q"
    "take (jp_toknext P) (the (jp_toks P)) = take (jp_toknext P) (the (jp_toks Q))"
proof -
  obtain ts us where "jp_toks P = Some ts" "jp_toks Q = Some us" "length ts = length us" "jp_toknext P \<le> length ts"
    and "\<And>j. j < jp_toknext P \<Longrightarrow> ts ! j = us ! j" using assms by (rule alikeE) blast
  then show "take (jp_toknext P) (the (jp_toks P)) = take (jp_toknext P) (the (jp_toks Q))" by (auto intro!: nth_take_lemma)
qed (use assms in \<open>auto simp: alike_def\<close>)

text \<open>Loops whose steps do the same for parsers that are alike.\<close>

locale clean_loop = token_loop +
  assumes step_same: "alike P Q \<Longrightarrow> jp_toksuper P < int (jp_toknext P) \<Longrightarrow> same_step (step js P) (step js Q)"
begin

lemma loop_same: "resumable js n P \<Longrightarrow> alike P Q \<Longrightarrow> same_parse (loop js P c) (loop js Q c)"
proof (induction P c arbitrary: Q rule: loop_induct [of js])
  case (halt P c)
  obtain ts us where "jp_toks P = Some ts" "jp_toks Q = Some us" "jp_toknext Q = jp_toknext P" "jp_pos Q = jp_pos P"
    and "\<And>j. j < jp_toknext P \<Longrightarrow> ts ! j = us ! j" using halt.prems(2) by (rule alikeE) blast
  moreover from this have "search_down tok_open us (jp_toknext P) = search_down tok_open ts (jp_toknext P)"
    by (intro search_down_cong) simp
  ultimately show ?case using halt by (auto simp: loop_halt jsmn_end_def same_parse_def)
next
  case (fault P c e)
  have pos: "jp_pos Q = jp_pos P" using fault.prems(2) by (simp add: alike_def)
  have "same_step (step js P) (step js Q)" using fault.prems by (intro step_same) (auto simp: resumable_def jsmn_inv_def)
  with fault pos have "step js Q = Inl e" by (auto simp: same_step_def split: sum.splits jsmn_step.splits)
  with fault pos show ?case by (simp add: loop_fault same_parse_def)
next
  case (stop P c r)
  have pos: "jp_pos Q = jp_pos P" using stop.prems(2) by (simp add: alike_def)
  have "same_step (step js P) (step js Q)" using stop.prems by (intro step_same) (auto simp: resumable_def jsmn_inv_def)
  with stop obtain Q' where "step js Q = Inr (Stop r Q')" "alike P Q'" by (auto simp: same_step_def split: sum.splits jsmn_step.splits)
  with stop pos show ?case by (simp add: loop_stop same_parse_def)
next
  case (go P c k P')
  have pos: "jp_pos Q = jp_pos P" using go.prems(2) by (simp add: alike_def)
  have "same_step (step js P) (step js Q)" using go.prems by (intro step_same) (auto simp: resumable_def jsmn_inv_def)
  with go obtain Q' where Q': "step js Q = Inr (Go k Q')" "alike P' Q'" by (auto simp: same_step_def split: sum.splits jsmn_step.splits)
  then have "alike (next_char P') (next_char Q')" by (auto simp: alike_def)
  from go.IH [OF resumable_step(1) [OF go.prems(1) go.hyps] this] go.hyps pos show ?case
    by (simp add: loop_go [OF _ go.hyps(2)] loop_go [OF _ Q'(1)])
qed

lemma parse_same:
  assumes "length mem = length mem'"
  shows "case (loop js (jsmn_init (Some mem)) 0, loop js (jsmn_init (Some mem')) 0) of
      (Inl e, Inl e') \<Rightarrow> e = e'
    | (Inr (r, P), Inr (r', P')) \<Rightarrow> r = r' \<and> jp_pos P = jp_pos P' \<and> jp_toknext P = jp_toknext P' \<and> jp_toksuper P = jp_toksuper P' \<and>
        take (jp_toknext P) (the (jp_toks P)) = take (jp_toknext P) (the (jp_toks P'))
    | _ \<Rightarrow> False"
proof -
  have "alike (jsmn_init (Some mem)) (jsmn_init (Some mem'))" using assms by (simp add: alike_def jsmn_init_def)
  from loop_same [OF resumable_init this, of js 0] show ?thesis
    using alike_take by (auto simp: same_parse_def split: sum.splits prod.splits)
qed

end

interpretation plain_memory: clean_loop jsmn_char jsmn_loop "\<lambda>c. c = CHR '',''"
  by unfold_locales (rule same_char)

text \<open>
  C17. Uninitialised memory has no effect. Two parses of the same text with token arrays of the same
  length, whatever the arrays hold, end in the same way: with the same fault, or with the same
  result, the same position and the same number of tokens, all of them equal.
\<close>

theorem jsmn_ignores_memory:
  assumes "length mem = length mem'"
  shows "case (jsmn_parse js (jsmn_init (Some mem)), jsmn_parse js (jsmn_init (Some mem'))) of
      (Inl e, Inl e') \<Rightarrow> e = e'
    | (Inr (r, P), Inr (r', P')) \<Rightarrow> r = r' \<and> jp_pos P = jp_pos P' \<and> jp_toknext P = jp_toknext P' \<and> jp_toksuper P = jp_toksuper P' \<and>
        take (jp_toknext P) (the (jp_toks P)) = take (jp_toknext P) (the (jp_toks P'))
    | _ \<Rightarrow> False"
  using plain_memory.parse_same [OF assms] by (simp only: jsmn_parse_def)

definition junk_tokens :: "jsmntok list" where
  "junk_tokens = [\<lparr>tok_type = JSMN_STRING, tok_start = 7, tok_end = - 3, tok_size = 9\<rparr>, \<lparr>tok_type = JSMN_OBJECT, tok_start = - 1, tok_end = 4, tok_size = 2\<rparr>]"

theorem jsmn_ignores_memory_witness:
  "\<exists>P P'. jsmn_parse ''[1]'' (jsmn_init (Some (blank_tokens 2))) = Inr (2, P) \<and>
     jsmn_parse ''[1]'' (jsmn_init (Some junk_tokens)) = Inr (2, P') \<and> jp_toknext P = 2 \<and>
     take 2 (the (jp_toks P)) = take 2 (the (jp_toks P'))"
proof -
  have "map_sum id (\<lambda>(r, P). (r, jp_toknext P)) (jsmn_parse ''[1]'' (jsmn_init (Some (blank_tokens 2)))) = Inr (2, 2)" by code_simp
  then obtain P where P: "jsmn_parse ''[1]'' (jsmn_init (Some (blank_tokens 2))) = Inr (2, P)" "jp_toknext P = 2"
    by (cases "jsmn_parse ''[1]'' (jsmn_init (Some (blank_tokens 2)))") auto
  have "length (blank_tokens 2) = length junk_tokens" by (simp add: blank_tokens_def junk_tokens_def)
  from jsmn_ignores_memory [OF this, of "''[1]''"] P show ?thesis
    by (cases "jsmn_parse ''[1]'' (jsmn_init (Some junk_tokens))") auto
qed

end
