(* ===== verification/Jsmn_Simple.thy ===== *)
theory Jsmn_Simple
  imports Json_Dump Jsmn_Memory
begin

text \<open>
  The program \<^verbatim>\<open>src/zserge-jsmn/example/simple.c\<close>, which parses one constant text into an uninitialised array of
  128 tokens and prints the values of the keys it knows. Its output is a list of lines.
\<close>

section \<open>Helpers\<close>

definition JSON_STRING :: string where
  "JSON_STRING =
     ''{'' @ quoted ''user'' @ '': '' @ quoted ''johndoe'' @ '', '' @ quoted ''admin'' @ '': false, '' @ quoted ''uid'' @ '': 1000,'' @
     CHR 0x0A # ''  '' @ quoted ''groups'' @ '': ['' @ quoted ''users'' @ '', '' @ quoted ''wheel'' @ '', '' @ quoted ''audio'' @ '', '' @
     quoted ''video'' @ '']}''"

definition ok_then :: "fault + 'a \<Rightarrow> ('a \<Rightarrow> fault + 'b) \<Rightarrow> fault + 'b" where
  "ok_then x f = (case x of Inl e \<Rightarrow> Inl e | Inr a \<Rightarrow> f a)"

lemma ok_then_simps [simp]: "ok_then (Inl e) f = Inl e" "ok_then (Inr a) f = f a"
  by (simp_all add: ok_then_def)

text \<open>The token \<^verbatim>\<open>t[i]\<close>.\<close>

definition tok_at :: "jsmntok list \<Rightarrow> int \<Rightarrow> fault + jsmntok" where
  "tok_at ts i = (if 0 \<le> i \<and> i < int (length ts) then Inr (ts ! nat i) else Inl Out_of_bounds)"

text \<open>The text is followed by a terminator, at which the comparison stops.\<close>

definition jsoneq :: "string \<Rightarrow> jsmntok \<Rightarrow> string \<Rightarrow> fault + int" where
  "jsoneq json t s =
     (if tok_type t = JSMN_STRING \<and> int (length s) = tok_end t - tok_start t then
        (if tok_start t < 0 \<or> int (length json) < tok_start t then Inl Out_of_bounds
         else if take (length s) (drop (nat (tok_start t)) json) = s then Inr 0
         else Inr (- 1))
      else Inr (- 1))"

text \<open>A line with the text of the token \<open>i\<close> behind a label.\<close>

definition line :: "string \<Rightarrow> jsmntok list \<Rightarrow> string \<Rightarrow> int \<Rightarrow> fault + string" where
  "line json ts label i = ok_then (tok_at ts i) (\<lambda>t. ok_then (print_range (json @ [NUL]) t) (\<lambda>s. Inr (label @ s)))"

fun lines :: "string \<Rightarrow> jsmntok list \<Rightarrow> string \<Rightarrow> int \<Rightarrow> nat \<Rightarrow> fault + string list" where
  "lines json ts label i 0 = Inr []"
| "lines json ts label i (Suc n) =
     ok_then (line json ts label i) (\<lambda>l. ok_then (lines json ts label (i + 1) n) (\<lambda>ls. Inr (l # ls)))"

section \<open>The program\<close>

text \<open>The body of the loop: the value of \<^verbatim>\<open>i\<close> at its end and the lines it prints.\<close>

definition simple_step :: "string \<Rightarrow> jsmntok list \<Rightarrow> int \<Rightarrow> fault + int \<times> string list" where
  "simple_step json ts i =
     ok_then (tok_at ts i) (\<lambda>t.
     ok_then (jsoneq json t ''user'') (\<lambda>user.
     if user = 0 then ok_then (line json ts ''- User: '' (i + 1)) (\<lambda>l. Inr (i + 1, [l])) else
     ok_then (jsoneq json t ''admin'') (\<lambda>admin.
     if admin = 0 then ok_then (line json ts ''- Admin: '' (i + 1)) (\<lambda>l. Inr (i + 1, [l])) else
     ok_then (jsoneq json t ''uid'') (\<lambda>uid.
     if uid = 0 then ok_then (line json ts ''- UID: '' (i + 1)) (\<lambda>l. Inr (i + 1, [l])) else
     ok_then (jsoneq json t ''groups'') (\<lambda>groups.
     if groups = 0 then
       ok_then (tok_at ts (i + 1)) (\<lambda>v.
       if tok_type v \<noteq> JSMN_ARRAY then Inr (i, [''- Groups:''])
       else ok_then (lines json ts ''  * '' (i + 2) (nat (tok_size v))) (\<lambda>ls.
         Inr (i + tok_size v + 1, ''- Groups:'' # ls)))
     else ok_then (line json ts ''Unexpected key: '' i) (\<lambda>l. Inr (i, [l])))))))"

text \<open>The loop need not end if \<^verbatim>\<open>i\<close> is moved back by the size of a token that was never filled.\<close>

partial_function (option) simple_loop :: "string \<Rightarrow> jsmntok list \<Rightarrow> int \<Rightarrow> int \<Rightarrow> string list \<Rightarrow> (fault + string list) option" where
  "simple_loop json ts r i out =
     (if r \<le> i then Some (Inr out)
      else case simple_step json ts i of
          Inl e \<Rightarrow> Some (Inl e)
        | Inr (i', ls) \<Rightarrow> simple_loop json ts r (i' + 1) (out @ ls))"

datatype simple_result = Failed_to_parse int | Object_expected | Printed "string list"

text \<open>The exit status is 0 after \<open>Printed\<close> and 1 otherwise.\<close>

definition simple_main :: "jsmntok list \<Rightarrow> (fault + int \<times> simple_result) option" where
  "simple_main t = (case jsmn_parse JSON_STRING (jsmn_init (Some t)) of
      Inl e \<Rightarrow> Some (Inl e)
    | Inr (r, P) \<Rightarrow>
        if r < 0 then Some (Inr (1, Failed_to_parse r))
        else let ts = the (jp_toks P) in
          if r < 1 \<or> tok_type (ts ! 0) \<noteq> JSMN_OBJECT then Some (Inr (1, Object_expected))
          else (case simple_loop JSON_STRING ts r 1 [] of
              None \<Rightarrow> None
            | Some (Inl e) \<Rightarrow> Some (Inl e)
            | Some (Inr out) \<Rightarrow> Some (Inr (0, Printed out))))"

section \<open>What it prints\<close>

definition simple_tokens :: "jsmntok list" where
  "simple_tokens =
     [mk_tok JSMN_OBJECT 0 98 4, mk_tok JSMN_STRING 2 4 1, mk_tok JSMN_STRING 10 7 0,
      mk_tok JSMN_STRING 21 5 1, mk_tok JSMN_PRIMITIVE 29 5 0, mk_tok JSMN_STRING 37 3 1,
      mk_tok JSMN_PRIMITIVE 43 4 0, mk_tok JSMN_STRING 52 6 1, mk_tok JSMN_ARRAY 61 36 4,
      mk_tok JSMN_STRING 63 5 0, mk_tok JSMN_STRING 72 5 0, mk_tok JSMN_STRING 81 5 0,
      mk_tok JSMN_STRING 90 5 0]"

definition simple_lines :: "string list" where
  "simple_lines = [''- User: johndoe'', ''- Admin: false'', ''- UID: 1000'', ''- Groups:'', ''  * users'', ''  * wheel'', ''  * audio'', ''  * video'']"

lemma simple_parse_blank:
  "map_sum id (\<lambda>(r, P). (r, jp_toknext P, take 13 (the (jp_toks P)))) (jsmn_parse JSON_STRING (jsmn_init (Some (blank_tokens 128)))) =
     Inr (13, 13, simple_tokens)"
  by code_simp

lemma simple_parse:
  assumes "length mem = 128"
  shows "\<exists>P rest. jsmn_parse JSON_STRING (jsmn_init (Some mem)) = Inr (13, P) \<and> jp_toks P = Some (simple_tokens @ rest)"
proof -
  obtain P where P: "jsmn_parse JSON_STRING (jsmn_init (Some (blank_tokens 128))) = Inr (13, P)" "jp_toknext P = 13" "take 13 (the (jp_toks P)) = simple_tokens"
    using simple_parse_blank by (cases "jsmn_parse JSON_STRING (jsmn_init (Some (blank_tokens 128)))") auto
  have "alike (jsmn_init (Some (blank_tokens 128))) (jsmn_init (Some mem))"
    using assms by (simp add: alike_def jsmn_init_def blank_tokens_def)
  from plain_memory.loop_same [OF resumable_init this, of JSON_STRING 0] P(1)
  obtain Q where Q: "jsmn_parse JSON_STRING (jsmn_init (Some mem)) = Inr (13, Q)" "alike P Q"
    by (auto simp: jsmn_parse_def same_parse_def split: sum.splits)
  obtain us where us: "jp_toks Q = Some us" using Q(2) by (rule alikeE) blast
  then have "us = simple_tokens @ drop 13 us" using alike_take(4) [OF Q(2)] P(2,3) by (metis append_take_drop_id option.sel)
  with Q(1) us have "jsmn_parse JSON_STRING (jsmn_init (Some mem)) = Inr (13, Q) \<and> jp_toks Q = Some (simple_tokens @ drop 13 us)" by simp
  then show ?thesis by blast
qed

text \<open>A step that stays inside an array does the same in a longer one.\<close>

lemma ok_then_mono:
  "ok_then x f = Inr y \<Longrightarrow> (\<And>a. x = Inr a \<Longrightarrow> x' = Inr a) \<Longrightarrow> (\<And>a. f a = Inr y \<Longrightarrow> f' a = Inr y) \<Longrightarrow> ok_then x' f' = Inr y"
  by (cases x) simp_all

lemma if_mono:
  "(if c then a else b) = Inr y \<Longrightarrow> (a = Inr y \<Longrightarrow> a' = Inr y) \<Longrightarrow> (b = Inr y \<Longrightarrow> b' = Inr y) \<Longrightarrow> (if c then a' else b') = Inr y"
  by (cases c) simp_all

lemma tok_at_more: "tok_at ts i = Inr t \<Longrightarrow> tok_at (ts @ rest) i = Inr t"
  by (auto simp: tok_at_def nth_append split: if_splits)

lemma line_more: "line json ts l i = Inr s \<Longrightarrow> line json (ts @ rest) l i = Inr s"
  unfolding line_def by (erule ok_then_mono tok_at_more | assumption)+

lemma lines_more: "lines json ts l i n = Inr s \<Longrightarrow> lines json (ts @ rest) l i n = Inr s"
proof (induction n arbitrary: i s)
  case (Suc n)
  from Suc.prems show ?case unfolding lines.simps by - (erule ok_then_mono line_more Suc.IH | assumption)+
qed simp

lemma simple_step_more: "simple_step json ts i = Inr y \<Longrightarrow> simple_step json (ts @ rest) i = Inr y"
  unfolding simple_step_def by (erule ok_then_mono if_mono tok_at_more line_more lines_more | assumption)+

lemma simple_steps:
  "simple_step JSON_STRING (simple_tokens @ rest) 1 = Inr (2, [''- User: johndoe''])"
  "simple_step JSON_STRING (simple_tokens @ rest) 3 = Inr (4, [''- Admin: false''])"
  "simple_step JSON_STRING (simple_tokens @ rest) 5 = Inr (6, [''- UID: 1000''])"
  "simple_step JSON_STRING (simple_tokens @ rest) 7 = Inr (12, [''- Groups:'', ''  * users'', ''  * wheel'', ''  * audio'', ''  * video''])"
proof -
  have "simple_step JSON_STRING simple_tokens 1 = Inr (2, [''- User: johndoe''])"
    "simple_step JSON_STRING simple_tokens 3 = Inr (4, [''- Admin: false''])"
    "simple_step JSON_STRING simple_tokens 5 = Inr (6, [''- UID: 1000''])"
    "simple_step JSON_STRING simple_tokens 7 = Inr (12, [''- Groups:'', ''  * users'', ''  * wheel'', ''  * audio'', ''  * video''])"
    by code_simp+
  then show "simple_step JSON_STRING (simple_tokens @ rest) 1 = Inr (2, [''- User: johndoe''])"
    "simple_step JSON_STRING (simple_tokens @ rest) 3 = Inr (4, [''- Admin: false''])"
    "simple_step JSON_STRING (simple_tokens @ rest) 5 = Inr (6, [''- UID: 1000''])"
    "simple_step JSON_STRING (simple_tokens @ rest) 7 = Inr (12, [''- Groups:'', ''  * users'', ''  * wheel'', ''  * audio'', ''  * video''])"
    by (simp_all only: simple_step_more)
qed

text \<open>
  The example prints what it is meant to: for every content of its uninitialised array, the program parses its text,
  prints the user, the administrator flag, the number and the four groups, stays inside the array and exits with status 0.
\<close>

lemma simple_main_prints:
  assumes "length mem = 128"
  shows "simple_main mem = Some (Inr (0, Printed simple_lines))"
proof -
  obtain P rest where P: "jsmn_parse JSON_STRING (jsmn_init (Some mem)) = Inr (13, P)" "jp_toks P = Some (simple_tokens @ rest)"
    using simple_parse [OF assms] by blast
  have "simple_loop JSON_STRING (simple_tokens @ rest) 13 1 [] = Some (Inr simple_lines)"
    by (simp add: simple_loop.simps [of _ _ _ 1] simple_loop.simps [of _ _ _ 3] simple_loop.simps [of _ _ _ 5] simple_loop.simps [of _ _ _ 7]
        simple_loop.simps [of _ _ _ 13] simple_steps simple_lines_def)
  moreover have "tok_type ((simple_tokens @ rest) ! 0) = JSMN_OBJECT" by (simp add: simple_tokens_def mk_tok_def)
  ultimately show ?thesis using P by (simp add: simple_main_def)
qed

end
