(* ===== verification/Jsmn_Strict.thy ===== *)
theory Jsmn_Strict
  imports Jsmn_Pieces Jsmn_Memory Json_Tree
begin

text \<open>
  The tokenizer as \<^verbatim>\<open>jsmn_test.c\<close> builds it, with \<^verbatim>\<open>JSMN_STRICT\<close>: a primitive starts with a digit, a minus sign
  or the first letter of a literal, is not a key, and ends at a delimiter within the text. Everything
  else is shared with the default mode, so the laws of the loops over the characters are shown for the
  new steps only. What strict mode accepts is what the default mode computes, unless a primitive contains
  a colon; it accepts every JSON text that is an object, an array or a string, and it can be fed a text
  in pieces that are cut anywhere.
\<close>

section \<open>The steps of strict mode\<close>

definition is_delim_strict :: "char \<Rightarrow> bool" where
  "is_delim_strict c \<longleftrightarrow> c \<in> {CHR 0x09, CHR 0x0D, CHR 0x0A, CHR '' '', CHR '','', CHR '']'', CHR ''}''}"

text \<open>A primitive that reaches the end of the text is partial.\<close>

fun prim_scan_strict :: "string \<Rightarrow> nat \<Rightarrow> str_result" where
  "prim_scan_strict [] p = Str_part"
| "prim_scan_strict (c # cs) p =
     (if c = NUL then Str_part
      else if is_delim_strict c then Closed p
      else if not_printable c then Str_inval
      else prim_scan_strict cs (p + 1))"

definition jsmn_parse_primitive_strict :: "string \<Rightarrow> jsmn_parser \<Rightarrow> int \<times> jsmn_parser" where
  "jsmn_parse_primitive_strict js P = (let start = jp_pos P in
     case prim_scan_strict (drop start js) start of
       Str_inval \<Rightarrow> (JSMN_ERROR_INVAL, P)
     | Str_part \<Rightarrow> (JSMN_ERROR_PART, P)
     | Closed p \<Rightarrow> (case put_token JSMN_PRIMITIVE start p P of
           (r, P') \<Rightarrow> if r < 0 then (r, P'\<lparr>jp_pos := start\<rparr>) else (0, P'\<lparr>jp_pos := p - 1\<rparr>)))"

definition prim_start :: "char \<Rightarrow> bool" where
  "prim_start c \<longleftrightarrow> c \<in> set ''-0123456789tfn''"

text \<open>The token that a primitive would be a key of, or a second value of.\<close>

definition no_value :: "jsmntok \<Rightarrow> bool" where
  "no_value t \<longleftrightarrow> tok_type t = JSMN_OBJECT \<or> tok_type t = JSMN_STRING \<and> tok_size t \<noteq> 0"

text \<open>\<^verbatim>\<open>tokens[parser->toksuper]\<close> is read without a test whether there is such a token.\<close>

definition jsmn_value_strict :: "string \<Rightarrow> jsmn_parser \<Rightarrow> fault + jsmn_step" where
  "jsmn_value_strict js P = (case jp_toks P of
      None \<Rightarrow> count_token (jsmn_parse_primitive_strict js P)
    | Some ts \<Rightarrow> (case super_index P ts of
        None \<Rightarrow> Inl Out_of_bounds
      | Some s \<Rightarrow>
          if no_value (ts ! s) then Inr (Stop JSMN_ERROR_INVAL P)
          else count_token (jsmn_parse_primitive_strict js P)))"

definition jsmn_char_strict :: "string \<Rightarrow> jsmn_parser \<Rightarrow> fault + jsmn_step" where
  "jsmn_char_strict js P = (let c = js ! jp_pos P in
     if c = CHR ''{'' \<or> c = CHR ''['' then jsmn_open c P
     else if c = CHR ''}'' \<or> c = CHR '']'' then Inr (jsmn_close c P)
     else if c = CHR 0x22 then count_token (jsmn_parse_string js P)
     else if c = CHR 0x09 \<or> c = CHR 0x0D \<or> c = CHR 0x0A \<or> c = CHR '' '' then Inr (Go 0 P)
     else if c = CHR '':'' then Inr (Go 0 (P\<lparr>jp_toksuper := int (jp_toknext P) - 1\<rparr>))
     else if c = CHR '','' then jsmn_comma P
     else if prim_start c then jsmn_value_strict js P
     else Inr (Stop JSMN_ERROR_INVAL P))"

lemma jsmn_char_structural: "structural (js ! jp_pos P) \<Longrightarrow> jsmn_char_strict js P = jsmn_char js P"
  by (auto simp: structural_def jsmn_char_strict_def jsmn_char_def Let_def)

lemma jsmn_char_strict_cases:
  obtains (shared) "structural (js ! jp_pos P)" "\<And>Q. jp_pos Q = jp_pos P \<Longrightarrow> jsmn_char_strict js Q = jsmn_char js Q"
    | (val) "prim_start (js ! jp_pos P)" "\<And>Q. jp_pos Q = jp_pos P \<Longrightarrow> jsmn_char_strict js Q = jsmn_value_strict js Q"
    | (other) "\<And>Q. jp_pos Q = jp_pos P \<Longrightarrow> jsmn_char_strict js Q = Inr (Stop JSMN_ERROR_INVAL Q)"
proof -
  consider "structural (js ! jp_pos P)" | "\<not> structural (js ! jp_pos P)" "prim_start (js ! jp_pos P)"
    | "\<not> structural (js ! jp_pos P)" "\<not> prim_start (js ! jp_pos P)" by blast
  then show thesis
  proof cases
    case 1
    then show thesis by (intro shared) (simp_all add: jsmn_char_structural)
  next
    case 2
    then show thesis by (intro val) (auto simp: jsmn_char_strict_def Let_def structural_def)
  next
    case 3
    then show thesis by (intro other) (auto simp: jsmn_char_strict_def Let_def structural_def)
  qed
qed

section \<open>Primitives of strict mode\<close>

text \<open>The scan stops at a delimiter in the text, where the default mode stops too unless there is a colon before it.\<close>

lemma prim_scan_strict_bounds: "prim_scan_strict s p = Closed q \<Longrightarrow> p \<le> q \<and> q < p + length s"
  by (induction s p rule: prim_scan_strict.induct) (fastforce split: if_splits)+

lemma prim_scan_strict_plain:
  "prim_scan_strict s p = Closed q \<Longrightarrow> CHR '':'' \<notin> set (take (q - p) s) \<Longrightarrow> prim_scan s p = Some q"
proof (induction s p rule: prim_scan_strict.induct)
  case (2 c cs p)
  show ?case
  proof (cases "is_delim_strict c")
    case True
    with "2.prems"(1) show ?thesis by (auto simp: is_delim_def is_delim_strict_def split: if_splits)
  next
    case False
    with "2.prems"(1) have c: "c \<noteq> NUL" "\<not> not_printable c" and q: "prim_scan_strict cs (p + 1) = Closed q" by (auto split: if_splits)
    have d: "q - p = Suc (q - (p + 1))" using prim_scan_strict_bounds [OF q] by linarith
    with "2.prems"(2) have "c \<noteq> CHR '':''" "CHR '':'' \<notin> set (take (q - (p + 1)) cs)" by auto
    with "2.IH" [OF c(1) False c(2) q] c False show ?thesis by (simp add: is_delim_def is_delim_strict_def)
  qed
qed simp

lemma prim_scan_strict_piece: "prim_scan_strict s p = Closed q \<Longrightarrow> prim_scan_strict (s @ t) p = Closed q"
  by (induction s p rule: prim_scan_strict.induct) (auto split: if_splits)

lemma prim_scan_strict_ahead:
  assumes "prim_scan_strict (drop (jp_pos P) js) (jp_pos P) = Closed q" and "more_text js P" and "prim_start (js ! jp_pos P)"
  shows "jp_pos P + 1 \<le> q" "q < length js"
proof -
  have d: "drop (jp_pos P) js = js ! jp_pos P # drop (Suc (jp_pos P)) js" using assms(2) by (simp add: Cons_nth_drop_Suc)
  have "\<not> is_delim_strict (js ! jp_pos P)" using assms(3) by (auto simp: prim_start_def is_delim_strict_def)
  with assms(1,2) prim_scan_strict_bounds [of "drop (Suc (jp_pos P)) js" "jp_pos P + 1" q] show "jp_pos P + 1 \<le> q"
    by (simp add: d split: if_splits)
  show "q < length js" using prim_scan_strict_bounds [OF assms(1)] assms(2) by simp
qed

text \<open>A step at a primitive: what it stops with, and what it goes on with.\<close>

lemma jsmn_value_strict_Stop: "jsmn_value_strict js P = Inr (Stop r P') \<Longrightarrow> r < 0 \<and> P' = P"
  by (auto simp: jsmn_value_strict_def jsmn_parse_primitive_strict_def put_token_def count_token_def Let_def
      JSMN_ERROR_INVAL_def JSMN_ERROR_PART_def JSMN_ERROR_NOMEM_def
      split: option.splits if_splits str_result.splits sum.splits prod.splits)

lemma jsmn_value_strict_Go:
  assumes "jsmn_value_strict js P = Inr (Go k P')"
  obtains q Q where "k = 1" "prim_scan_strict (drop (jp_pos P) js) (jp_pos P) = Closed q" "put_token JSMN_PRIMITIVE (jp_pos P) q P = (0, Q)"
    "grow_super (Q\<lparr>jp_pos := q - 1\<rparr>) = Inr P'" "\<And>ts s. jp_toks P = Some ts \<Longrightarrow> super_index P ts = Some s \<Longrightarrow> \<not> no_value (ts ! s)"
proof -
  have c: "count_token (jsmn_parse_primitive_strict js P) = Inr (Go k P')"
    and n: "\<And>ts s. jp_toks P = Some ts \<Longrightarrow> super_index P ts = Some s \<Longrightarrow> \<not> no_value (ts ! s)"
    using assms by (auto simp: jsmn_value_strict_def split: option.splits if_splits)
  obtain q where q: "prim_scan_strict (drop (jp_pos P) js) (jp_pos P) = Closed q"
    using c by (auto simp: jsmn_parse_primitive_strict_def Let_def count_token_def JSMN_ERROR_INVAL_def JSMN_ERROR_PART_def split: str_result.splits)
  obtain r Q where Q: "put_token JSMN_PRIMITIVE (jp_pos P) q P = (r, Q)" by fastforce
  have "r = 0" "k = 1" "grow_super (Q\<lparr>jp_pos := q - 1\<rparr>) = Inr P'"
    using c q Q put_token_codes [OF Q]
    by (auto simp: jsmn_parse_primitive_strict_def Let_def count_token_def JSMN_ERROR_NOMEM_def split: sum.splits if_splits)
  with q Q n that show thesis by blast
qed

section \<open>The loop\<close>

lemma jsmn_char_strict_pos:
  assumes "jsmn_char_strict js P = Inr (Go k P')" and "more_text js P"
  shows "jp_pos P \<le> jp_pos P'"
proof (cases rule: jsmn_char_strict_cases [of js P])
  case shared
  with jsmn_char_pos [of js P k P'] assms show ?thesis by simp
next
  case val
  then obtain q Q where "prim_scan_strict (drop (jp_pos P) js) (jp_pos P) = Closed q" "grow_super (Q\<lparr>jp_pos := q - 1\<rparr>) = Inr P'"
    using assms(1) by (auto elim: jsmn_value_strict_Go)
  with prim_scan_strict_ahead(1) [OF _ assms(2) val(1)] grow_super_Inr show ?thesis by fastforce
qed (use assms(1) in simp)

function jsmn_loop_strict :: "string \<Rightarrow> jsmn_parser \<Rightarrow> int \<Rightarrow> fault + int \<times> jsmn_parser" where
  "jsmn_loop_strict js P count =
     (if jp_pos P < length js \<and> js ! jp_pos P \<noteq> NUL
      then (case jsmn_char_strict js P of
          Inl e \<Rightarrow> Inl e
        | Inr (Stop r P') \<Rightarrow> Inr (r, P')
        | Inr (Go n P') \<Rightarrow> jsmn_loop_strict js (P'\<lparr>jp_pos := jp_pos P' + 1\<rparr>) (count + n))
      else Inr (jsmn_end P count, P))"
  by pat_completeness auto

termination
proof (relation "measure (\<lambda>(js, P, _). length js - jp_pos P)")
  fix js P count x n P'
  assume "jp_pos P < length js \<and> js ! jp_pos P \<noteq> NUL" "jsmn_char_strict js P = Inr x" "x = Go n P'"
  with jsmn_char_strict_pos [of js P n P']
  show "((js, P'\<lparr>jp_pos := jp_pos P' + 1\<rparr>, count + n), js, P, count) \<in> measure (\<lambda>(js, P, _). length js - jp_pos P)"
    by auto
qed simp

declare jsmn_loop_strict.simps [simp del]

definition jsmn_parse_strict :: "string \<Rightarrow> jsmn_parser \<Rightarrow> fault + int \<times> jsmn_parser" where
  "jsmn_parse_strict js P = jsmn_loop_strict js P 0"

section \<open>The laws of the loops\<close>

lemma jsmn_char_strict_Stop: "jsmn_char_strict js P = Inr (Stop r P') \<Longrightarrow> r < 0 \<and> P' = P"
  by (cases rule: jsmn_char_strict_cases [of js P])
    (auto simp: JSMN_ERROR_INVAL_def dest: jsmn_char_Stop jsmn_char_Stop_neg jsmn_value_strict_Stop)

interpretation strict: char_loop jsmn_char_strict jsmn_loop_strict
  by unfold_locales (rule jsmn_loop_strict.simps, auto dest: jsmn_char_strict_pos jsmn_char_strict_Stop)

lemma jsmn_value_strict_inv:
  assumes "jsmn_inv js n P c" and "more_text js P" and "prim_start (js ! jp_pos P)" and "jsmn_value_strict js P = Inr (Go k P')"
  shows "jsmn_inv js n P' (c + k)"
proof -
  obtain q Q where q: "k = 1" "prim_scan_strict (drop (jp_pos P) js) (jp_pos P) = Closed q" "put_token JSMN_PRIMITIVE (jp_pos P) q P = (0, Q)"
    "grow_super (Q\<lparr>jp_pos := q - 1\<rparr>) = Inr P'" using assms(4) by (rule jsmn_value_strict_Go)
  note b = prim_scan_strict_ahead [OF q(2) assms(2,3)]
  have "jsmn_inv js n (Q\<lparr>jp_pos := q - 1\<rparr>) (c + 1)" by (rule put_token_inv [OF assms(1) q(3)]) (use b in auto)
  with grow_super_inv [OF this] q(1,4) show ?thesis by auto
qed

text \<open>A fault: the token before the first one is read at a comma or at a primitive.\<close>

definition bad_strict :: "char \<Rightarrow> bool" where
  "bad_strict c \<longleftrightarrow> c = CHR '','' \<or> prim_start c"

interpretation strict_tokens: token_loop jsmn_char_strict jsmn_loop_strict bad_strict
proof
  fix js n P c k P'
  assume a: "jsmn_inv js n P c" "more_text js P" "jsmn_char_strict js P = Inr (Go k P')"
  show "jsmn_inv js n P' (c + k) \<and> (k = 0 \<or> k = 1)"
  proof (cases rule: jsmn_char_strict_cases [of js P])
    case shared
    with a plain_tokens.step_inv [OF a(1,2)] show ?thesis by simp
  next
    case val
    with a jsmn_value_strict_inv [OF a(1,2) val(1)] show ?thesis by (auto elim: jsmn_value_strict_Go)
  qed (use a in simp)
next
  fix js n P c e
  assume a: "jsmn_inv js n P c" "more_text js P" "jsmn_char_strict js P = Inl e"
  then show "bad_strict (js ! jp_pos P)"
    by (cases rule: jsmn_char_strict_cases [of js P]) (auto simp: bad_strict_def dest: plain_tokens.step_fault)
qed

text \<open>More tokens.\<close>

lemma jsmn_value_strict_more:
  assumes "jsmn_inv js n P c" and "more_text js P" and "prim_start (js ! jp_pos P)"
  shows "extends (jsmn_value_strict js) n x P"
proof -
  obtain ts where ts: "jp_toks P = Some ts" "length ts = n" "jp_toknext P \<le> n" "- 1 \<le> jp_toksuper P" "jp_toksuper P < int (jp_toknext P)"
    using assms(1) by (auto simp: jsmn_inv_def)
  have s: "super_index (enlarge x P) (ts @ x) = super_index P ts" using ts by (auto simp: super_index_def)
  have n: "super_index P ts = Some i \<Longrightarrow> (ts @ x) ! i = ts ! i" for i using ts by (auto simp: super_index_def nth_append split: if_splits)
  have prim: "extends (\<lambda>P. count_token (jsmn_parse_primitive_strict js P)) n x P"
  proof (cases "prim_scan_strict (drop (jp_pos P) js) (jp_pos P)")
    case (Closed q)
    obtain r P1 where p: "put_token JSMN_PRIMITIVE (jp_pos P) q P = (r, P1)" by fastforce
    from put_token_more [OF assms(1) p, of x] show ?thesis
    proof
      assume r: "r = 0 \<and> put_token JSMN_PRIMITIVE (jp_pos P) q (enlarge x P) = (0, enlarge x P1)"
      have i: "jsmn_inv js n (P1\<lparr>jp_pos := q - 1\<rparr>) (c + 1)"
        by (rule put_token_inv [OF assms(1) p]) (use r prim_scan_strict_ahead [OF Closed assms(2,3)] in auto)
      obtain R where "grow_super (P1\<lparr>jp_pos := q - 1\<rparr>) = Inr R" using grow_super_inv [OF i] by blast
      with grow_super_more [OF i this, of x] Closed p r show ?thesis
        by (simp add: extends_def jsmn_parse_primitive_strict_def Let_def count_token_def)
    next
      assume "r = JSMN_ERROR_NOMEM \<and> P1 = P \<and> n \<le> jp_toknext P"
      with Closed p show ?thesis by (simp add: extends_def jsmn_parse_primitive_strict_def Let_def count_token_def JSMN_ERROR_NOMEM_def)
    qed
  qed (simp_all add: extends_def jsmn_parse_primitive_strict_def Let_def count_token_def JSMN_ERROR_INVAL_def JSMN_ERROR_PART_def JSMN_ERROR_NOMEM_def)
  show ?thesis
  proof (cases "super_index P ts")
    case None
    with ts(1) s show ?thesis by (simp add: extends_def jsmn_value_strict_def)
  next
    case (Some i)
    show ?thesis
    proof (cases "no_value (ts ! i)")
      case True
      with Some ts(1) s n show ?thesis by (simp add: extends_def jsmn_value_strict_def JSMN_ERROR_INVAL_def JSMN_ERROR_NOMEM_def)
    next
      case False
      with Some ts(1) s n prim extends_cong [of "jsmn_value_strict js" P "\<lambda>P. count_token (jsmn_parse_primitive_strict js P)" x n]
      show ?thesis by (simp add: jsmn_value_strict_def)
    qed
  qed
qed

interpretation strict_growth: growing_loop jsmn_char_strict jsmn_loop_strict bad_strict
proof
  fix js n P c x
  assume a: "jsmn_inv js n P c" "more_text js P"
  show "extends (jsmn_char_strict js) n x P"
  proof (cases rule: jsmn_char_strict_cases [of js P])
    case shared
    with plain_growth.step_more [OF a] extends_cong [of "jsmn_char_strict js" P "jsmn_char js" x n] show ?thesis by simp
  next
    case val
    with jsmn_value_strict_more [OF a] extends_cong [of "jsmn_char_strict js" P "jsmn_value_strict js" x n] show ?thesis by simp
  qed (simp add: extends_def JSMN_ERROR_INVAL_def JSMN_ERROR_NOMEM_def)
qed

text \<open>Other contents of the unused tokens.\<close>

lemma jsmn_value_strict_same:
  assumes "alike P Q" and "jp_toksuper P < int (jp_toknext P)"
  shows "same_step (jsmn_value_strict js P) (jsmn_value_strict js Q)"
proof -
  obtain ts us where tu: "jp_toks P = Some ts" "jp_toks Q = Some us" "length ts = length us" "jp_toknext P \<le> length ts"
    and eq: "\<And>j. j < jp_toknext P \<Longrightarrow> ts ! j = us ! j" and f: "jp_pos Q = jp_pos P" "jp_toknext Q = jp_toknext P" "jp_toksuper Q = jp_toksuper P"
    using assms(1) by (rule alikeE) blast
  have "same_step (count_token (jsmn_parse_primitive_strict js P)) (count_token (jsmn_parse_primitive_strict js Q))"
    using same_put [OF assms] same_count [OF assms] f(1) by (auto simp: jsmn_parse_primitive_strict_def Let_def split: str_result.split)
  moreover have "us ! nat (jp_toksuper P) = ts ! nat (jp_toksuper P)" if "0 \<le> jp_toksuper P"
    using that assms(2) by (intro eq [symmetric]) linarith
  moreover have "same_step (Inl e) (Inl e)" "same_step (Inr (Stop r P)) (Inr (Stop r Q))" for e r
    using assms(1) by (simp_all add: same_step_def)
  ultimately show ?thesis using tu f by (simp add: jsmn_value_strict_def super_index_def)
qed

interpretation strict_memory: clean_loop jsmn_char_strict jsmn_loop_strict bad_strict
proof
  fix P Q js
  assume a: "alike P Q" "jp_toksuper P < int (jp_toknext P)"
  then have pos: "jp_pos Q = jp_pos P" by (simp add: alike_def)
  show "same_step (jsmn_char_strict js P) (jsmn_char_strict js Q)"
  proof (cases rule: jsmn_char_strict_cases [of js P])
    case shared
    with same_char [OF a, of js] pos show ?thesis by simp
  next
    case val
    with jsmn_value_strict_same [OF a, of js] pos show ?thesis by simp
  next
    case other
    with a(1) pos show ?thesis by (simp add: same_step_def)
  qed
qed

text \<open>Pieces of a text: nothing is ever cut in two.\<close>

lemma jsmn_value_strict_kept:
  assumes "jsmn_inv js n P c" and "jsmn_value_strict js P = Inr (Go k P')"
  shows "kept P P'"
proof -
  obtain q Q where q: "put_token JSMN_PRIMITIVE (jp_pos P) q P = (0, Q)" "grow_super (Q\<lparr>jp_pos := q - 1\<rparr>) = Inr P'"
    using assms(2) by (rule jsmn_value_strict_Go)
  obtain ts where "jp_toks P = Some ts" "jp_toknext P \<le> length ts" using assms(1) by (auto simp: jsmn_inv_def)
  from kept_count [OF _ q(1) refl this, of 0 "q - 1" 1 P'] q(2) show ?thesis by (simp add: count_token_def)
qed

lemma jsmn_value_strict_piece:
  assumes "jp_pos P < length js1"
  shows "jsmn_value_strict (js1 @ js2) P = jsmn_value_strict js1 P \<or> (\<exists>r. jsmn_value_strict js1 P = Inr (Stop r P))"
proof (cases "prim_scan_strict (drop (jp_pos P) js1) (jp_pos P)")
  case (Closed q)
  with prim_scan_strict_piece [OF Closed, of js2] assms have "jsmn_parse_primitive_strict (js1 @ js2) P = jsmn_parse_primitive_strict js1 P"
    by (simp add: jsmn_parse_primitive_strict_def)
  then show ?thesis by (simp only: jsmn_value_strict_def simp_thms)
qed (auto simp: jsmn_value_strict_def jsmn_parse_primitive_strict_def count_token_def JSMN_ERROR_INVAL_def JSMN_ERROR_PART_def split: option.split)

interpretation strict_pieces: piecewise_loop jsmn_char_strict jsmn_loop_strict bad_strict "\<lambda>m P. False"
proof
  fix js n P c k P'
  assume a: "jsmn_inv js n P c" "jsmn_char_strict js P = Inr (Go k P')"
  then show "kept P P'"
    by (cases rule: jsmn_char_strict_cases [of js P]) (auto intro: kept_char jsmn_value_strict_kept)
next
  fix js1 n P c js2
  assume a: "jsmn_inv js1 n P c" "more_text js1 P"
  have nth: "(js1 @ js2) ! jp_pos P = js1 ! jp_pos P" using a(2) by (simp add: nth_append)
  have "jsmn_char_strict (js1 @ js2) P = jsmn_char_strict js1 P \<or> (\<exists>r. jsmn_char_strict js1 P = Inr (Stop r P))"
  proof (cases rule: jsmn_char_strict_cases [of js1 P])
    case shared
    with jsmn_char_piece [OF a(1), of js2] a(2) jsmn_char_structural [of "js1 @ js2" P] nth show ?thesis by auto
  next
    case val
    then have "jsmn_char_strict (js1 @ js2) P = jsmn_value_strict (js1 @ js2) P"
      by (auto simp: jsmn_char_strict_def Let_def prim_start_def nth)
    with val jsmn_value_strict_piece [of P js1 js2] a(2) show ?thesis by auto
  qed simp
  then show "jsmn_char_strict (js1 @ js2) P = jsmn_char_strict js1 P \<or> (\<exists>r. jsmn_char_strict js1 P = Inr (Stop r P)) \<or>
      cut_step (\<lambda>P. False) (jsmn_char_strict (js1 @ js2) P)" by blast
qed auto

text \<open>JSON texts.\<close>

definition word_strict :: "string \<Rightarrow> bool" where
  "word_strict s \<longleftrightarrow> s \<noteq> [] \<and> prim_start (hd s)"

definition ends_strict :: "string \<Rightarrow> bool" where
  "ends_strict r \<longleftrightarrow> r \<noteq> [] \<and> is_delim_strict (hd r)"

definition fits_strict :: "int \<Rightarrow> jsmntok list \<Rightarrow> bool" where
  "fits_strict sp ds \<longleftrightarrow> 0 \<le> sp \<and> nat sp < length ds \<and> \<not> no_value (ds ! nat sp)"

lemma prim_scan_strict_ok:
  "list_all (\<lambda>c. c \<noteq> NUL \<and> \<not> is_delim c \<and> \<not> not_printable c) s \<Longrightarrow> ends_strict rest \<Longrightarrow> prim_scan_strict (s @ rest) p = Closed (p + length s)"
proof (induction s arbitrary: p)
  case Nil
  then show ?case by (cases rest) (auto simp: ends_strict_def is_delim_strict_def NUL_def)
qed (auto simp: is_delim_def is_delim_strict_def)

lemma char_prim_strict:
  assumes js: "js = pre @ s @ rest" and s: "prim_ok s" "word_strict s" and "ends_strict rest" and "super_ok sp ds" and fits: "fits_strict sp ds"
  shows "jsmn_char_strict js (pst (length pre) ds sp (f # free)) =
    Inr (Go 1 (pst (length pre + length s - 1) (grow_at sp ds @ [mk_tok JSMN_PRIMITIVE (length pre) (length s) 0]) sp free))"
proof -
  let ?P = "pst (length pre) ds sp (f # free)"
  have c: "prim_start (js ! jp_pos ?P)" using js s(2) by (cases s) (auto simp: word_strict_def)
  have "prim_scan_strict (s @ rest) (length pre) = Closed (length pre + length s)"
    using assms(2,4) by (intro prim_scan_strict_ok) (simp_all add: prim_ok_def)
  then have "jsmn_parse_primitive_strict js ?P =
      (0, pst (length pre + length s - 1) (ds @ [mk_tok JSMN_PRIMITIVE (length pre) (length s) 0]) sp free)"
    using js put_token_at [of JSMN_PRIMITIVE "length pre" "length s"] by (simp add: jsmn_parse_primitive_strict_def Let_def)
  moreover have "jsmn_char_strict js ?P = jsmn_value_strict js ?P" using c by (auto simp: jsmn_char_strict_def Let_def prim_start_def)
  moreover have "super_index ?P (ds @ f # free) = Some (nat sp)" "\<not> no_value ((ds @ f # free) ! nat sp)"
    using fits by (auto simp: fits_strict_def super_index_def nth_append)
  ultimately show ?thesis using assms(5) by (simp add: jsmn_value_strict_def count_token_def grow_super_at)
qed

interpretation strict_json: json_loop jsmn_char_strict jsmn_loop_strict word_strict ends_strict fits_strict
proof
  show "fits_strict (int (length es + length cl + 1)) (es @ open_tok JSMN_OBJECT p k # cl @ [mk_tok JSMN_STRING q m 0])" for es p k cl q m
    by (simp add: fits_strict_def no_value_def mk_tok_def nth_append nat_add_distrib)
qed (simp_all add: jsmn_char_structural char_prim_strict ends_strict_def is_delim_strict_def fits_strict_def no_value_def open_tok_def)

section \<open>Strict mode and the default mode\<close>

definition tok_text :: "string \<Rightarrow> jsmntok \<Rightarrow> string" where
  "tok_text js t = take (nat (tok_end t - tok_start t)) (drop (nat (tok_start t)) js)"

text \<open>A primitive with a colon, which the default mode would divide.\<close>

definition has_colon :: "string \<Rightarrow> jsmn_parser \<Rightarrow> bool" where
  "has_colon js P \<longleftrightarrow> (\<exists>i < jp_toknext P. tok_type (the (jp_toks P) ! i) = JSMN_PRIMITIVE \<and> tok_end (the (jp_toks P) ! i) \<noteq> - 1 \<and>
     CHR '':'' \<in> set (tok_text js (the (jp_toks P) ! i)))"

lemma has_colon_kept:
  assumes "has_colon js P" and "kept P Q"
  shows "has_colon js Q"
proof -
  obtain i where i: "i < jp_toknext P" "tok_type (the (jp_toks P) ! i) = JSMN_PRIMITIVE" "tok_end (the (jp_toks P) ! i) \<noteq> - 1"
    "CHR '':'' \<in> set (tok_text js (the (jp_toks P) ! i))"
    using assms(1) by (auto simp: has_colon_def)
  with assms(2) have "tok_text js (the (jp_toks Q) ! i) = tok_text js (the (jp_toks P) ! i)" by (simp add: kept_def tok_text_def)
  with i assms(2) show ?thesis by (auto simp: has_colon_def kept_def intro!: exI [of _ i])
qed

lemma put_token_new:
  assumes "put_token ty st en P = (0, Q)" and "jp_toks P = Some ts"
  shows "jp_toknext Q = Suc (jp_toknext P) \<and>
    the (jp_toks Q) ! jp_toknext P = \<lparr>tok_type = ty, tok_start = int st, tok_end = int en, tok_size = 0\<rparr>"
  using assms by (auto simp: put_token_def JSMN_ERROR_NOMEM_def fill_token_all dest!: jsmn_alloc_token_Some split: option.splits)

lemma jsmn_value_strict_plain:
  assumes inv: "jsmn_inv js n P c" and go: "jsmn_value_strict js P = Inr (Go k P')"
  shows "count_token (jsmn_parse_primitive js P) = Inr (Go k P') \<or> has_colon js P'"
proof -
  obtain q Q where q: "k = 1" "prim_scan_strict (drop (jp_pos P) js) (jp_pos P) = Closed q" "put_token JSMN_PRIMITIVE (jp_pos P) q P = (0, Q)"
    "grow_super (Q\<lparr>jp_pos := q - 1\<rparr>) = Inr P'" using go by (rule jsmn_value_strict_Go)
  obtain ts where ts: "jp_toks P = Some ts" "jp_toknext P \<le> length ts" using inv by (auto simp: jsmn_inv_def)
  show ?thesis
  proof (cases "CHR '':'' \<in> set (take (q - jp_pos P) (drop (jp_pos P) js))")
    case False
    with q prim_scan_strict_plain [OF q(2)] show ?thesis by (simp add: jsmn_parse_primitive_def Let_def count_token_def)
  next
    case True
    have "nat (int q - int (jp_pos P)) = q - jp_pos P" by simp
    with True put_token_new [OF q(3) ts(1)] have "has_colon js Q" by (auto simp: has_colon_def tok_text_def intro!: exI [of _ "jp_toknext P"])
    moreover obtain us where "jp_toks Q = Some us" "jp_toknext Q \<le> length us" using put_token_toks [OF q(3) ts] by blast
    then have "kept Q P'" using kept_grow [OF q(4)] by simp
    ultimately show ?thesis using has_colon_kept by blast
  qed
qed

lemma jsmn_char_strict_plain:
  assumes "jsmn_inv js n P c" and "jsmn_char_strict js P = Inr (Go k P')"
  shows "jsmn_char js P = Inr (Go k P') \<or> has_colon js P'"
proof (cases rule: jsmn_char_strict_cases [of js P])
  case shared
  with assms(2) show ?thesis by simp
next
  case val
  have "jsmn_char js P = count_token (jsmn_parse_primitive js P)" using val(1) by (auto simp: jsmn_char_def Let_def prim_start_def)
  with val assms jsmn_value_strict_plain [OF assms(1), of k P'] show ?thesis by simp
qed (use assms(2) in simp)

lemma jsmn_loop_strict_plain:
  "resumable js n P \<Longrightarrow> jsmn_loop_strict js P c = Inr (r, F) \<Longrightarrow> 0 \<le> r \<Longrightarrow> \<not> has_colon js F \<Longrightarrow> jsmn_loop js P c = Inr (r, F)"
proof (induction P c rule: strict.loop_induct [of js])
  case (go P c k Q)
  note next_char = strict_tokens.resumable_step(1) [OF go.prems(1) go.hyps]
  have l: "jsmn_loop_strict js (next_char Q) (c + k) = Inr (r, F)" using go.prems(2) strict.loop_go [OF go.hyps] by simp
  with strict_pieces.loop_kept [OF next_char] go.prems(4) have "\<not> has_colon js Q" by (auto dest: has_colon_kept)
  with jsmn_char_strict_plain [OF _ go.hyps(2), of n "int (jp_toknext P)"] go.prems(1) have "jsmn_char js P = Inr (Go k Q)" by (auto simp: resumable_def)
  with go.IH [OF next_char l go.prems(3,4)] go.hyps(1) show ?case by (simp add: plain.loop_go)
qed (simp_all add: strict.loop_halt plain.loop_halt strict.loop_fault strict.loop_stop)

text \<open>
  C18. What strict mode accepts, the default mode reads in the same way. If the strict tokenizer
  returns a count and none of the primitives it found contains a colon, the tokenizer without strict
  mode returns the same count, the same tokens and the same parser.
\<close>

theorem strict_agrees_with_default:
  assumes "jsmn_parse_strict js (jsmn_init (Some mem)) = Inr (r, F)" and "0 \<le> r" and "\<not> has_colon js F"
  shows "jsmn_parse js (jsmn_init (Some mem)) = Inr (r, F)"
  using jsmn_loop_strict_plain [OF resumable_init, of js mem 0 r F] assms by (simp add: jsmn_parse_strict_def jsmn_parse_def)

lemma strict_example:
  "\<exists>F. jsmn_parse_strict ''[1, [true]]'' (jsmn_init (Some (blank_tokens 4))) = Inr (4, F) \<and> \<not> has_colon ''[1, [true]]'' F"
proof -
  have "map_sum id (\<lambda>(r, F). (r, has_colon ''[1, [true]]'' F)) (jsmn_parse_strict ''[1, [true]]'' (jsmn_init (Some (blank_tokens 4)))) = Inr (4, False)"
    by code_simp
  then show ?thesis by (cases "jsmn_parse_strict ''[1, [true]]'' (jsmn_init (Some (blank_tokens 4)))") auto
qed

theorem strict_agrees_with_default_witness:
  "\<exists>F. jsmn_parse_strict ''[1, [true]]'' (jsmn_init (Some (blank_tokens 4))) = Inr (4, F) \<and>
     jsmn_parse ''[1, [true]]'' (jsmn_init (Some (blank_tokens 4))) = Inr (4, F)"
proof -
  obtain F where "jsmn_parse_strict ''[1, [true]]'' (jsmn_init (Some (blank_tokens 4))) = Inr (4, F)" "\<not> has_colon ''[1, [true]]'' F"
    using strict_example by blast
  with strict_agrees_with_default [OF this(1) _ this(2)] show ?thesis by simp
qed

text \<open>With a colon they differ: strict mode takes a whole word, which is not JSON either, for one primitive.\<close>

lemma strict_takes_colon:
  "map_sum id fst (jsmn_parse_strict ''[1:2]'' (jsmn_init (Some (blank_tokens 4)))) = Inr 2"
  "map_sum id fst (jsmn_parse ''[1:2]'' (jsmn_init (Some (blank_tokens 4)))) = Inr 3"
  by code_simp+

section \<open>Safety, pieces and JSON\<close>

text \<open>
  The tokenizer is safe in strict mode for every text and every token array, whatever the array held. It
  ends. If it returns a count, that count is the number of tokens it filled and fits the array, and every
  one of them is a closed interval inside the text. It leaves the array only at a comma or a primitive,
  where it reads the token before the first one.
\<close>

lemma strict_parse_safe:
  "case jsmn_parse_strict js (jsmn_init (Some mem)) of
     Inl e \<Rightarrow> \<exists>c \<in> set js. c = CHR '','' \<or> prim_start c
   | Inr (r, P) \<Rightarrow> r < 0 \<or>
       (\<exists>ts. jp_toks P = Some ts \<and> length ts = length mem \<and> r = int (jp_toknext P) \<and> jp_toknext P \<le> length mem \<and>
         (\<forall>i < jp_toknext P. 0 \<le> tok_start (ts ! i) \<and> tok_start (ts ! i) \<le> tok_end (ts ! i) \<and>
            tok_end (ts ! i) \<le> int (length js)))"
  using strict_tokens.loop_safe [of js mem] by (simp add: jsmn_parse_strict_def bad_strict_def split: sum.splits prod.splits)

text \<open>A primitive that is the whole text is read with the token before the array.\<close>

lemma strict_reads_before_array: "jsmn_parse_strict ''1 '' (jsmn_init (Some (blank_tokens 4))) = Inl Out_of_bounds"
  by code_simp

text \<open>
  C20. A text can be fed to the strict tokenizer in pieces. If the strict parse of a text returns a count,
  then the parse of any first part of it, wherever the text is cut, ends without a fault, and calling the
  tokenizer again with the whole text, on the parser as the first call left it, returns a count and ends
  with the parser and the tokens of the single parse.
\<close>

theorem strict_parse_in_pieces:
  assumes "jsmn_parse_strict (js @ js') (jsmn_init (Some mem)) = Inr (r, F)" and "0 \<le> r"
  shows "\<exists>q P r'. jsmn_parse_strict js (jsmn_init (Some mem)) = Inr (q, P) \<and> jsmn_parse_strict (js @ js') P = Inr (r', F) \<and> 0 \<le> r'"
proof -
  obtain q P d where P: "jsmn_loop_strict js (jsmn_init (Some mem)) 0 = Inr (q, P)" "0 \<le> d"
      "jsmn_loop_strict (js @ js') P d = Inr (r, F)"
    using strict_pieces.loop_piece [OF resumable_init, of 0 js js' mem r F] assms by (auto simp: jsmn_parse_strict_def)
  have "resumable (js @ js') (length mem) P" using strict_tokens.loop_resumable [OF resumable_init P(1)] by (rule resumable_longer)
  from strict_tokens.loop_count [OF this P(2), of 0] P(3) obtain r' where "jsmn_loop_strict (js @ js') P 0 = Inr (r', F)" "r' = r \<or> 0 \<le> r'"
    using same_end_Inr [of r F] by fastforce
  with P(1) assms(2) show ?thesis by (auto simp: jsmn_parse_strict_def)
qed

theorem strict_parse_in_pieces_witness:
  "\<exists>q P r' F. jsmn_parse_strict ''[1, [tr'' (jsmn_init (Some (blank_tokens 4))) = Inr (q, P) \<and>
     jsmn_parse_strict ''[1, [true]]'' P = Inr (r', F) \<and> 0 \<le> r' \<and>
     jsmn_parse_strict ''[1, [true]]'' (jsmn_init (Some (blank_tokens 4))) = Inr (4, F)"
proof -
  obtain F where "jsmn_parse_strict ''[1, [true]]'' (jsmn_init (Some (blank_tokens 4))) = Inr (4, F)" using strict_example by blast
  with strict_parse_in_pieces [of "''[1, [tr''" "''ue]]''" "blank_tokens 4" 4 F] show ?thesis by simp
qed



end
