(* ===== verification/Jsmn_Tests.thy ===== *)
theory Jsmn_Tests
  imports Jsmn_Strict
begin

text \<open>
  The expectations of \<^verbatim>\<open>src/zserge-jsmn/jsmn_test.c\<close>, evaluated on the model of the tokenizer. The test program
  includes the tokenizer twice, with strict mode for most of the tests and without it for the last ones.
  The tests of strict mode that hold in both modes are evaluated in both.
\<close>

section \<open>Running a test\<close>

text \<open>To keep the texts readable, a grave accent stands for a double quote and a tilde for a backslash.\<close>

definition tick :: "string \<Rightarrow> string" where
  "tick = map (\<lambda>c. if c = CHR 0x60 then CHR 0x22 else if c = CHR 0x7E then CHR 0x5C else c)"

type_synonym jsmn_parse_fun = "string \<Rightarrow> jsmn_parser \<Rightarrow> fault + int \<times> jsmn_parser"

text \<open>The calls of one test on the same parser: the result and the tokens in use after each of them.\<close>

fun feed :: "jsmn_parse_fun \<Rightarrow> jsmn_parser \<Rightarrow> string list \<Rightarrow> (int \<times> jsmntok list) list option" where
  "feed parse P [] = Some []"
| "feed parse P (s # ss) = (case parse (tick s) P of
      Inl e \<Rightarrow> None
    | Inr (r, P') \<Rightarrow> map_option (Cons (r, take (jp_toknext P') (the (jp_toks P')))) (feed parse P' ss))"

definition fed :: "jsmn_parse_fun \<Rightarrow> string list \<Rightarrow> (int \<times> jsmntok list) list" where
  "fed parse ss = the (feed parse (jsmn_init (Some (blank_tokens 10))) ss)"

definition token_string :: "string \<Rightarrow> jsmntok \<Rightarrow> string" where
  "token_string s t = take (nat (tok_end t - tok_start t)) (drop (nat (tok_start t)) (tick s))"

definition result_of :: "jsmn_parse_fun \<Rightarrow> string \<Rightarrow> int" where
  "result_of parse s = fst (hd (fed parse [s]))"

definition count_of :: "jsmn_parse_fun \<Rightarrow> string \<Rightarrow> (fault + int)" where
  "count_of parse s = map_sum id fst (parse (tick s) (jsmn_init None))"

definition in_both :: "(jsmn_parse_fun \<Rightarrow> 'a) \<Rightarrow> 'a \<Rightarrow> bool" where
  "in_both f x \<longleftrightarrow> f jsmn_parse_strict = x \<and> f jsmn_parse = x"

section \<open>The tests\<close>

lemma test_empty:
  "in_both (\<lambda>parse. map (\<lambda>s. map (\<lambda>t. (tok_type t, tok_start t, tok_end t)) (snd (hd (fed parse [s])))) [''{}'', ''[]'', ''{`a`:[]}'', ''[{},{}]''])
     [[(JSMN_OBJECT, 0, 2)], [(JSMN_ARRAY, 0, 2)], [(JSMN_OBJECT, 0, 8), (JSMN_STRING, 2, 3), (JSMN_ARRAY, 5, 7)],
      [(JSMN_ARRAY, 0, 7), (JSMN_OBJECT, 1, 3), (JSMN_OBJECT, 4, 6)]]"
  by code_simp

lemma test_simple:
  "in_both (\<lambda>parse. map (\<lambda>t. (tok_start t, tok_end t, tok_type t, token_string ''{`a`: 0}'' t)) (snd (hd (fed parse [''{`a`: 0}'']))))
     [(0, 8, JSMN_OBJECT, tick ''{`a`: 0}''), (2, 3, JSMN_STRING, ''a''), (6, 7, JSMN_PRIMITIVE, ''0'')]"
  "in_both (\<lambda>parse. map (result_of parse) [''[`a`:{},`b`:{}]'', ''{'' @ [CHR 0x0A] @ '' `Day`: 26, `Month`: 9, `Year`: 12'' @ [CHR 0x0A] @ '' }'']) [5, 7]"
  by code_simp+

lemma test_string:
  "in_both (\<lambda>parse. map (\<lambda>s. map (token_string s) (snd (hd (fed parse [s]))))
       [''`strVar` : `hello world`'', ''`strVar` : `escapes: ~/~r~n~t~b~f~`~~`'', ''`strVar` : ``''])
     [[''strVar'', ''hello world''], [''strVar'', tick ''escapes: ~/~r~n~t~b~f~`~~''], [''strVar'', []]]"
  by code_simp

lemma test_partial_string:
  "in_both (\<lambda>parse. map (\<lambda>(r, ts). (r, map tok_type ts))
       (fed parse [''`x`: `va'', ''`x`: `valu'', ''`x`: `value`'', ''`x`: `value`, `y`: `value y`'']))
     [(JSMN_ERROR_PART, [JSMN_STRING]), (JSMN_ERROR_PART, [JSMN_STRING]), (1, [JSMN_STRING, JSMN_STRING]),
      (2, [JSMN_STRING, JSMN_STRING, JSMN_STRING, JSMN_STRING])]"
  "in_both (\<lambda>parse. map (result_of parse) [''`x`: `va~'', ''`x`: `va~u'']) [JSMN_ERROR_PART, JSMN_ERROR_PART]"
  by code_simp+

lemma test_partial_array:
  "in_both (\<lambda>parse. map (\<lambda>(r, ts). (r, map (\<lambda>t. (tok_type t, tok_size t)) ts))
       (fed parse [''  [ 1, true, '', ''  [ 1, true, [123, `hello'', ''  [ 1, true, [123, `hello`]'', ''  [ 1, true, [123, `hello`]]'']))
     [(JSMN_ERROR_PART, [(JSMN_ARRAY, 2), (JSMN_PRIMITIVE, 0), (JSMN_PRIMITIVE, 0)]),
      (JSMN_ERROR_PART, [(JSMN_ARRAY, 3), (JSMN_PRIMITIVE, 0), (JSMN_PRIMITIVE, 0), (JSMN_ARRAY, 1), (JSMN_PRIMITIVE, 0)]),
      (JSMN_ERROR_PART, [(JSMN_ARRAY, 3), (JSMN_PRIMITIVE, 0), (JSMN_PRIMITIVE, 0), (JSMN_ARRAY, 2), (JSMN_PRIMITIVE, 0), (JSMN_STRING, 0)]),
      (0, [(JSMN_ARRAY, 3), (JSMN_PRIMITIVE, 0), (JSMN_PRIMITIVE, 0), (JSMN_ARRAY, 2), (JSMN_PRIMITIVE, 0), (JSMN_STRING, 0)])]"
  by code_simp

text \<open>An array of \<open>i\<close> tokens is used up; its contents are then moved to a larger one and the parse goes on.\<close>

lemma test_array_nomem:
  "in_both (\<lambda>parse. list_all (\<lambda>i. case parse (tick ''  [ 1, true, [123, `hello`]]'') (jsmn_init (Some (blank_tokens i))) of
      Inl e \<Rightarrow> False
    | Inr (r, P) \<Rightarrow> r = JSMN_ERROR_NOMEM \<and>
        (case parse (tick ''  [ 1, true, [123, `hello`]]'') (enlarge (blank_tokens (10 - i)) P) of
           Inl e \<Rightarrow> False
         | Inr (r', P') \<Rightarrow> 0 \<le> r' \<and> (let t = the (jp_toks P') in
             (tok_type (t ! 0), tok_size (t ! 0)) = (JSMN_ARRAY, 3) \<and> (tok_type (t ! 3), tok_size (t ! 3)) = (JSMN_ARRAY, 2))))
     [0, 1, 2, 3, 4, 5]) True"
  by code_simp

lemma test_objects_arrays:
  "in_both (\<lambda>parse. map (result_of parse) [''[10}'', ''[10]'', ''{`a`: 1]'', ''{`a`: 1}'']) [JSMN_ERROR_INVAL, 2, JSMN_ERROR_INVAL, 3]"
  by code_simp

lemma test_unicode_characters:
  "in_both (\<lambda>parse. map (result_of parse) [''{`a`:`~uAbcD`}'', ''{`a`:`str~u0000`}'', ''{`a`:`~uFFFFstr`}'', ''{`a`:`str~uFFGFstr`}'',
      ''{`a`:`str~u@FfF`}'', ''{`a`:[`~u028`]}'', ''{`a`:[`~u0280`]}''])
     [3, 3, 3, JSMN_ERROR_INVAL, JSMN_ERROR_INVAL, JSMN_ERROR_INVAL, 4]"
  by code_simp

lemma test_input_length:
  "in_both (\<lambda>parse. case fed parse [take 8 ''{`a`: 0}garbage''] of [(r, ts)] \<Rightarrow> (r, map (token_string ''{`a`: 0}garbage'') ts) | _ \<Rightarrow> (0, []))
     (3, [tick ''{`a`: 0}'', ''a'', ''0''])"
  by code_simp

lemma test_count:
  "in_both (\<lambda>parse. map (count_of parse) [''{}'', ''[]'', ''[[]]'', ''[[], []]'', ''[[], [[]], [[], []]]'', ''[`a`, [[], []]]'', ''[[], `[], [[]]`, [[]]]'',
      ''[1, 2, 3]'', ''[1, 2, [3, `a`], null]''])
     (map Inr [1, 1, 2, 3, 7, 5, 5, 4, 7])"
  by code_simp

text \<open>The rest of this test only holds in strict mode.\<close>

lemma test_keyvalue:
  "in_both (\<lambda>parse. map (\<lambda>(r, ts). (r, map tok_size ts)) (fed parse [''{`a`: 0, `b`: `c`}''])) [(5, [2, 1, 0, 1, 0])]"
  "map (result_of jsmn_parse_strict) [''{`a`'' @ [CHR 0x0A] @ ''0}'', ''{`a`, 0}'', ''{`a`: {2}}'', ''{`a`: {2: 3}}'', ''{`a`: {`a`: 2 3}}''] =
     [JSMN_ERROR_INVAL, JSMN_ERROR_INVAL, JSMN_ERROR_INVAL, JSMN_ERROR_INVAL, JSMN_ERROR_INVAL]"
  "map (result_of jsmn_parse) [''{`a`'' @ [CHR 0x0A] @ ''0}'', ''{`a`, 0}'', ''{`a`: {2}}'', ''{`a`: {2: 3}}'', ''{`a`: {`a`: 2 3}}''] = [3, 3, 4, 5, 6]"
  by code_simp+

text \<open>The tests without strict mode, the ones that the test program leaves out included.\<close>

lemma test_nonstrict:
  "(case fed jsmn_parse [take 4 ''a: 0garbage''] of [(r, ts)] \<Rightarrow> (r, map (token_string ''a: 0garbage'') ts) | _ \<Rightarrow> (0, [])) = (2, [''a'', ''0''])"
  "result_of jsmn_parse (''Day : 26'' @ [CHR 0x0A] @ ''Month : Sep'' @ [CHR 0x0A, CHR 0x0A] @ ''Year: 12'') = 6"
  by code_simp+

lemma test_primitive:
  "map (\<lambda>s. map (\<lambda>t. (tok_type t, token_string s t)) (snd (hd (fed jsmn_parse [s])))) [''`boolVar` : true'', ''`floatVar` : 12.345'', ''`nullVar` : null''] =
     [[(JSMN_STRING, ''boolVar''), (JSMN_PRIMITIVE, ''true'')], [(JSMN_STRING, ''floatVar''), (JSMN_PRIMITIVE, ''12.345'')],
      [(JSMN_STRING, ''nullVar''), (JSMN_PRIMITIVE, ''null'')]]"
  by code_simp

end
