(* ===== verification/Spec2Isabelle.thy ===== *)
theory Spec2Isabelle
  imports Queue_Threads Client_Main System Call_Protocol Jsondump Jsmn_Simple Jsmn_Tests
begin

text \<open>
  A verification library for libraft, a C and C++ client of a Raft process.

  The client process and the Raft process share a memory segment. The client sends requests
  through one bounded queue and receives state-machine calls through another; every call is a slot
  in the segment that carries its arguments, its state, its result and a mutex. Client threads
  wait for slots and dispose of them; a collector thread frees the slots that were disposed of
  before their result was seen; a worker thread runs the client's state machine; a second worker
  writes snapshots.

  \<^bold>\<open>Theories.\<close>
  \<^item> \<open>Raft_Prelude\<close>: machine words, outcomes of calls (return, exception, blocked, fault),
    the operations every component is written in, waiting along a schedule, the predicate \<open>keeps\<close> for
    operations that preserve an invariant as long as the other threads do, character arrays,
    reachability and the locale \<open>inductive_invariant\<close>.
  \<^item> \<open>CLib\<close>: decimal input and output of the C library.
  \<^item> \<open>Queue\<close>: \<^verbatim>\<open>src/queue.h\<close>, both queues as operations; the locale \<open>blocking_queue\<close> is their common
    contract, interpreted on each of them.
  \<^item> \<open>Queue_Threads\<close>: the same queues under any interleaving of threads, as step relations whose
    steps are the critical sections.
  \<^item> \<open>Calls\<close>: enumerations, call tables, argument structures, tag names, error messages.
  \<^item> \<open>Timing\<close>: the class \<^verbatim>\<open>Timings\<close>.
  \<^item> \<open>World\<close>: the record of everything that the two processes and the client's threads share, and the
    buffers of the segment.
  \<^item> \<open>Slots\<close>: \<^verbatim>\<open>BaseSlot\<close>, \<^verbatim>\<open>CallSlot\<close> and the sending of requests.
  \<^item> \<open>Orphans\<close>: the collector.
  \<^item> \<open>C_If\<close>: the calls and futures of \<^verbatim>\<open>src/raft_c_if.cc\<close>.
  \<^item> \<open>Fsm\<close>: the FSM worker and the snapshot worker; the locale \<open>pure_fsm\<close> is what the worker relies on.
  \<^item> \<open>Config\<close>: \<^verbatim>\<open>src/config.cc\<close> and the option functions.
  \<^item> \<open>Client\<close>: \<^verbatim>\<open>src/raft_client.c\<close>, whose state machine interprets \<open>pure_fsm\<close>.
  \<^item> \<open>Lifecycle\<close>: start-up, shutdown and the watcher thread of \<^verbatim>\<open>src/raft_shm.cc\<close> and \<^verbatim>\<open>src/raft_c_if.cc\<close>.
  \<^item> \<open>Jsmn\<close>: the JSON tokenizer \<^verbatim>\<open>src/zserge-jsmn/jsmn.c\<close> in its default mode. The locales \<open>char_loop\<close> and \<open>token_loop\<close> are
    the laws of a loop over the characters of a text; what follows from them is shown once, for both modes.
  \<^item> \<open>Json_Tree\<close>: JSON values, their texts and their tokens, and what the tokenizer computes on them (\<open>json_loop\<close>).
  \<^item> \<open>Jsmn_Memory\<close>: the tokenizer does not depend on what the token array held before (\<open>clean_loop\<close>).
  \<^item> \<open>Jsmn_Resume\<close>, \<open>Jsmn_Pieces\<close>: going on with a parse after the array was enlarged (\<open>growing_loop\<close>), and after the
    text was (\<open>piecewise_loop\<close>).
  \<^item> \<open>Jsmn_Strict\<close>: the strict mode of the tokenizer, which interprets all of these locales, and how it compares
    with the default mode.
  \<^item> \<open>Json_Dump\<close>, \<open>Jsondump\<close>: \<^verbatim>\<open>dump\<close> and \<^verbatim>\<open>main\<close> of \<^verbatim>\<open>src/zserge-jsmn/example/jsondump.c\<close>.
  \<^item> \<open>Jsmn_Simple\<close>: \<^verbatim>\<open>src/zserge-jsmn/example/simple.c\<close>.
  \<^item> \<open>Jsmn_Tests\<close>: the expectations of \<^verbatim>\<open>src/zserge-jsmn/jsmn_test.c\<close>, evaluated on the model of both modes.
  \<^item> \<open>Stats_Print\<close>: \<^verbatim>\<open>raft_print_stats\<close>.
  \<^item> \<open>Client_Main\<close>: \<^verbatim>\<open>main\<close> of the example client and its help text.
  \<^item> \<open>Sys_Inv\<close>, \<open>System\<close>: the two processes together. \<open>sys_inv\<close> is the invariant of the shared state and every
    operation keeps it; \<open>sys_step\<close> runs any operation while any others run at its waits.
  \<^item> \<open>Call_Protocol\<close>: the protocol that the client, the Raft process and the collector follow on a call, and
    the proof that the operations implement it.

  \<^bold>\<open>How code is modelled.\<close> A function of the program is an operation: a function from a world and a
  schedule to an outcome. The schedule lists what the other threads and the Raft process do
  whenever this thread has to wait; a thread whose schedule is used up is blocked. Between two
  waits an operation runs without interference, which is what the mutexes give for the members
  they protect; the places where the code reads shared data without a mutex are the subject of
  \<open>Queue_Threads\<close>. C++ exceptions are the outcome \<open>Throw\<close>; a failed assertion, a call to
  \<^verbatim>\<open>abort\<close> or \<^verbatim>\<open>exit\<close>, an access to freed memory and an access past an array are faults. Memory that
  the code does not initialise holds arbitrary characters. Loops that serve requests for ever
  are modelled turn by turn: the number of turns is a parameter, and the result says whether the
  thread is still running, so that no bound is chosen. Loops whose end is not obvious, such as the one of
  \<^verbatim>\<open>jsondump.c\<close> that enlarges its array until a parse succeeds, are partial functions, and that they return is proved.

  \<^bold>\<open>What is assumed.\<close> The Boost segment is a parameter with the law \<open>boost_ok\<close>: allocation gives a
  fresh non-null address of the segment or fails, and a handle's address depends only on where the
  segment is mapped. The client's \<^verbatim>\<open>malloc\<close> is a parameter with the law \<open>malloc_ok\<close>. What
  \<^verbatim>\<open>getopt_long\<close>, \<^verbatim>\<open>fopen\<close>, \<^verbatim>\<open>fclose\<close>, \<^verbatim>\<open>fprintf\<close>, \<^verbatim>\<open>fread\<close> and \<^verbatim>\<open>realloc\<close> answer is passed in; a block
  from \<^verbatim>\<open>realloc\<close> has the size that was asked for (\<open>realloc_ok\<close>).

  \<^bold>\<open>What is shown.\<close> Under every interleaving both queues deliver what was put, in order, and lose no
  wake-up while they are open (\<open>Queue_Threads\<close>). A synchronous apply returns exactly the reply and
  frees its slot (\<open>C_If\<close>). The collector frees exactly the finished orphans with their buffers and
  ends when its queue is closed (\<open>Orphans\<close>). The worker answers every command once and in order, and
  refines the fold of the state machine over the commands (\<open>Fsm\<close>, \<open>Client\<close>). Snapshots restore to
  the captured state. Options never write past their arrays. In every reachable state of the whole
  system the counters of calls and buffers are exact (\<open>System\<close>); no operation on a held call touches freed
  memory, and every live call is held by the client or the collector (\<open>Call_Protocol\<close>). The
  client program checks its options before it starts anything, and at its end prints the
  statistics and joins all threads (\<open>Client_Main\<close>). The tokenizer fills exactly the tokens of a JSON value
  (\<open>Json_Tree\<close>), independently of uninitialised memory (\<open>Jsmn_Memory\<close>); it can be resumed with more tokens or more
  text, except inside a primitive (\<open>Jsmn_Resume\<close>, \<open>Jsmn_Pieces\<close>), so that \<^verbatim>\<open>jsondump\<close> ends on every input and prints
  a JSON value that arrives in pieces (\<open>Jsondump\<close>). In strict mode a text may be cut anywhere, JSON is accepted with the same
  tokens, and what is accepted is read as the default mode reads it (\<open>Jsmn_Strict\<close>). A wait with a time limit ends
  when the clock has reached the limit (\<open>C_If\<close>). Several theorems state defects of
  the code: a closed queue can leave a taker waiting, a failed call can be read as a success, a
  polled call has its buffer freed twice, and others.

  \<^bold>\<open>What is not modelled.\<close> What is logged; the Raft process itself, which is a Go program outside of the
  repository: \<open>System\<close> lets it do anything that the interface allows, and \<open>Call_Protocol\<close> names the
  discipline the library relies on; the setting of the per-call allocator pointers in
  \<^verbatim>\<open>init_client_allocators\<close> and \<^verbatim>\<open>init_raft_allocators\<close>, which are part of the parameter for Boost; the
  unused template \<^verbatim>\<open>make_unique\<close>; the parent links of the tokenizer, which
  nothing in the repository compiles; the difference between the clocks of the standard library and of Boost, for which there is one
  clock that the other threads' steps move; the tests that start a Raft process (\<^verbatim>\<open>src/test.cc\<close>). The rest of the
  sources that no definition covers are declarations, include guards and prototypes.
\<close>

end
